(* ===== verification/Nuki_Prelude.thy ===== *)
theory Nuki_Prelude
  imports Main "HOL-Library.Word"
begin

text \<open>
  Shared vocabulary of the development: the machine integers of the C sources, byte buffers,
  the error numbers, the little-endian reading of byte lists, and the generic facts about
  index loops that the component theories use.

  A C buffer is a \<open>bytes\<close> value; \<open>size_t\<close> lengths are natural numbers (every length in the
  sources is bounded far below the 32-bit range). A C loop \<open>for (i = 0; i < n; i++)\<close> that
  updates local state is \<open>fold\<close> over \<open>[0..<n]\<close>. Functions that return a negative errno
  are modelled either as \<open>int\<close> results (when the value itself is what the caller sees) or as
  a sum \<open>int + 'a\<close>, where \<open>Inl\<close> carries the error number.
\<close>

unbundle bit_operations_syntax

type_synonym u8 = "8 word"
type_synonym u16 = "16 word"
type_synonym u32 = "32 word"
type_synonym u64 = "64 word"
type_synonym bytes = "u8 list"

section \<open>Error numbers\<close>

text \<open>The values of \<open><errno.h>\<close> on the target's C library (newlib/picolibc numbering).\<close>

abbreviation ENOENT :: int where "ENOENT \<equiv> 2"
abbreviation EIO :: int where "EIO \<equiv> 5"
abbreviation EAGAIN :: int where "EAGAIN \<equiv> 11"
abbreviation ENOMEM :: int where "ENOMEM \<equiv> 12"
abbreviation ENODEV :: int where "ENODEV \<equiv> 19"
abbreviation EINVAL :: int where "EINVAL \<equiv> 22"
abbreviation ENODATA :: int where "ENODATA \<equiv> 61"
abbreviation EBADMSG :: int where "EBADMSG \<equiv> 77"
abbreviation ETIMEDOUT :: int where "ETIMEDOUT \<equiv> 116"
abbreviation ENOTCONN :: int where "ENOTCONN \<equiv> 128"
abbreviation ENOTSUP :: int where "ENOTSUP \<equiv> 134"

section \<open>Little-endian values of byte lists\<close>

primrec le_val :: "bytes \<Rightarrow> nat" where
  "le_val [] = 0"
| "le_val (b # bs) = unat b + 256 * le_val bs"

primrec le_enc :: "nat \<Rightarrow> nat \<Rightarrow> bytes" where
  "le_enc 0 v = []"
| "le_enc (Suc n) v = of_nat v # le_enc n (v div 256)"

text \<open>The memory image of an integer of 2 and 4 bytes on the little-endian target.\<close>

definition le16 :: "u16 \<Rightarrow> bytes" where
  "le16 v = le_enc 2 (unat v)"

definition le32 :: "u32 \<Rightarrow> bytes" where
  "le32 v = le_enc 4 (unat v)"

text \<open>\<open>memcpy (&buf[i], src, length src)\<close> inside the bounds of \<open>buf\<close>.\<close>

definition memcpy_at :: "nat \<Rightarrow> 'a list \<Rightarrow> 'a list \<Rightarrow> 'a list" where
  "memcpy_at i src buf = take i buf @ src @ drop (i + length src) buf"

definition xor_bytes :: "bytes \<Rightarrow> bytes \<Rightarrow> bytes" where
  "xor_bytes xs ys = map2 (XOR) xs ys"

text \<open>
  A carry chain: state \<open>u\<close> travels along a list, each element is replaced.
\<close>

fun chain :: "('s \<Rightarrow> 'a \<Rightarrow> 's) \<Rightarrow> ('s \<Rightarrow> 'a \<Rightarrow> 'b) \<Rightarrow> 's \<Rightarrow> 'a list \<Rightarrow> 's \<times> 'b list" where
  "chain f g u [] = (u, [])"
| "chain f g u (x # xs) = (case chain f g (f u x) xs of (v, ys) \<Rightarrow> (v, g u x # ys))"

named_theorems wire_simps \<open>layout of the byte-level encodings\<close>
named_theorems len_simps \<open>lengths of the byte-level encodings\<close>

section \<open>Facts\<close>

lemma unat_u8_less [simp]: "unat (b :: u8) < 256"
  using unsigned_less [where w = b] by simp

lemma unat_of_nat_u8 [simp]: "unat (of_nat v :: u8) = v mod 256"
  by (simp add: unat_of_nat)

lemma unat_ucast_u8_u32 [simp]: "unat (ucast (b :: u8) :: u32) = unat b"
proof -
  have "unat b < 2 ^ 32" by (rule order.strict_trans [OF unat_u8_less]) simp
  then show ?thesis by (simp add: unsigned_ucast_eq take_bit_nat_eq_self)
qed

lemma unat_add_u32:
  "unat x + unat y < 4294967296 \<Longrightarrow> unat ((x :: u32) + y) = unat x + unat y"
  by (simp add: unat_word_ariths)

lemma word_eq_unatI: "unat x = unat y \<Longrightarrow> x = y"
  by (simp add: word_unat_eq_iff)

lemma of_nat_mod_u8 [simp]: "(of_nat (v mod 256) :: u8) = of_nat v"
  by (rule word_eq_unatI) simp

lemma le_enc_length [simp, len_simps]: "length (le_enc n v) = n"
  by (induction n arbitrary: v) auto

lemma le_enc_numeral:
  "le_enc (numeral n) v = of_nat v # le_enc (pred_numeral n) (v div 256)"
  unfolding numeral_eq_Suc [of n] by (rule le_enc.simps(2))

lemma le16_length [simp, len_simps]: "length (le16 v) = 2"
  by (simp add: le16_def)

lemma le32_length [simp, len_simps]: "length (le32 v) = 4"
  by (simp add: le32_def)

lemma le_val_append: "le_val (xs @ ys) = le_val xs + 256 ^ length xs * le_val ys"
  by (induction xs) (simp_all add: algebra_simps)

lemma le_val_less: "le_val bs < 256 ^ length bs"
proof (induction bs)
  case (Cons b bs)
  have "unat b < 256" by simp
  moreover have "Suc (le_val bs) \<le> 256 ^ length bs" using Cons by simp
  ultimately show ?case
    by (simp only: le_val.simps length_Cons power_Suc)
qed simp

lemma le_val_enc: "le_val (le_enc n v) = v mod 256 ^ n"
proof (induction n arbitrary: v)
  case (Suc n)
  then show ?case by (simp add: mod_mult2_eq)
qed simp

lemma le_enc_val: "le_enc (length bs) (le_val bs) = bs"
proof (induction bs)
  case (Cons b bs)
  have "(unat b + 256 * le_val bs) div 256 = le_val bs"
    using unat_u8_less [of b] by (simp add: div_mult_self2)
  moreover have "(of_nat (unat b + 256 * le_val bs) :: u8) = b"
    by (rule word_eq_unatI) (simp only: unat_of_nat_u8 mod_mult_self2, simp)
  ultimately show ?case using Cons by simp
qed simp

lemma le_enc_val': "length bs = n \<Longrightarrow> le_enc n (le_val bs) = bs"
  using le_enc_val by blast

lemma le_val_inject: "length xs = length ys \<Longrightarrow> le_val xs = le_val ys \<Longrightarrow> xs = ys"
  by (metis le_enc_val)

lemma le_enc_mod [simp]: "le_enc n (v mod 256 ^ n) = le_enc n v"
  by (rule le_val_inject) (simp_all add: le_val_enc)

lemma le_enc_0: "le_enc n 0 = replicate n 0"
  by (induction n) simp_all

lemma le_val_replicate_0 [simp]: "le_val (replicate n 0) = 0"
  by (induction n) auto

lemma le16_get [simp]: "of_nat (le_val (le16 v)) = v"
proof -
  have "unat v < 256 ^ 2" using unsigned_less [where w = v] by simp
  then show ?thesis by (simp add: le16_def le_val_enc)
qed

lemma le32_get [simp]: "of_nat (le_val (le32 v)) = v"
proof -
  have "unat v < 256 ^ 4" using unsigned_less [where w = v] by simp
  then show ?thesis by (simp add: le32_def le_val_enc)
qed

lemma le16_val: "length bs = 2 \<Longrightarrow> le16 (of_nat (le_val bs)) = bs"
proof -
  assume l: "length bs = 2"
  then have "le_val bs < 65536" using le_val_less [of bs] by simp
  then show ?thesis using l by (simp add: le16_def unat_of_nat le_enc_val')
qed

lemma le32_val: "length bs = 4 \<Longrightarrow> le32 (of_nat (le_val bs)) = bs"
proof -
  assume l: "length bs = 4"
  then have "le_val bs < 4294967296" using le_val_less [of bs] by simp
  then show ?thesis using l by (simp add: le32_def unat_of_nat le_enc_val')
qed

lemma le16_inject [simp]: "le16 x = le16 y \<longleftrightarrow> x = y"
  by (metis le16_get)

subsection \<open>Zero tests\<close>

lemma xor_eq_0_iff: "a XOR b = 0 \<longleftrightarrow> a = b" for a b :: "'a::len word"
proof
  assume "a XOR b = 0"
  moreover have "a = (a XOR b) XOR b" by (simp add: xor.assoc)
  ultimately show "a = b" by simp
qed simp

lemma xor_right_cancel: "a XOR c = b XOR c \<longleftrightarrow> a = b" for a b c :: "'a::len word"
proof
  assume "a XOR c = b XOR c"
  then have "(a XOR c) XOR c = (b XOR c) XOR c" by simp
  then show "a = b" by (simp add: xor.assoc)
qed simp

lemma xor_left_cancel: "c XOR a = c XOR b \<longleftrightarrow> a = b" for a b c :: "'a::len word"
  using xor_right_cancel [of a c b] by (simp only: xor.commute)

lemma or_eq_0: "a OR b = 0 \<longleftrightarrow> a = 0 \<and> b = 0" for a b :: "'a::len word"
  by (auto simp: bit_eq_iff bit_simps)

subsection \<open>Index loops\<close>

text \<open>
  A loop that walks an array by index, carries a state and rewrites the current element is the
  chain along the list. Every carry propagation of the sources is of this form.
\<close>

lemma chain_length [simp]: "length (snd (chain f g u xs)) = length xs"
  by (induction f g u xs rule: chain.induct) (auto split: prod.splits)

lemma chain_Cons:
  "fst (chain f g u (x # xs)) = fst (chain f g (f u x) xs)"
  "snd (chain f g u (x # xs)) = g u x # snd (chain f g (f u x) xs)"
  by (simp_all split: prod.splits)

lemma chain_map:
  "chain f g u (map e xs) = chain (\<lambda>u x. f u (e x)) (\<lambda>u x. g u (e x)) u xs"
  by (induction xs arbitrary: u) simp_all

lemma fold_chain_segment:
  "fold (\<lambda>j (u, h). (f u (h ! j), h[j := g u (h ! j)]))
     [length p..<length p + length h] (u, p @ h @ q) =
   (case chain f g u h of (v, ys) \<Rightarrow> (v, p @ ys @ q))"
proof (induction h arbitrary: p u)
  case (Cons x h)
  have "[length p..<length p + length (x # h)] =
      length p # [length (p @ [g u x])..<length (p @ [g u x]) + length h]"
    by (simp add: upt_conv_Cons del: upt_Suc)
  then show ?case
    using Cons [of "p @ [g u x]" "f u x"] by (simp add: nth_append split: prod.splits)
qed simp

lemma fold_chain_prefix:
  "length h = n \<Longrightarrow>
   fold (\<lambda>j (u, h). (f u (h ! j), h[j := g u (h ! j)])) [0..<n] (u, h @ q) =
   (case chain f g u h of (v, ys) \<Rightarrow> (v, ys @ q))"
  using fold_chain_segment [of f g "[]" h u q] by simp

text \<open>The same loop reading a second array of the same length at the same index.\<close>

lemma fold_chain_zip_segment:
  assumes "length d = length p" and "length c = length h"
  shows "fold (\<lambda>j (u, h). (f u (h ! j) ((d @ c) ! j), h[j := g u (h ! j) ((d @ c) ! j)]))
     [length p..<length p + length h] (u, p @ h) =
   (case chain (\<lambda>u (x, y). f u x y) (\<lambda>u (x, y). g u x y) u (zip h c) of (v, ys) \<Rightarrow> (v, p @ ys))"
  using assms
proof (induction h arbitrary: p d c u)
  case (Cons x h)
  then obtain y c' where c: "c = y # c'" by (cases c) auto
  have "[length p..<length p + length (x # h)] =
      length p # [length (p @ [g u x y])..<length (p @ [g u x y]) + length h]"
    by (simp add: upt_conv_Cons del: upt_Suc)
  moreover have "(d @ c) ! length p = y" and "d @ c = (d @ [y]) @ c'"
    using Cons.prems(1) c by (simp_all add: nth_append)
  ultimately show ?case
    using Cons.prems Cons.IH [where p = "p @ [g u x y]" and d = "d @ [y]" and c = c' and u = "f u x y"]
    by (simp add: c split: prod.splits del: upt_Suc append.simps append_assoc) simp
qed simp

lemma fold_chain_zip:
  "length h = n \<Longrightarrow> length c = n \<Longrightarrow>
   fold (\<lambda>j (u, h). (f u (h ! j) (c ! j), h[j := g u (h ! j) (c ! j)])) [0..<n] (u, h) =
   chain (\<lambda>u (x, y). f u x y) (\<lambda>u (x, y). g u x y) u (zip h c)"
  using fold_chain_zip_segment [where p = "[]" and d = "[]" and h = h and c = c and f = f and g = g and u = u]
  by (simp split: prod.splits)

lemma fold_update:
  "n \<le> length c \<Longrightarrow>
   fold (\<lambda>i c. c[i := f i (c ! i)]) [0..<n] c = map (\<lambda>i. f i (c ! i)) [0..<n] @ drop n c"
proof (induction n)
  case (Suc n)
  then have "drop n c = c ! n # drop (Suc n) c" by (simp add: Cons_nth_drop_Suc)
  with Suc show ?case by (simp add: list_update_append nth_append)
qed simp

lemma fold_copy:
  "n \<le> length c \<Longrightarrow> fold (\<lambda>i c. c[i := f i]) [0..<n] c = map f [0..<n] @ drop n c"
  using fold_update [of n c "\<lambda>i _. f i"] by simp

lemma map_nth_take: "n \<le> length xs \<Longrightarrow> map (\<lambda>i. f (xs ! i)) [0..<n] = map f (take n xs)"
  by (rule nth_equalityI) simp_all

subsection \<open>Bitwise conjunction of little-endian values\<close>

lemma and_byte_append:
  assumes "a < 256" "b < 256"
  shows "(a + 256 * x) AND (b + 256 * y) = (a AND b) + 256 * (x AND y :: nat)"
proof -
  have t: "take_bit 8 ((a + 256 * x) AND (b + 256 * y)) = a AND b"
    using assms by (simp only: take_bit_and) (simp add: take_bit_eq_mod)
  have d: "drop_bit 8 ((a + 256 * x) AND (b + 256 * y)) = x AND y"
    using assms by (simp only: drop_bit_and) (simp add: drop_bit_eq_div)
  show ?thesis
    using bits_ident [of 8 "(a + 256 * x) AND (b + 256 * y)"]
    unfolding t d by (simp add: push_bit_eq_mult)
qed

lemma le_val_and:
  "length xs = length ys \<Longrightarrow> le_val (map2 (AND) xs ys) = le_val xs AND le_val ys"
  by (induction xs ys rule: list_induct2) (simp_all add: and_byte_append unsigned_and_eq)

subsection \<open>Closed index lists\<close>

lemma list_update_Cons_numeral [simp]:
  "(x # xs)[numeral n := y] = x # xs[pred_numeral n := y]"
  by (simp add: numeral_eq_Suc)

lemma list_update_Cons_1 [simp]: "(x # xs)[1 := y] = x # xs[0 := y]"
  by simp

lemma upt_4: "[0..<4] = [0, 1, 2, 3::nat]"
  by (simp add: upt_rec)

lemma upt_16: "[0..<16] = [0, 1, 2, 3, 4, 5, 6, 7, 8, 9, 10, 11, 12, 13, 14, 15::nat]"
  by (simp add: upt_rec)

lemma replicate_16: "replicate 16 x = [x, x, x, x, x, x, x, x, x, x, x, x, x, x, x, x]"
  by (simp add: numeral_eq_Suc)

lemma length_16_cases:
  assumes "length xs = 16"
  obtains x0 x1 x2 x3 x4 x5 x6 x7 x8 x9 x10 x11 x12 x13 x14 x15
  where "xs = [x0, x1, x2, x3, x4, x5, x6, x7, x8, x9, x10, x11, x12, x13, x14, x15]"
  using assms by (auto simp: numeral_eq_Suc length_Suc_conv)

subsection \<open>Copying into buffers\<close>

lemma memcpy_at_length [simp, len_simps]:
  "i + length src \<le> length buf \<Longrightarrow> length (memcpy_at i src buf) = length buf"
  by (simp add: memcpy_at_def)

lemma take_memcpy_at:
  "i \<le> length buf \<Longrightarrow> take (i + length src) (memcpy_at i src buf) = take i buf @ src"
  by (simp add: memcpy_at_def)

subsection \<open>Exclusive or on byte lists\<close>

lemma xor_bytes_length [simp, len_simps]:
  "length (xor_bytes xs ys) = min (length xs) (length ys)"
  by (simp add: xor_bytes_def)

lemma xor_bytes_Nil [simp]: "xor_bytes [] ys = []" "xor_bytes xs [] = []"
  by (simp_all add: xor_bytes_def)

lemma xor_bytes_append:
  "length xs = length us \<Longrightarrow>
   xor_bytes (xs @ ys) (us @ vs) = xor_bytes xs us @ xor_bytes ys vs"
  by (simp add: xor_bytes_def)

lemma xor_bytes_nth:
  "i < length xs \<Longrightarrow> i < length ys \<Longrightarrow> xor_bytes xs ys ! i = xs ! i XOR ys ! i"
  by (simp add: xor_bytes_def)

lemma xor_bytes_cancel: "length xs \<le> length ys \<Longrightarrow> xor_bytes (xor_bytes xs ys) ys = xs"
  by (rule nth_equalityI) (simp_all add: xor_bytes_nth xor.assoc)

lemma xor_bytes_0: "length ys = n \<Longrightarrow> xor_bytes (replicate n 0) ys = ys"
  by (rule nth_equalityI) (simp_all add: xor_bytes_nth)

lemma xor_bytes_drop: "drop n (xor_bytes xs ys) = xor_bytes (drop n xs) (drop n ys)"
  by (simp add: xor_bytes_def drop_map drop_zip)

lemma xor_bytes_take: "take n (xor_bytes xs ys) = xor_bytes (take n xs) (take n ys)"
  by (simp add: xor_bytes_def take_map take_zip)

end
