(* ===== verification/Nuki_Scan.thy ===== *)
theory Nuki_Scan
  imports Nuki_Prelude
begin

text \<open>
  The advertising filter of \<open>src/src/nuki_app.c\<close> and the service UUIDs of \<open>src/src/nuki_protocol.c\<close>.

  Zephyr's Bluetooth library is not part of the repository: what the code uses of it as a function is the record
  argument \<open>bt_lib\<close>, with the documented behaviour \<open>bt_lib_ok\<close>. Advertising data are the elements
  (type and value) that \<open>bt_data_parse\<close> finds, which it hands to a callback in order until the callback returns
  false.

  The lemmas replace the callbacks by the set of advertisements that they accept.
\<close>

section \<open>The code\<close>

datatype ad_type =
  BT_DATA_UUID128_ALL | BT_DATA_UUID128_SOME | BT_DATA_SVC_DATA128
| BT_DATA_NAME_COMPLETE | BT_DATA_NAME_SHORTENED | BT_DATA_OTHER u8

type_synonym bt_data = "ad_type \<times> bytes"

record bt_lib =
  bt_uuid_128_encode :: "nat \<Rightarrow> nat \<Rightarrow> nat \<Rightarrow> nat \<Rightarrow> nat \<Rightarrow> bytes"
  bt_uuid_cmp :: "bytes \<Rightarrow> bytes \<Rightarrow> int"
  bt_addr_le_cmp :: "bytes \<Rightarrow> bytes \<Rightarrow> int"
  bt_conn_get_dst :: "nat option \<Rightarrow> bytes"

definition nuki_pairing_service_uuid :: "bt_lib \<Rightarrow> bytes" where
  "nuki_pairing_service_uuid L = bt_uuid_128_encode L 0xa92ee100 0x5501 0x11e4 0x916c 0x0800200c9a66"

definition nuki_pairing_gdio_uuid :: "bt_lib \<Rightarrow> bytes" where
  "nuki_pairing_gdio_uuid L = bt_uuid_128_encode L 0xa92ee101 0x5501 0x11e4 0x916c 0x0800200c9a66"

definition nuki_keyturner_service_uuid :: "bt_lib \<Rightarrow> bytes" where
  "nuki_keyturner_service_uuid L = bt_uuid_128_encode L 0xa92ee200 0x5501 0x11e4 0x916c 0x0800200c9a66"

definition nuki_keyturner_usdio_uuid :: "bt_lib \<Rightarrow> bytes" where
  "nuki_keyturner_usdio_uuid L = bt_uuid_128_encode L 0xa92ee202 0x5501 0x11e4 0x916c 0x0800200c9a66"

text \<open>\<open>bt_data_parse\<close>: the callback sees the elements in order until it returns false.\<close>

fun ad_walk :: "(bt_data \<Rightarrow> 'c \<Rightarrow> bool \<times> 'c) \<Rightarrow> bt_data list \<Rightarrow> 'c \<Rightarrow> 'c" where
  "ad_walk cb [] c = c"
| "ad_walk cb (d # ds) c = (case cb d c of (continue, c') \<Rightarrow> if continue then ad_walk cb ds c' else c')"

definition uuid128_matches :: "bt_lib \<Rightarrow> bytes \<Rightarrow> bytes \<Rightarrow> bool" where
  "uuid128_matches L bs target = (bt_uuid_cmp L (take 16 bs) target = 0)"

text \<open>The loop over a concatenated list of 16-byte UUIDs (the \<open>for\<close> loop of \<open>ad_uuid_cb\<close>).\<close>

function uuid_list_has :: "bt_lib \<Rightarrow> bytes \<Rightarrow> bytes \<Rightarrow> bool" where
  "uuid_list_has L data target =
     (if 16 \<le> length data
      then (if uuid128_matches L data target then True else uuid_list_has L (drop 16 data) target)
      else False)"
  by pat_completeness auto
termination
  by (relation "measure (\<lambda>(L, data, target). length data)") auto

declare uuid_list_has.simps [simp del]

definition ad_uuid_cb :: "bt_lib \<Rightarrow> bytes \<Rightarrow> bt_data \<Rightarrow> bool \<Rightarrow> bool \<times> bool" where
  "ad_uuid_cb L target d found =
     (case fst d of
        BT_DATA_UUID128_ALL \<Rightarrow> if uuid_list_has L (snd d) target then (False, True) else (True, found)
      | BT_DATA_UUID128_SOME \<Rightarrow> if uuid_list_has L (snd d) target then (False, True) else (True, found)
      | BT_DATA_SVC_DATA128 \<Rightarrow>
          if length (snd d) \<ge> 16 \<and> uuid128_matches L (snd d) target then (False, True) else (True, found)
      | _ \<Rightarrow> (True, found))"

definition ad_has_uuid :: "bt_lib \<Rightarrow> bt_data list \<Rightarrow> bytes \<Rightarrow> bool" where
  "ad_has_uuid L ad target = ad_walk (ad_uuid_cb L target) ad False"

text \<open>The characters copied into the 31-byte buffer; the terminating zero is not shown.\<close>

definition ad_name_cb :: "bt_data \<Rightarrow> bytes \<Rightarrow> bool \<times> bytes" where
  "ad_name_cb d name =
     (if fst d = BT_DATA_NAME_COMPLETE \<or> fst d = BT_DATA_NAME_SHORTENED
      then (let len = min (length (snd d)) 30 in (False, take len (snd d)))
      else (True, name))"

definition ad_get_name :: "bt_data list \<Rightarrow> bytes" where
  "ad_get_name ad = ad_walk ad_name_cb ad []"

definition NUKI_NAME_PREFIX :: bytes where
  "NUKI_NAME_PREFIX = map of_char ''Nuki_''"

definition ad_has_nuki_name :: "bt_data list \<Rightarrow> bool" where
  "ad_has_nuki_name ad =
     (take (length NUKI_NAME_PREFIX) (ad_get_name ad @ [0]) = NUKI_NAME_PREFIX)"

section \<open>What the filter accepts\<close>

text \<open>
  Documented behaviour: a 128-bit UUID is encoded in 16 bytes, and the comparisons return zero exactly on equal arguments.
\<close>

definition bt_lib_ok :: "bt_lib \<Rightarrow> bool" where
  "bt_lib_ok L \<longleftrightarrow>
     (\<forall>a b c d e. length (bt_uuid_128_encode L a b c d e) = 16) \<and>
     (\<forall>a b. length a = 16 \<and> length b = 16 \<longrightarrow> (bt_uuid_cmp L a b = 0 \<longleftrightarrow> a = b)) \<and>
     (\<forall>a b. bt_addr_le_cmp L a b = 0 \<longleftrightarrow> a = b)"

lemma uuid128_matches_iff:
  assumes "bt_lib_ok L" "16 \<le> length bs" "length target = 16"
  shows "uuid128_matches L bs target \<longleftrightarrow> take 16 bs = target"
  using assms by (simp add: uuid128_matches_def bt_lib_ok_def)

lemma uuid_list_has_iff:
  assumes "bt_lib_ok L" "length target = 16"
  shows "uuid_list_has L data target \<longleftrightarrow>
         (\<exists>i. 16 * i + 16 \<le> length data \<and> take 16 (drop (16 * i) data) = target)"
  using assms
proof (induction L data target rule: uuid_list_has.induct)
  case (1 L data target)
  show ?case
  proof (cases "16 \<le> length data")
    case False
    then show ?thesis by (subst uuid_list_has.simps) auto
  next
    case True
    have shift: "(\<exists>i. 16 * i + 16 \<le> length data \<and> take 16 (drop (16 * i) data) = target) \<longleftrightarrow>
      take 16 data = target \<or>
      (\<exists>i. 16 * i + 16 \<le> length (drop 16 data) \<and> take 16 (drop (16 * i) (drop 16 data)) = target)"
      (is "(\<exists>i. ?P i) \<longleftrightarrow> ?R \<or> (\<exists>i. ?Q i)")
    proof -
      have "?P 0 \<longleftrightarrow> ?R" using True by simp
      moreover have "?P (Suc i) \<longleftrightarrow> ?Q i" for i using True by (auto simp: add.commute)
      moreover have "(\<exists>i. ?P i) \<longleftrightarrow> ?P 0 \<or> (\<exists>i. ?P (Suc i))" by (metis not0_implies_Suc)
      ultimately show ?thesis by blast
    qed
    show ?thesis
      unfolding shift
      using True 1 uuid128_matches_iff [OF "1.prems"(1) True "1.prems"(2)]
      by (subst uuid_list_has.simps) auto
  qed
qed

text \<open>An element that carries the UUID: in a list of UUIDs, or in front of service data.\<close>

definition carries_uuid :: "bytes \<Rightarrow> bt_data \<Rightarrow> bool" where
  "carries_uuid target d \<longleftrightarrow>
     fst d \<in> {BT_DATA_UUID128_ALL, BT_DATA_UUID128_SOME} \<and>
       (\<exists>i. 16 * i + 16 \<le> length (snd d) \<and> take 16 (drop (16 * i) (snd d)) = target) \<or>
     fst d = BT_DATA_SVC_DATA128 \<and> 16 \<le> length (snd d) \<and> take 16 (snd d) = target"

lemma ad_uuid_cb_spec:
  assumes "bt_lib_ok L" "length target = 16"
  shows "ad_uuid_cb L target d found = (if carries_uuid target d then (False, True) else (True, found))"
  using uuid128_matches_iff [OF assms(1) _ assms(2), of "snd d"]
  by (auto simp: ad_uuid_cb_def carries_uuid_def uuid_list_has_iff [OF assms] split: ad_type.split)

lemma ad_has_uuid_iff:
  assumes "bt_lib_ok L" "length target = 16"
  shows "ad_has_uuid L ad target \<longleftrightarrow> (\<exists>d\<in>set ad. carries_uuid target d)"
proof -
  have "ad_walk (ad_uuid_cb L target) ad found \<longleftrightarrow> found \<or> (\<exists>d\<in>set ad. carries_uuid target d)" for found
    by (induction ad) (auto simp: ad_uuid_cb_spec [OF assms])
  then show ?thesis by (simp add: ad_has_uuid_def)
qed

definition is_name :: "bt_data \<Rightarrow> bool" where
  "is_name d \<longleftrightarrow> fst d \<in> {BT_DATA_NAME_COMPLETE, BT_DATA_NAME_SHORTENED}"

lemma ad_get_name_eq:
  "ad_get_name ad = (case find is_name ad of None \<Rightarrow> [] | Some d \<Rightarrow> take 30 (snd d))"
  unfolding ad_get_name_def by (induction ad) (auto simp: ad_name_cb_def is_name_def Let_def min_def)

lemma ad_has_nuki_name_iff:
  "ad_has_nuki_name ad \<longleftrightarrow>
     (case find is_name ad of None \<Rightarrow> False | Some d \<Rightarrow> take 5 (snd d) = NUKI_NAME_PREFIX)"
proof -
  have l: "length NUKI_NAME_PREFIX = 5" and z: "0 \<notin> set NUKI_NAME_PREFIX"
    by (simp_all add: NUKI_NAME_PREFIX_def)
  have "take 5 (take 30 n @ [0]) = NUKI_NAME_PREFIX \<longleftrightarrow> take 5 n = NUKI_NAME_PREFIX" for n :: bytes
  proof (cases "5 \<le> length n")
    case False
    then have "take 5 (take 30 n @ [0]) = n @ [0]" "take 5 n = n" by simp_all
    then show ?thesis using z l False by (metis in_set_conv_decomp le_refl)
  qed simp
  then show ?thesis
    using l by (auto simp: ad_has_nuki_name_def ad_get_name_eq split: option.split dest: arg_cong [where f = length])
qed

text \<open>An instance, for examples.\<close>

definition demo_lib :: bt_lib where
  "demo_lib =
     \<lparr>bt_uuid_128_encode = (\<lambda>a b c d e. le32 (of_nat a) @ replicate 12 0),
      bt_uuid_cmp = (\<lambda>a b. if a = b then 0 else 1), bt_addr_le_cmp = (\<lambda>a b. if a = b then 0 else 1),
      bt_conn_get_dst = (\<lambda>c. replicate 7 1)\<rparr>"

lemma demo_lib_ok: "bt_lib_ok demo_lib"
  by (simp add: bt_lib_ok_def demo_lib_def)

end
