(* ===== verification/Nuki_Crc16.thy ===== *)
theory Nuki_Crc16
  imports Nuki_Prelude
begin

text \<open>
  \<open>nuki_crc16\<close> of \<open>src/src/nuki_crypto.c\<close> (lines 428 to 444): the bitwise CRC16-CCITT with
  polynomial \<open>0x1021\<close> and initial value \<open>0xFFFF\<close>.

  The facts are about error detection: each shift step, hence each byte step, is a bijection of
  the register, so two messages of the same length that differ in exactly one byte never have the
  same checksum.
\<close>

section \<open>The code\<close>

definition crc16_shift :: "u16 \<Rightarrow> u16" where
  "crc16_shift crc =
     (if crc AND 0x8000 \<noteq> 0 then (push_bit 1 crc) XOR 0x1021 else push_bit 1 crc)"

definition crc16_byte :: "u16 \<Rightarrow> u8 \<Rightarrow> u16" where
  "crc16_byte crc b =
     fold (\<lambda>_ crc. crc16_shift crc) [0..<8] (crc XOR push_bit 8 (ucast b))"

definition nuki_crc16 :: "bytes \<Rightarrow> u16" where
  "nuki_crc16 data = fold (\<lambda>b crc. crc16_byte crc b) data 0xFFFF"

section \<open>Error detection\<close>

lemma crc16_top_bit: "crc AND 0x8000 \<noteq> 0 \<longleftrightarrow> bit (crc :: u16) 15"
  by (simp add: bit_iff_and_push_bit_not_eq_0)

lemma bit_push_1: "bit (push_bit 1 (x :: u16)) n \<longleftrightarrow> 1 \<le> n \<and> n < 16 \<and> bit x (n - 1)"
  by (simp only: bit_push_bit_iff) (auto dest: bit_imp_le_length)

lemma crc16_shift_bit0: "bit (crc16_shift crc) 0 = bit crc 15"
proof (cases "bit crc 15")
  case True
  then have "crc16_shift crc = push_bit 1 crc XOR 0x1021" by (simp only: crc16_shift_def crc16_top_bit if_True)
  then show ?thesis using True bit_push_1 [of crc 0] by (simp only: bit_xor_iff) simp
next
  case False
  then have "crc16_shift crc = push_bit 1 crc" by (simp only: crc16_shift_def crc16_top_bit if_False)
  then show ?thesis using False bit_push_1 [of crc 0] by simp
qed

lemma crc16_shift_inj:
  assumes e: "crc16_shift x = crc16_shift y"
  shows "x = y"
proof (rule bit_word_eqI)
  have top: "bit x 15 = bit y 15" by (metis crc16_shift_bit0 e)
  then have p: "push_bit 1 x = push_bit 1 y"
    using e by (auto simp only: crc16_shift_def crc16_top_bit xor_right_cancel split: if_splits)
  fix n assume n: "n < LENGTH(16)"
  show "bit x n = bit y n"
  proof (cases "n = 15")
    case False
    with n show ?thesis
      using bit_push_1 [of x "Suc n"] bit_push_1 [of y "Suc n"] unfolding p by simp
  qed (simp add: top)
qed

lemma crc16_shifts_inj:
  "fold (\<lambda>_ crc. crc16_shift crc) is x = fold (\<lambda>_ crc. crc16_shift crc) is y \<Longrightarrow> x = y"
  by (induction "is" arbitrary: x y) (auto dest: crc16_shift_inj)

lemma crc16_byte_inj_crc: "crc16_byte x b = crc16_byte y b \<Longrightarrow> x = y"
  unfolding crc16_byte_def
  by (drule crc16_shifts_inj) (simp only: xor_right_cancel)

lemma crc16_byte_inj_byte: "crc16_byte x a = crc16_byte x b \<Longrightarrow> a = b"
proof -
  assume "crc16_byte x a = crc16_byte x b"
  then have "x XOR push_bit 8 (ucast a) = x XOR push_bit 8 (ucast b)"
    unfolding crc16_byte_def by (rule crc16_shifts_inj)
  then have "push_bit 8 (ucast a) = (push_bit 8 (ucast b) :: u16)"
    by (simp only: xor_left_cancel)
  then have h: "bit (push_bit 8 (ucast a) :: u16) (n + 8) =
      bit (push_bit 8 (ucast b) :: u16) (n + 8)" for n
    by simp
  show "a = b"
  proof (rule bit_word_eqI)
    fix n assume "n < LENGTH(8)"
    with h [of n] show "bit a n = bit b n" by (simp add: bit_simps)
  qed
qed

lemma crc16_rest_inj:
  "fold (\<lambda>b crc. crc16_byte crc b) bs x = fold (\<lambda>b crc. crc16_byte crc b) bs y \<Longrightarrow> x = y"
  by (induction bs arbitrary: x y) (auto dest: crc16_byte_inj_crc)

lemma crc16_single_byte:
  assumes "nuki_crc16 (pre @ a # post) = nuki_crc16 (pre @ b # post)"
  shows "a = b"
  using assms by (auto simp: nuki_crc16_def dest!: crc16_rest_inj crc16_byte_inj_byte)

text \<open>The register is linear, so two adjacent bytes act as one sixteen-bit word.\<close>

lemma crc16_shift_xor: "crc16_shift (x XOR y) = crc16_shift x XOR crc16_shift y"
proof -
  have t: "bit (x XOR y) 15 = (bit x 15 \<noteq> bit y 15)" by (simp only: bit_xor_iff) 
  have p: "push_bit 1 (x XOR y) = push_bit 1 x XOR push_bit 1 y" by (simp only: push_bit_xor)
  have c: "(p XOR k) XOR (q XOR k) = p XOR q" "(p XOR k) XOR q = (p XOR q) XOR k"
    "p XOR (q XOR k) = (p XOR q) XOR k" "(p XOR k) XOR k = p" for p q k :: u16
    by (simp_all add: xor.assoc xor.left_commute xor.commute)
  show ?thesis
    unfolding crc16_shift_def crc16_top_bit t p
    by (cases "bit x 15"; cases "bit y 15") (simp_all only: c if_True if_False simp_thms)
qed

lemma crc16_shifts_xor:
  "fold (\<lambda>_ crc. crc16_shift crc) is (x XOR y) =
   fold (\<lambda>_ crc. crc16_shift crc) is x XOR fold (\<lambda>_ crc. crc16_shift crc) is y"
  by (induction "is" arbitrary: x y) (simp_all only: fold.simps o_apply id_apply crc16_shift_xor)

lemma crc16_shift_low: "\<not> bit x 15 \<Longrightarrow> crc16_shift x = push_bit 1 x"
  by (simp only: crc16_shift_def crc16_top_bit if_False)

lemma crc16_shifts_byte: "n \<le> 8 \<Longrightarrow> fold (\<lambda>_ crc. crc16_shift crc) [0..<n] (ucast (b :: u8)) = push_bit n (ucast b)"
proof (induction n)
  case (Suc n)
  have "\<not> bit (push_bit n (ucast b :: u16)) 15"
    using Suc.prems by (auto simp only: bit_push_bit_iff bit_ucast_iff dest: bit_imp_le_length) (auto dest: bit_imp_le_length)
  then have "crc16_shift (push_bit n (ucast b)) = push_bit (Suc n) (ucast b)"
    by (subst crc16_shift_low) (simp_all only: push_bit_push_bit plus_1_eq_Suc not_False_eq_True)
  with Suc show ?case by simp
qed simp

lemma crc16_two_bytes:
  "crc16_byte (crc16_byte c a) b = fold (\<lambda>_ crc. crc16_shift crc) ([0..<8] @ [0..<8]) (c XOR (push_bit 8 (ucast a) XOR ucast b))"
proof -
  have "push_bit 8 (ucast b :: u16) = fold (\<lambda>_ crc. crc16_shift crc) [0..<8] (ucast b)"
    using crc16_shifts_byte [of 8 b] by simp
  then show ?thesis unfolding crc16_byte_def
    by (simp only: fold_append o_apply crc16_shifts_xor [symmetric] xor.assoc)
qed

lemma two_bytes_inject:
  assumes "push_bit 8 (ucast a) XOR ucast b = (push_bit 8 (ucast a') XOR ucast b' :: u16)"
  shows "a = (a' :: u8) \<and> b = (b' :: u8)"
proof (intro conjI bit_word_eqI)
  have e: "bit (push_bit 8 (ucast a) XOR ucast b :: u16) n = bit (push_bit 8 (ucast a') XOR ucast b' :: u16) n" for n
    by (simp only: assms)
  fix n assume n: "n < LENGTH(8)"
  show "bit a n = bit a' n" using e [of "n + 8"] n by (auto simp: bit_simps dest: bit_imp_le_length)
  show "bit b n = bit b' n" using e [of n] n by (auto simp: bit_simps)
qed

lemma crc16_adjacent_bytes:
  assumes "nuki_crc16 (pre @ a # b # post) = nuki_crc16 (pre @ a' # b' # post)"
  shows "a = a' \<and> b = b'"
proof -
  have "crc16_byte (crc16_byte c a) b = crc16_byte (crc16_byte c a') b' \<Longrightarrow> a = a' \<and> b = b'" for c
    unfolding crc16_two_bytes
    by (drule crc16_shifts_inj) (simp only: xor_left_cancel two_bytes_inject)
  with assms show ?thesis by (auto simp: nuki_crc16_def dest!: crc16_rest_inj)
qed

section \<open>Properties\<close>

text \<open>
  C39: an error burst confined to two adjacent bytes is always detected: two messages that agree
  outside two adjacent bytes have the same checksum only if they are equal.
\<close>

theorem crc16_detects_bursts:
  "nuki_crc16 (pre @ a # b # post) = nuki_crc16 (pre @ a' # b' # post) \<longleftrightarrow> a = a' \<and> b = b'"
  using crc16_adjacent_bytes by auto

end
