(* ===== verification/Nuki_Protocol.thy ===== *)
theory Nuki_Protocol
  imports Nuki_Crc16
begin

text \<open>
  \<open>src/src/nuki_protocol.c\<close> and \<open>nuki_protocol.h\<close>: command identifiers, the plain (pairing) and
  authorized (command) frames with their checksum, and the decoding of the Keyturner state.

  Zephyr's byte-order helpers (\<open>zephyr/sys/byteorder.h\<close>) are not part of the repository: they are
  the record argument \<open>byteorder\<close>, and \<open>byteorder_ok\<close> is their documented behaviour
  (little-endian stores and loads). \<open>le_byteorder\<close> is an instance of that behaviour.

  Both frame formats implement the interface \<open>frame_codec\<close>: building fits the buffer exactly
  when the length allows, parsing inverts building and accepts only built frames, short input is
  \<open>-EINVAL\<close>, and any change of a single byte is rejected with \<open>-EBADMSG\<close>.
\<close>

section \<open>Constants\<close>

abbreviation NUKI_CMD_REQUEST_DATA :: u16 where "NUKI_CMD_REQUEST_DATA \<equiv> 0x0001"
abbreviation NUKI_CMD_PUBLIC_KEY :: u16 where "NUKI_CMD_PUBLIC_KEY \<equiv> 0x0003"
abbreviation NUKI_CMD_CHALLENGE :: u16 where "NUKI_CMD_CHALLENGE \<equiv> 0x0004"
abbreviation NUKI_CMD_AUTH_AUTHENTICATOR :: u16 where "NUKI_CMD_AUTH_AUTHENTICATOR \<equiv> 0x0005"
abbreviation NUKI_CMD_AUTH_DATA :: u16 where "NUKI_CMD_AUTH_DATA \<equiv> 0x0006"
abbreviation NUKI_CMD_AUTH_ID :: u16 where "NUKI_CMD_AUTH_ID \<equiv> 0x0007"
abbreviation NUKI_CMD_KEYTURNER_STATES :: u16 where "NUKI_CMD_KEYTURNER_STATES \<equiv> 0x000C"
abbreviation NUKI_CMD_LOCK_ACTION :: u16 where "NUKI_CMD_LOCK_ACTION \<equiv> 0x000D"
abbreviation NUKI_CMD_STATUS :: u16 where "NUKI_CMD_STATUS \<equiv> 0x000E"
abbreviation NUKI_CMD_ERROR_REPORT :: u16 where "NUKI_CMD_ERROR_REPORT \<equiv> 0x0012"
abbreviation NUKI_CMD_REQUEST_CALIBRATION :: u16 where "NUKI_CMD_REQUEST_CALIBRATION \<equiv> 0x001A"
abbreviation NUKI_CMD_AUTH_ID_CONFIRMATION :: u16 where "NUKI_CMD_AUTH_ID_CONFIRMATION \<equiv> 0x001E"

abbreviation NUKI_STATUS_COMPLETE :: u8 where "NUKI_STATUS_COMPLETE \<equiv> 0x00"
abbreviation NUKI_STATUS_ACCEPTED :: u8 where "NUKI_STATUS_ACCEPTED \<equiv> 0x01"

abbreviation NUKI_LOCK_ACTION_UNLOCK :: u8 where "NUKI_LOCK_ACTION_UNLOCK \<equiv> 0x01"
abbreviation NUKI_LOCK_ACTION_LOCK :: u8 where "NUKI_LOCK_ACTION_LOCK \<equiv> 0x02"
abbreviation NUKI_LOCK_ACTION_UNLATCH :: u8 where "NUKI_LOCK_ACTION_UNLATCH \<equiv> 0x03"

abbreviation NUKI_ID_TYPE_APP :: u8 where "NUKI_ID_TYPE_APP \<equiv> 0"
abbreviation NUKI_NAME_LEN :: nat where "NUKI_NAME_LEN \<equiv> 32"
abbreviation NUKI_FRAME_MAX_LEN :: nat where "NUKI_FRAME_MAX_LEN \<equiv> 160"
abbreviation NUKI_WIRE_MAX_LEN :: nat where "NUKI_WIRE_MAX_LEN \<equiv> 256"

section \<open>Byte order\<close>

record byteorder =
  sys_put_le16 :: "u16 \<Rightarrow> bytes"
  sys_put_le32 :: "u32 \<Rightarrow> bytes"
  sys_get_le16 :: "bytes \<Rightarrow> u16"
  sys_get_le32 :: "bytes \<Rightarrow> u32"

definition byteorder_ok :: "byteorder \<Rightarrow> bool" where
  "byteorder_ok B \<longleftrightarrow>
     (\<forall>v. sys_put_le16 B v = le16 v) \<and>
     (\<forall>v. sys_put_le32 B v = le32 v) \<and>
     (\<forall>bs. 2 \<le> length bs \<longrightarrow> sys_get_le16 B bs = of_nat (le_val (take 2 bs))) \<and>
     (\<forall>bs. 4 \<le> length bs \<longrightarrow> sys_get_le32 B bs = of_nat (le_val (take 4 bs)))"

definition le_byteorder :: byteorder where
  "le_byteorder =
     \<lparr>sys_put_le16 = le16, sys_put_le32 = le32,
      sys_get_le16 = (\<lambda>bs. of_nat (le_val (take 2 bs))),
      sys_get_le32 = (\<lambda>bs. of_nat (le_val (take 4 bs)))\<rparr>"

section \<open>Frames\<close>

text \<open>
  The result of a build function: \<open>None\<close> is the return value 0, \<open>Some f\<close> stands for the
  bytes written to \<open>out\<close>, the return value being their number.
\<close>

definition nuki_frame_build_plain ::
    "byteorder \<Rightarrow> nat \<Rightarrow> u16 \<Rightarrow> bytes \<Rightarrow> bytes option" where
  "nuki_frame_build_plain B out_size command_id payload =
     (let total = 2 + length payload + 2
      in if total > out_size then None
         else
           let out = sys_put_le16 B command_id @ payload;
               crc = nuki_crc16 (take (2 + length payload) out)
           in Some (out @ sys_put_le16 B crc))"

definition nuki_frame_parse_plain :: "byteorder \<Rightarrow> bytes \<Rightarrow> int + (u16 \<times> bytes)" where
  "nuki_frame_parse_plain B frame =
     (if length frame < 4 then Inl (- EINVAL)
      else
        let body_len = length frame - 2;
            expected_crc = nuki_crc16 (take body_len frame);
            got_crc = sys_get_le16 B (drop body_len frame)
        in if expected_crc \<noteq> got_crc then Inl (- EBADMSG)
           else Inr (sys_get_le16 B frame, take (body_len - 2) (drop 2 frame)))"

definition nuki_frame_build_auth ::
    "byteorder \<Rightarrow> nat \<Rightarrow> u32 \<Rightarrow> u16 \<Rightarrow> bytes \<Rightarrow> bytes option" where
  "nuki_frame_build_auth B out_size auth_id command_id payload =
     (let total = 4 + 2 + length payload + 2
      in if total > out_size then None
         else
           let out = sys_put_le32 B auth_id @ sys_put_le16 B command_id @ payload;
               crc = nuki_crc16 (take (6 + length payload) out)
           in Some (out @ sys_put_le16 B crc))"

definition nuki_frame_parse_auth :: "byteorder \<Rightarrow> bytes \<Rightarrow> int + (u32 \<times> u16 \<times> bytes)" where
  "nuki_frame_parse_auth B frame =
     (if length frame < 8 then Inl (- EINVAL)
      else
        let body_len = length frame - 2;
            expected_crc = nuki_crc16 (take body_len frame);
            got_crc = sys_get_le16 B (drop body_len frame)
        in if expected_crc \<noteq> got_crc then Inl (- EBADMSG)
           else Inr (sys_get_le32 B frame, sys_get_le16 B (drop 4 frame),
                     take (body_len - 6) (drop 6 frame)))"

section \<open>Keyturner state\<close>

text \<open>\<open>timezone_offset_min\<close> is the \<open>int16_t\<close> field as its 16-bit pattern (\<open>sint\<close> reads it).\<close>

record nuki_keyturner_state =
  nuki_state :: u8
  lock_state :: u8
  trigger :: u8
  year :: u16
  month :: u8
  day :: u8
  hour :: u8
  minute :: u8
  second :: u8
  timezone_offset_min :: u16
  critical_battery :: bool
  battery_percent :: u8
  door_sensor_state :: u8

definition nuki_keyturner_state_parse :: "byteorder \<Rightarrow> bytes \<Rightarrow> int + nuki_keyturner_state" where
  "nuki_keyturner_state_parse B payload =
     (if length payload < 13 then Inl (- EINVAL)
      else
        let state =
          \<lparr>nuki_state = payload ! 0, lock_state = payload ! 1, trigger = payload ! 2,
           year = sys_get_le16 B (drop 3 payload),
           month = payload ! 5, day = payload ! 6, hour = payload ! 7, minute = payload ! 8,
           second = payload ! 9,
           timezone_offset_min = sys_get_le16 B (drop 10 payload),
           critical_battery = (payload ! 12 AND 0x01 \<noteq> 0),
           battery_percent = drop_bit 2 (payload ! 12) * 2,
           door_sensor_state = 0xFF\<rparr>
        in Inr (if length payload \<ge> 19 then state\<lparr>door_sensor_state := payload ! 18\<rparr> else state))"

definition nuki_lock_state_to_str :: "u8 \<Rightarrow> string" where
  "nuki_lock_state_to_str s =
     (if s = 0x00 then ''uncalibrated''
      else if s = 0x01 then ''locked''
      else if s = 0x02 then ''unlocking''
      else if s = 0x03 then ''unlocked''
      else if s = 0x04 then ''locking''
      else if s = 0x05 then ''unlatched''
      else if s = 0x06 then ''unlocked (lock'' @ [CHR 0x27] @ ''n'' @ [CHR 0x27] @ ''go active)''
      else if s = 0x07 then ''unlatching''
      else if s = 0xFC then ''calibration''
      else if s = 0xFD then ''boot run''
      else if s = 0xFE then ''motor blocked''
      else ''undefined'')"

definition nuki_door_sensor_state_to_str :: "u8 \<Rightarrow> string" where
  "nuki_door_sensor_state_to_str s =
     (if s = 0x00 then ''unavailable''
      else if s = 0x01 then ''deactivated''
      else if s = 0x02 then ''door closed''
      else if s = 0x03 then ''door opened''
      else if s = 0x04 then ''door state unknown''
      else if s = 0x05 then ''calibrating''
      else if s = 0x10 then ''uncalibrated''
      else if s = 0xF0 then ''tampered''
      else ''unknown'')"

section \<open>The interface of a checksummed frame format\<close>

locale frame_codec =
  fixes build :: "nat \<Rightarrow> 'h \<Rightarrow> bytes \<Rightarrow> bytes option"
    and parse :: "bytes \<Rightarrow> int + ('h \<times> bytes)"
    and overhead :: nat
  assumes build_fits: "build n h p \<noteq> None \<longleftrightarrow> overhead + length p \<le> n"
    and build_length: "build n h p = Some f \<Longrightarrow> length f = overhead + length p"
    and parse_build: "build n h p = Some f \<Longrightarrow> parse f = Inr (h, p)"
    and build_parse: "parse f = Inr (h, p) \<Longrightarrow> length f \<le> n \<Longrightarrow> build n h p = Some f"
    and parse_error: "parse f = Inl e \<Longrightarrow> e = (if length f < overhead then - EINVAL else - EBADMSG)"
    and parse_short: "length f < overhead \<Longrightarrow> parse f = Inl (- EINVAL)"
    and parse_one_byte:
      "parse (pre @ a # post) = Inr x \<Longrightarrow> b \<noteq> a \<Longrightarrow> parse (pre @ b # post) = Inl (- EBADMSG)"
begin

lemma parse_iff_build:
  "length f \<le> n \<Longrightarrow> parse f = Inr (h, p) \<longleftrightarrow> build n h p = Some f"
  using build_parse parse_build by blast

lemma build_inject:
  "build n h p = Some f \<Longrightarrow> build n' h' p' = Some f \<Longrightarrow> h = h' \<and> p = p'"
  using parse_build [of n h p f] parse_build [of n' h' p' f] by simp

lemma payload_length: "parse f = Inr (h, p) \<Longrightarrow> length f = overhead + length p"
  using build_length build_parse by blast

lemma corrupted_rejected:
  assumes "build n h p = Some f" and "i < length f" and "b \<noteq> f ! i"
  shows "parse (f[i := b]) = Inl (- EBADMSG)"
proof -
  have f: "f = take i f @ f ! i # drop (Suc i) f" using assms(2) by (rule id_take_nth_drop)
  have "parse (take i f @ f ! i # drop (Suc i) f) = Inr (h, p)"
    using parse_build [OF assms(1)] f by simp
  then have "parse (take i f @ b # drop (Suc i) f) = Inl (- EBADMSG)"
    using assms(3) by (rule parse_one_byte)
  then show ?thesis using assms(2) by (simp add: upd_conv_take_nth_drop)
qed

end

section \<open>Both formats implement it\<close>

definition crc_valid :: "bytes \<Rightarrow> bool" where
  "crc_valid f \<longleftrightarrow>
     nuki_crc16 (take (length f - 2) f) = of_nat (le_val (take 2 (drop (length f - 2) f)))"

lemma crc_valid_iff:
  "2 \<le> length f \<Longrightarrow>
   crc_valid f \<longleftrightarrow> f = take (length f - 2) f @ le16 (nuki_crc16 (take (length f - 2) f))"
proof -
  assume l: "2 \<le> length f"
  let ?b = "take (length f - 2) f" and ?c = "drop (length f - 2) f"
  have c: "length ?c = 2" using l by simp
  have "f = ?b @ ?c" by simp
  then have "f = ?b @ le16 (nuki_crc16 ?b) \<longleftrightarrow> ?c = le16 (nuki_crc16 ?b)"
    by (metis same_append_eq)
  then show ?thesis using le16_val [OF c] c by (auto simp: crc_valid_def)
qed

lemma crc_valid_frame [simp]: "crc_valid (b @ le16 (nuki_crc16 b))"
  by (subst crc_valid_iff) simp_all

lemma crc_valid_one_byte:
  assumes "crc_valid (pre @ a # post)" "crc_valid (pre @ b # post)" "2 \<le> length (pre @ a # post)"
  shows "a = b"
proof -
  let ?f = "\<lambda>x. pre @ x # post" and ?n = "length pre + length post - 1"
  have n: "length (?f x) - 2 = ?n" for x by simp
  have f: "?f x = take ?n (?f x) @ le16 (nuki_crc16 (take ?n (?f x)))" if "crc_valid (?f x)" for x
    using that assms(3) by (subst (asm) crc_valid_iff) (simp, simp only: n)
  show ?thesis
  proof (cases "length pre < ?n")
    case True
    then have t: "take ?n (?f x) = pre @ x # take (?n - Suc (length pre)) post"
      and d: "drop ?n (?f x) = drop (?n - Suc (length pre)) post" for x
      by (simp_all add: take_Cons' drop_Cons' split: nat_diff_split)
    have "le16 (nuki_crc16 (take ?n (?f x))) = drop (?n - Suc (length pre)) post" if "crc_valid (?f x)" for x
      using f [OF that] d [of x] by (metis append_take_drop_id same_append_eq)
    then have "nuki_crc16 (pre @ a # take (?n - Suc (length pre)) post) =
        nuki_crc16 (pre @ b # take (?n - Suc (length pre)) post)"
      using assms(1,2) t by (metis le16_inject)
    then show ?thesis by (rule crc16_single_byte)
  next
    case False
    then have "take ?n (?f x) = take ?n pre" for x by simp
    then have "?f a = ?f b" using f assms(1,2) by metis
    then show ?thesis by simp
  qed
qed

text \<open>With the documented byte order, the frame functions in closed form.\<close>

lemma build_plain_eq:
  "byteorder_ok B \<Longrightarrow> nuki_frame_build_plain B n cmd p =
     (if 4 + length p \<le> n then Some ((le16 cmd @ p) @ le16 (nuki_crc16 (le16 cmd @ p))) else None)"
  by (simp add: nuki_frame_build_plain_def byteorder_ok_def Let_def)

lemma build_auth_eq:
  "byteorder_ok B \<Longrightarrow> nuki_frame_build_auth B n aid cmd p =
     (if 8 + length p \<le> n
      then Some ((le32 aid @ le16 cmd @ p) @ le16 (nuki_crc16 (le32 aid @ le16 cmd @ p))) else None)"
  by (simp add: nuki_frame_build_auth_def byteorder_ok_def Let_def)

lemma parse_plain_eq:
  "byteorder_ok B \<Longrightarrow> nuki_frame_parse_plain B f =
     (if length f < 4 then Inl (- EINVAL) else if \<not> crc_valid f then Inl (- EBADMSG)
      else Inr (of_nat (le_val (take 2 f)), take (length f - 4) (drop 2 f)))"
  by (simp add: nuki_frame_parse_plain_def byteorder_ok_def Let_def crc_valid_def)

lemma parse_auth_eq:
  "byteorder_ok B \<Longrightarrow> nuki_frame_parse_auth B f =
     (if length f < 8 then Inl (- EINVAL) else if \<not> crc_valid f then Inl (- EBADMSG)
      else Inr (of_nat (le_val (take 4 f)), of_nat (le_val (take 2 (drop 4 f))),
                take (length f - 8) (drop 6 f)))"
  by (simp add: nuki_frame_parse_auth_def byteorder_ok_def Let_def crc_valid_def)

lemma le_byteorder_ok [simp]: "byteorder_ok le_byteorder"
  by (simp add: byteorder_ok_def le_byteorder_def)

text \<open>Every instance of the documented byte order gives the same frame functions.\<close>

lemma frame_functions_le:
  assumes "byteorder_ok B"
  shows "nuki_frame_build_plain B = nuki_frame_build_plain le_byteorder"
    "nuki_frame_parse_plain B = nuki_frame_parse_plain le_byteorder"
    "nuki_frame_build_auth B = nuki_frame_build_auth le_byteorder"
    "nuki_frame_parse_auth B = nuki_frame_parse_auth le_byteorder"
  using assms
  by (simp_all add: fun_eq_iff build_plain_eq build_auth_eq parse_plain_eq parse_auth_eq)

interpretation plain: frame_codec "nuki_frame_build_plain le_byteorder"
  "nuki_frame_parse_plain le_byteorder" 4
proof
  fix n h p f e pre a post x b
  show "nuki_frame_build_plain le_byteorder n h p \<noteq> None \<longleftrightarrow> 4 + length p \<le> n"
    by (simp add: build_plain_eq)
  show "length f = 4 + length p" if "nuki_frame_build_plain le_byteorder n h p = Some f"
    using that by (auto simp: build_plain_eq split: if_splits)
  show "nuki_frame_parse_plain le_byteorder f = Inr (h, p)"
    if "nuki_frame_build_plain le_byteorder n h p = Some f"
  proof -
    have f: "f = (le16 h @ p) @ le16 (nuki_crc16 (le16 h @ p))"
      using that by (auto simp: build_plain_eq split: if_splits)
    then have "crc_valid f" by (simp only: crc_valid_frame)
    then show ?thesis by (simp add: parse_plain_eq f)
  qed
  show "nuki_frame_build_plain le_byteorder n h p = Some f"
    if "nuki_frame_parse_plain le_byteorder f = Inr (h, p)" "length f \<le> n"
  proof -
    have l: "4 \<le> length f" "crc_valid f"
      and h: "h = of_nat (le_val (take 2 f))" and p: "p = take (length f - 4) (drop 2 f)"
      using that(1) by (auto simp: parse_plain_eq split: if_splits)
    have e: "length f - 2 = 2 + (length f - 4)" using l(1) by simp
    have "le16 h @ p = take (length f - 2) f"
      unfolding e take_add using l(1) by (simp add: h p le16_val)
    then show ?thesis
      using that(2) l crc_valid_iff [of f] p by (simp add: build_plain_eq)
  qed
  show "e = (if length f < 4 then - EINVAL else - EBADMSG)"
    if "nuki_frame_parse_plain le_byteorder f = Inl e"
    using that by (auto simp: parse_plain_eq split: if_splits)
  show "nuki_frame_parse_plain le_byteorder f = Inl (- EINVAL)" if "length f < 4"
    using that by (simp add: parse_plain_eq)
  show "nuki_frame_parse_plain le_byteorder (pre @ b # post) = Inl (- EBADMSG)"
    if "nuki_frame_parse_plain le_byteorder (pre @ a # post) = Inr x" "b \<noteq> a"
    using that crc_valid_one_byte [of pre a post b]
    by (auto simp: parse_plain_eq split: if_splits)
qed

interpretation auth: frame_codec "\<lambda>n (aid, cmd). nuki_frame_build_auth le_byteorder n aid cmd"
  "\<lambda>f. map_sum id (\<lambda>(aid, cmd, p). ((aid, cmd), p)) (nuki_frame_parse_auth le_byteorder f)" 8
proof
  fix n p f e pre a post b and h :: "u32 \<times> u16" and x
  obtain aid cmd where h: "h = (aid, cmd)" by fastforce
  let ?build = "\<lambda>n (aid, cmd). nuki_frame_build_auth le_byteorder n aid cmd"
  let ?parse = "\<lambda>f. map_sum id (\<lambda>(aid, cmd, p). ((aid, cmd), p)) (nuki_frame_parse_auth le_byteorder f)"
  show "?build n h p \<noteq> None \<longleftrightarrow> 8 + length p \<le> n"
    by (simp add: h build_auth_eq)
  show "length f = 8 + length p" if "?build n h p = Some f"
    using that by (auto simp: h build_auth_eq split: if_splits)
  show "?parse f = Inr (h, p)" if "?build n h p = Some f"
  proof -
    have f: "f = (le32 aid @ le16 cmd @ p) @ le16 (nuki_crc16 (le32 aid @ le16 cmd @ p))"
      using that by (auto simp: h build_auth_eq split: if_splits)
    then have "crc_valid f" by (simp only: crc_valid_frame)
    then show ?thesis by (simp add: parse_auth_eq f h)
  qed
  show "?build n h p = Some f" if "?parse f = Inr (h, p)" "length f \<le> n"
  proof -
    have l: "8 \<le> length f" "crc_valid f" and aid: "aid = of_nat (le_val (take 4 f))"
      and cmd: "cmd = of_nat (le_val (take 2 (drop 4 f)))" and p: "p = take (length f - 8) (drop 6 f)"
      using that(1) by (auto simp: h parse_auth_eq split: if_splits)
    have e: "length f - 2 = 4 + (2 + (length f - 8))" using l(1) by simp
    have "le32 aid @ le16 cmd @ p = take (length f - 2) f"
      unfolding e take_add using l(1) by (simp add: aid cmd p le16_val le32_val)
    then show ?thesis
      using that(2) l crc_valid_iff [of f] p by (simp add: h build_auth_eq)
  qed
  show "e = (if length f < 8 then - EINVAL else - EBADMSG)" if "?parse f = Inl e"
    using that by (auto simp: parse_auth_eq split: if_splits)
  show "?parse f = Inl (- EINVAL)" if "length f < 8"
    using that by (simp add: parse_auth_eq)
  show "?parse (pre @ b # post) = Inl (- EBADMSG)" if "?parse (pre @ a # post) = Inr x" "b \<noteq> a"
    using that crc_valid_one_byte [of pre a post b]
    by (auto simp: parse_auth_eq split: if_splits)
qed

lemma frame_bytes:
  "byteorder_ok B \<Longrightarrow> sys_put_le16 B = le16" "byteorder_ok B \<Longrightarrow> sys_put_le32 B = le32"
  by (auto simp: byteorder_ok_def)

lemma auth_parse_Inr:
  "map_sum id (\<lambda>(aid, cmd, p). ((aid, cmd), p)) r = Inr ((aid, cmd), p) \<longleftrightarrow> r = Inr (aid, cmd, p)"
  by (cases r) auto

lemma auth_parse_Inl:
  "map_sum id (\<lambda>(aid, cmd, p). ((aid, cmd), p)) r = Inl e \<longleftrightarrow> r = Inl e"
  by (cases r) auto

section \<open>Properties\<close>

text \<open>
  C34: both frame formats round-trip: a build succeeds exactly when the frame fits the buffer (the
  return value 0 otherwise), the frame has the payload length plus the fixed overhead, and parsing
  it returns the identifiers and the payload that were put in.
\<close>

theorem frames_roundtrip:
  assumes "byteorder_ok B"
  shows "(case nuki_frame_build_plain B n cmd p of
            None \<Rightarrow> n < 4 + length p
          | Some f \<Rightarrow> length f = 4 + length p \<and> length f \<le> n \<and> nuki_frame_parse_plain B f = Inr (cmd, p)) \<and>
         (case nuki_frame_build_auth B n aid cmd p of
            None \<Rightarrow> n < 8 + length p
          | Some f \<Rightarrow> length f = 8 + length p \<and> length f \<le> n \<and> nuki_frame_parse_auth B f = Inr (aid, cmd, p))"
  unfolding frame_functions_le [OF assms]
  using plain.parse_build [of n cmd p] auth.parse_build [of n "(aid, cmd)" p]
  by (auto simp: build_plain_eq build_auth_eq auth_parse_Inr split: option.splits if_splits)

theorem frames_roundtrip_witness:
  "nuki_frame_build_plain le_byteorder 5 3 [7, 8] = None \<and>
   (\<exists>f. nuki_frame_build_auth le_byteorder 160 1 2 [7, 8] = Some f \<and>
        nuki_frame_parse_auth le_byteorder f = Inr (1, 2, [7, 8]))"
  using frames_roundtrip [OF le_byteorder_ok, where n = 5 and cmd = 3 and p = "[7, 8]" and aid = 1]
    frames_roundtrip [OF le_byteorder_ok, where n = 160 and cmd = 2 and p = "[7, 8]" and aid = 1]
  by (auto split: option.splits)

text \<open>
  C35: the parsers accept nothing but frames that the builders produce, and report \<open>-EINVAL\<close>
  exactly for input shorter than the overhead; all other input is \<open>-EBADMSG\<close>.
\<close>

theorem frames_accept_only_built:
  assumes "byteorder_ok B"
  shows "(nuki_frame_parse_plain B f = Inr (cmd, p) \<longleftrightarrow> nuki_frame_build_plain B (length f) cmd p = Some f) \<and>
         (nuki_frame_parse_auth B f = Inr (aid, cmd, p) \<longleftrightarrow> nuki_frame_build_auth B (length f) aid cmd p = Some f) \<and>
         (case nuki_frame_parse_plain B f of Inr _ \<Rightarrow> 4 \<le> length f
          | Inl e \<Rightarrow> e = (if length f < 4 then - EINVAL else - EBADMSG)) \<and>
         (case nuki_frame_parse_auth B f of Inr _ \<Rightarrow> 8 \<le> length f
          | Inl e \<Rightarrow> e = (if length f < 8 then - EINVAL else - EBADMSG))"
  unfolding frame_functions_le [OF assms]
  using plain.parse_iff_build [of f "length f" cmd p] auth.parse_iff_build [of f "length f" "(aid, cmd)" p]
  by (auto simp: auth_parse_Inr parse_plain_eq parse_auth_eq split: sum.splits if_splits)

theorem frames_accept_only_built_witness:
  "nuki_frame_parse_plain le_byteorder [1, 2, 3] = Inl (- EINVAL)"
  using frames_accept_only_built [OF le_byteorder_ok, of "[1, 2, 3]" 0 "[]"]
  by (auto simp: parse_plain_eq)

text \<open>
  C36: a frame with any one byte changed, header, payload or checksum, is rejected with
  \<open>-EBADMSG\<close>, in both formats.
\<close>

theorem frames_reject_corruption:
  assumes "byteorder_ok B" and "b \<noteq> f ! i" and "i < length f"
  shows "(nuki_frame_build_plain B n cmd p = Some f \<longrightarrow> nuki_frame_parse_plain B (f[i := b]) = Inl (- EBADMSG)) \<and>
         (nuki_frame_build_auth B n aid cmd p = Some f \<longrightarrow> nuki_frame_parse_auth B (f[i := b]) = Inl (- EBADMSG))"
  unfolding frame_functions_le [OF assms(1)]
  using plain.corrupted_rejected [of n cmd p f i b] auth.corrupted_rejected [of n "(aid, cmd)" p f i b] assms
  by (auto simp: auth_parse_Inl)

theorem frames_reject_corruption_witness:
  "\<exists>f. nuki_frame_build_plain le_byteorder 160 3 [7] = Some f \<and> f ! 2 = 7 \<and>
       nuki_frame_parse_plain le_byteorder (f[2 := 6]) = Inl (- EBADMSG)"
proof -
  let ?f = "(le16 3 @ [7]) @ le16 (nuki_crc16 (le16 3 @ [7]))"
  have f: "nuki_frame_build_plain le_byteorder 160 3 [7] = Some ?f" by (simp add: build_plain_eq)
  have n: "?f ! 2 = 7" by (simp add: nth_append)
  have "nuki_frame_parse_plain le_byteorder (?f[2 := 6]) = Inl (- EBADMSG)"
    using frames_reject_corruption [OF le_byteorder_ok, of 6 ?f 2 160 3 "[7]"] f n by simp
  with f n show ?thesis by blast
qed

text \<open>
  C38: decoding of the Keyturner state: at least 13 bytes are needed (\<open>-EINVAL\<close> otherwise, nothing
  is decoded), the battery level is twice the upper six bits of byte 12, hence even and at most 126, and
  the door sensor byte is taken only from payloads of at least 19 bytes, 0xFF (unknown) otherwise.
\<close>

theorem keyturner_state_decode:
  assumes "byteorder_ok B"
  shows "case nuki_keyturner_state_parse B payload of
           Inl e \<Rightarrow> e = - EINVAL \<and> length payload < 13
         | Inr st \<Rightarrow> 13 \<le> length payload \<and>
             nuki_state st = payload ! 0 \<and> lock_state st = payload ! 1 \<and> trigger st = payload ! 2 \<and>
             unat (year st) = unat (payload ! 3) + 256 * unat (payload ! 4) \<and>
             (critical_battery st \<longleftrightarrow> odd (unat (payload ! 12))) \<and>
             unat (battery_percent st) = 2 * (unat (payload ! 12) div 4) \<and>
             even (unat (battery_percent st)) \<and> unat (battery_percent st) \<le> 126 \<and>
             door_sensor_state st = (if 19 \<le> length payload then payload ! 18 else 0xFF)"
proof (cases "length payload < 13")
  case False
  let ?b = "payload ! 12"
  have l: "le_val [payload ! 3, payload ! 4] < 65536"
    using le_val_less [of "[payload ! 3, payload ! 4]"] by simp
  have w: "unat (of_nat v :: u16) = v" if "v < 65536" for v using that by (simp add: unat_of_nat)
  have "take 2 (drop 3 payload) = [payload ! 3, payload ! 4]"
    using False by (simp add: numeral_2_eq_2 take_Suc_conv_app_nth)
  then have "sys_get_le16 B (drop 3 payload) = of_nat (le_val [payload ! 3, payload ! 4])"
    using assms False by (simp add: byteorder_ok_def)
  then have y: "unat (sys_get_le16 B (drop 3 payload)) = unat (payload ! 3) + 256 * unat (payload ! 4)"
    using w [OF l] by (simp only: le_val.simps mult_0_right add_0_right)
  have b: "unat (drop_bit 2 ?b) = unat ?b div 4" by (simp add: drop_bit_eq_div unat_div)
  have q: "unat ?b div 4 < 64" using unat_u8_less [of ?b] by linarith
  then have bb: "unat (drop_bit 2 ?b * 2) = 2 * (unat ?b div 4)"
    by (simp add: unat_word_ariths b)
  have c: "(?b AND 1 \<noteq> 0) = odd (unat ?b)"
    by (simp add: and_one_eq odd_iff_mod_2_eq_one unat_mod word_unat_eq_iff)
  show ?thesis
    using False q by (simp add: nuki_keyturner_state_parse_def Let_def y bb c)
qed (simp add: nuki_keyturner_state_parse_def)

theorem keyturner_state_decode_witness:
  "nuki_keyturner_state_parse le_byteorder [1, 2] = Inl (- EINVAL) \<and>
   (case nuki_keyturner_state_parse le_byteorder [2, 1, 0, 232, 7, 1, 2, 3, 4, 5, 0, 0, 173] of
      Inl _ \<Rightarrow> False | Inr st \<Rightarrow> unat (year st) = 2024 \<and> battery_percent st = 86 \<and> critical_battery st)"
  using keyturner_state_decode [OF le_byteorder_ok, of "[1, 2]"]
    keyturner_state_decode [OF le_byteorder_ok, of "[2, 1, 0, 232, 7, 1, 2, 3, 4, 5, 0, 0, 173]"]
  by (auto split: sum.splits simp: word_unat_eq_iff)

end
