(* ===== verification/Nuki_Transport.thy ===== *)
theory Nuki_Transport
  imports Nuki_Protocol
begin

text \<open>
  \<open>src/src/nuki_transport.c\<close> and \<open>nuki_transport.h\<close>: blocking writes and reassembly of fragmented
  indications on one GATT characteristic.

  The Bluetooth host and the kernel are not part of the repository. What they do is input of the
  model: \<open>inbound\<close> scripts the waits (each blocking \<open>k_sem_take\<close> either returns after a
  burst of \<open>notify_cb\<close> calls has run, or the deadline of the wait has passed; an exhausted script
  is silence until the deadline), \<open>write_script\<close> the results of \<open>bt_gatt_write\<close>, of the write
  callback and of the wait for it. Frames handed to \<open>bt_gatt_write\<close> are appended to \<open>sent\<close>.
  \<open>sys_rand_get\<close> reads an arbitrary byte stream. That a wait ends by its timeout is the script entry \<open>Deadline\<close>;
  \<open>blocked\<close> adds up, in seconds, the timeouts of the blocking calls, which bounds the time spent in them. \<open>Nuki_Wait\<close> relates the scripts
  to semaphores and a clock.

  The accumulator satisfies the interface \<open>rx_accumulator\<close>; its client lemmas say that only the
  concatenation of the indications matters, not how they were cut.
\<close>

section \<open>State\<close>

text \<open>
  \<open>struct nuki_transport\<close>, without the kernel objects: the mutex \<open>rx_lock\<close> makes each access to
  the buffer one step, and what the semaphores \<open>rx_sem\<close> and \<open>write_sem\<close> do is part of the scripts
  below. Of the subscription parameters the handle is kept.
\<close>

record nuki_transport =
  t_conn :: "nat option"
  t_value_handle :: u16
  t_ccc_handle :: u16
  rx_buf :: bytes
  rx_len :: nat
  write_err :: int

datatype wait_event = Burst "bytes option list" | Deadline

record write_outcome =
  gatt_write_rc :: int
  write_cb_err :: "u8 option"
  sem_take_rc :: int

record io =
  tr :: nuki_transport
  inbound :: "wait_event list"
  write_script :: "write_outcome list"
  sent :: "bytes list"
  rnd :: "nat \<Rightarrow> u8"
  rnd_pos :: nat
  blocked :: nat

section \<open>Callbacks and operations\<close>

text \<open>\<open>None\<close> is the NULL data pointer of a removed subscription; the result is \<open>CONTINUE\<close> or \<open>STOP\<close>.\<close>

definition notify_cb :: "nuki_transport \<Rightarrow> bytes option \<Rightarrow> bool \<times> nuki_transport" where
  "notify_cb t data =
     (case data of
        None \<Rightarrow> (False, t)
      | Some d \<Rightarrow>
          let space = NUKI_WIRE_MAX_LEN - rx_len t;
              copy = min space (length d)
          in (True, t\<lparr>rx_buf := memcpy_at (rx_len t) (take copy d) (rx_buf t),
                     rx_len := rx_len t + copy\<rparr>))"

definition write_cb :: "nuki_transport \<Rightarrow> u8 \<Rightarrow> nuki_transport" where
  "write_cb t err = t\<lparr>write_err := uint err\<rparr>"

text \<open>
  \<open>sub_rc\<close> is the result of \<open>bt_gatt_subscribe\<close>, \<open>refs\<close> the number of references taken on
  the connection object minus those given back, before the call; the result carries the new balance, an integer, so that giving back too many shows.
\<close>

definition nuki_transport_init ::
    "nat \<Rightarrow> u16 \<Rightarrow> u16 \<Rightarrow> int \<Rightarrow> int \<Rightarrow> int \<times> nuki_transport \<times> int" where
  "nuki_transport_init conn value_handle ccc_handle sub_rc refs =
     (let t = \<lparr>t_conn = Some conn, t_value_handle = value_handle, t_ccc_handle = ccc_handle,
               rx_buf = replicate NUKI_WIRE_MAX_LEN 0, rx_len = 0, write_err = 0\<rparr>;
          refs = refs + 1
      in if sub_rc \<noteq> 0 then (sub_rc, t, refs - 1) else (0, t, refs))"

definition nuki_transport_release :: "nuki_transport \<Rightarrow> int \<Rightarrow> nuki_transport \<times> int" where
  "nuki_transport_release t refs =
     (if t_conn t \<noteq> None then (t\<lparr>t_conn := None\<rparr>, refs - 1) else (t, refs))"

definition silent_write :: write_outcome where
  "silent_write = \<lparr>gatt_write_rc = 0, write_cb_err = None, sem_take_rc = - EAGAIN\<rparr>"

text \<open>The wait for the completion of a write (line 114).\<close>

abbreviation WRITE_TIMEOUT :: nat where "WRITE_TIMEOUT \<equiv> 5"

definition nuki_transport_write :: "bytes \<Rightarrow> io \<Rightarrow> int \<times> io" where
  "nuki_transport_write data s =
     (let w = (case write_script s of [] \<Rightarrow> silent_write | w # _ \<Rightarrow> w);
          s = s\<lparr>write_script := tl (write_script s), sent := sent s @ [data]\<rparr>
      in if gatt_write_rc w \<noteq> 0 then (gatt_write_rc w, s)
         else
           let s = s\<lparr>blocked := blocked s + WRITE_TIMEOUT\<rparr>;
               s = (case write_cb_err w of None \<Rightarrow> s | Some e \<Rightarrow> s\<lparr>tr := write_cb (tr s) e\<rparr>)
           in if sem_take_rc w \<noteq> 0 then (- ETIMEDOUT, s)
              else (if write_err (tr s) \<noteq> 0 then - EIO else 0, s))"

fun wait_min_loop ::
    "nat \<Rightarrow> nuki_transport \<Rightarrow> wait_event list \<Rightarrow> int \<times> nuki_transport \<times> wait_event list" where
  "wait_min_loop min_len t evs =
     (if rx_len t \<ge> min_len then (0, t, evs)
      else case evs of
             [] \<Rightarrow> (- EAGAIN, t, [])
           | Deadline # evs' \<Rightarrow> (- EAGAIN, t, evs')
           | Burst ds # evs' \<Rightarrow> wait_min_loop min_len (fold (\<lambda>d t. snd (notify_cb t d)) ds t) evs')"

declare wait_min_loop.simps [simp del]

definition nuki_transport_wait_min :: "nat \<Rightarrow> nat \<Rightarrow> io \<Rightarrow> int \<times> io" where
  "nuki_transport_wait_min min_len timeout s =
     (let (rc, t, evs) = wait_min_loop min_len (tr s) (inbound s)
      in (rc, s\<lparr>tr := t, inbound := evs, blocked := blocked s + timeout\<rparr>))"

definition nuki_transport_peek :: "io \<Rightarrow> nat \<Rightarrow> bytes" where
  "nuki_transport_peek s len = take len (rx_buf (tr s))"

definition nuki_transport_reset :: "io \<Rightarrow> io" where
  "nuki_transport_reset s = s\<lparr>tr := (tr s)\<lparr>rx_len := 0\<rparr>\<rparr>"

definition nuki_transport_len :: "io \<Rightarrow> nat" where
  "nuki_transport_len s = rx_len (tr s)"

definition sys_rand_get :: "nat \<Rightarrow> io \<Rightarrow> bytes \<times> io" where
  "sys_rand_get n s = (map (rnd s) [rnd_pos s..<rnd_pos s + n], s\<lparr>rnd_pos := rnd_pos s + n\<rparr>)"

section \<open>The interface of a bounded accumulator\<close>

locale rx_accumulator =
  fixes push :: "'t \<Rightarrow> bytes \<Rightarrow> 't"
    and size_of :: "'t \<Rightarrow> nat"
    and front :: "'t \<Rightarrow> nat \<Rightarrow> bytes"
    and clear :: "'t \<Rightarrow> 't"
    and invar :: "'t \<Rightarrow> bool"
    and contents :: "'t \<Rightarrow> bytes"
    and cap :: nat
  assumes push_invar: "invar t \<Longrightarrow> invar (push t d)"
    and clear_invar: "invar t \<Longrightarrow> invar (clear t)"
    and push_contents: "invar t \<Longrightarrow> contents (push t d) = take cap (contents t @ d)"
    and clear_contents: "invar t \<Longrightarrow> contents (clear t) = []"
    and size_contents: "invar t \<Longrightarrow> size_of t = length (contents t)"
    and size_cap: "invar t \<Longrightarrow> size_of t \<le> cap"
    and front_contents: "invar t \<Longrightarrow> n \<le> size_of t \<Longrightarrow> front t n = take n (contents t)"
begin

lemma take_take_append: "take n (take n xs @ ys) = take n (xs @ ys)"
  by (cases "n \<le> length xs") simp_all

lemma pushes_invar: "invar t \<Longrightarrow> invar (fold (\<lambda>d t. push t d) ds t)"
  by (induction ds arbitrary: t) (simp_all add: push_invar)

lemma pushes_contents:
  "invar t \<Longrightarrow> contents (fold (\<lambda>d t. push t d) ds t) = take cap (contents t @ concat ds)"
proof (induction ds arbitrary: t)
  case Nil
  then show ?case using size_contents size_cap by fastforce
next
  case (Cons d ds)
  have "take cap (take cap (contents t @ d) @ concat ds) = take cap ((contents t @ d) @ concat ds)"
    by (rule take_take_append)
  with Cons show ?case by (simp add: push_invar push_contents del: take_append)
qed

text \<open>How the data were cut into pieces does not matter.\<close>

lemma fragmentation_irrelevant:
  assumes "invar t" "concat ds = concat ds'" "n \<le> size_of (fold (\<lambda>d t. push t d) ds t)"
  shows "front (fold (\<lambda>d t. push t d) ds t) n = front (fold (\<lambda>d t. push t d) ds' t) n"
  using assms by (simp add: front_contents pushes_invar pushes_contents size_contents)

end

section \<open>The code's accumulator implements it\<close>

definition tr_ok :: "nuki_transport \<Rightarrow> bool" where
  "tr_ok t \<longleftrightarrow> length (rx_buf t) = NUKI_WIRE_MAX_LEN \<and> rx_len t \<le> NUKI_WIRE_MAX_LEN"

definition tr_contents :: "nuki_transport \<Rightarrow> bytes" where
  "tr_contents t = take (rx_len t) (rx_buf t)"

lemma notify_cb_Some:
  "tr_ok t \<Longrightarrow> tr_ok (snd (notify_cb t (Some d))) \<and>
     tr_contents (snd (notify_cb t (Some d))) = take NUKI_WIRE_MAX_LEN (tr_contents t @ d)"
proof -
  assume ok: "tr_ok t"
  let ?d = "take (min (NUKI_WIRE_MAX_LEN - rx_len t) (length d)) d"
  have l: "length ?d = min (NUKI_WIRE_MAX_LEN - rx_len t) (length d)"
    and d: "?d = take (NUKI_WIRE_MAX_LEN - rx_len t) d" by (simp_all add: min_def)
  have "take (rx_len t + length ?d) (memcpy_at (rx_len t) ?d (rx_buf t)) = take (rx_len t) (rx_buf t) @ ?d"
    using ok by (intro take_memcpy_at) (simp add: tr_ok_def)
  then show ?thesis
    using ok l d by (auto simp: notify_cb_def Let_def tr_ok_def tr_contents_def)
qed

interpretation rx: rx_accumulator "\<lambda>t d. snd (notify_cb t (Some d))" rx_len
  "\<lambda>t n. take n (rx_buf t)" "\<lambda>t. t\<lparr>rx_len := 0\<rparr>" tr_ok tr_contents NUKI_WIRE_MAX_LEN
  by unfold_locales (auto simp: notify_cb_Some, auto simp: tr_ok_def tr_contents_def)

section \<open>Waiting\<close>

definition burst_bytes :: "bytes option list \<Rightarrow> bytes" where
  "burst_bytes ds = concat (map (\<lambda>d. case d of None \<Rightarrow> [] | Some b \<Rightarrow> b) ds)"

primrec event_bytes :: "wait_event list \<Rightarrow> bytes" where
  "event_bytes [] = []"
| "event_bytes (e # es) = (case e of Burst ds \<Rightarrow> burst_bytes ds | Deadline \<Rightarrow> []) @ event_bytes es"

text \<open>
  The messages \<open>ms\<close> arrive one after the other, each cut into any number of indications, without
  a deadline passing and without one burst carrying bytes of two messages.
\<close>

fun delivers :: "bytes list \<Rightarrow> wait_event list \<Rightarrow> bool" where
  "delivers [] evs = True"
| "delivers (m # ms) evs =
     (\<exists>bs rest. evs = map Burst bs @ rest \<and> concat (map burst_bytes bs) = m \<and> delivers ms rest)"

text \<open>Message \<open>m\<close> is partly in the buffer, the remainder is still to come before \<open>rest\<close>.\<close>

definition awaits :: "bytes \<Rightarrow> wait_event list \<Rightarrow> nuki_transport \<Rightarrow> wait_event list \<Rightarrow> bool" where
  "awaits m rest t evs \<longleftrightarrow>
     tr_ok t \<and> (\<exists>bs. evs = map Burst bs @ rest \<and> tr_contents t @ concat (map burst_bytes bs) = m)"

lemma burst_bytes_simps [simp]:
  "burst_bytes [] = []"
  "burst_bytes (None # ds) = burst_bytes ds"
  "burst_bytes (Some b # ds) = b @ burst_bytes ds"
  by (simp_all add: burst_bytes_def)

lemma notify_cb_None [simp]: "snd (notify_cb t None) = t"
  by (simp add: notify_cb_def)

lemma tr_contents_length: "tr_ok t \<Longrightarrow> length (tr_contents t) = rx_len t"
  by (simp add: tr_ok_def tr_contents_def)

lemma burst_effect:
  "tr_ok t \<Longrightarrow> tr_ok (fold (\<lambda>d t. snd (notify_cb t d)) ds t) \<and>
     tr_contents (fold (\<lambda>d t. snd (notify_cb t d)) ds t) =
       take NUKI_WIRE_MAX_LEN (tr_contents t @ burst_bytes ds)"
proof (induction ds arbitrary: t)
  case Nil
  then show ?case by (simp add: tr_contents_def tr_ok_def)
next
  case (Cons d ds)
  show ?case
  proof (cases d)
    case (Some b)
    let ?t = "snd (notify_cb t (Some b))"
    have t: "tr_ok ?t" "tr_contents ?t = take NUKI_WIRE_MAX_LEN (tr_contents t @ b)"
      using notify_cb_Some [OF Cons.prems] by simp_all
    show ?thesis
      using Cons.IH [OF t(1)] unfolding t(2) by (simp add: Some rx.take_take_append del: take_append)
  qed (use Cons in simp)
qed

lemma wait_min_loop_result:
  "tr_ok t \<Longrightarrow> wait_min_loop n t evs = (rc, t', evs') \<Longrightarrow>
   tr_ok t' \<and> (rc = 0 \<and> n \<le> rx_len t' \<or> rc = - EAGAIN \<and> rx_len t' < n) \<and>
   (\<exists>used. evs = used @ evs' \<and> tr_contents t' = take NUKI_WIRE_MAX_LEN (tr_contents t @ event_bytes used))"
proof (induction n t evs rule: wait_min_loop.induct)
  case (1 n t evs)
  have c: "take NUKI_WIRE_MAX_LEN (tr_contents t) = tr_contents t"
    using "1.prems"(1) by (simp add: tr_contents_def tr_ok_def)
  show ?case
  proof (cases "n \<le> rx_len t")
    case True
    with "1.prems" c show ?thesis by (auto simp: wait_min_loop.simps)
  next
    case False
    show ?thesis
    proof (cases evs)
      case Nil
      with "1.prems" False c show ?thesis by (auto simp: wait_min_loop.simps)
    next
      case (Cons e es)
      show ?thesis
      proof (cases e)
        case Deadline
        with "1.prems" False Cons c have "rc = - EAGAIN" "t' = t" "evs' = es"
          by (simp_all add: wait_min_loop.simps)
        then show ?thesis
          using "1.prems"(1) False Cons Deadline c by (intro conjI exI [of _ "[Deadline]"]) simp_all
      next
        case (Burst ds)
        let ?t = "fold (\<lambda>d t. snd (notify_cb t d)) ds t"
        have t: "tr_ok ?t" "tr_contents ?t = take NUKI_WIRE_MAX_LEN (tr_contents t @ burst_bytes ds)"
          using burst_effect [OF "1.prems"(1)] by simp_all
        have "wait_min_loop n ?t es = (rc, t', evs')"
          using "1.prems"(2) False Cons Burst by (simp add: wait_min_loop.simps)
        then obtain used where u: "es = used @ evs'"
            "tr_contents t' = take NUKI_WIRE_MAX_LEN (tr_contents ?t @ event_bytes used)"
          and r: "tr_ok t'" "rc = 0 \<and> n \<le> rx_len t' \<or> rc = - EAGAIN \<and> rx_len t' < n"
          using "1.IH" [OF False Cons Burst t(1)] by blast
        have "tr_contents t' = take NUKI_WIRE_MAX_LEN (tr_contents t @ event_bytes (Burst ds # used))"
          using u(2) unfolding t(2) by (simp add: rx.take_take_append del: take_append)
        then show ?thesis using r u(1) Cons Burst by (intro conjI exI [of _ "Burst ds # used"]) simp_all
      qed
    qed
  qed
qed

lemma wait_awaits:
  assumes "awaits m rest t evs" "n \<le> length m" "length m \<le> NUKI_WIRE_MAX_LEN"
  shows "\<exists>t' evs'. wait_min_loop n t evs = (0, t', evs') \<and> awaits m rest t' evs' \<and> n \<le> rx_len t'
           \<and> write_err t' = write_err t"
proof -
  obtain bs where ok: "tr_ok t" and evs: "evs = map Burst bs @ rest"
    and m: "tr_contents t @ concat (map burst_bytes bs) = m"
    using assms(1) by (auto simp: awaits_def)
  show ?thesis
    using ok m unfolding evs
  proof (induction bs arbitrary: t)
    case Nil
    then have "n \<le> rx_len t" using assms(2) tr_contents_length [of t] by auto
    with Nil show ?case by (auto simp: wait_min_loop.simps awaits_def)
  next
    case (Cons ds bs)
    show ?case
    proof (cases "n \<le> rx_len t")
      case True
      have "awaits m rest t (map Burst (ds # bs) @ rest)"
        using Cons.prems unfolding awaits_def by blast
      with True show ?thesis by (simp add: wait_min_loop.simps)
    next
      case False
      let ?t = "fold (\<lambda>d t. snd (notify_cb t d)) ds t"
      have w: "write_err ?t = write_err t"
        by (induction ds arbitrary: t) (auto simp: notify_cb_def Let_def split: option.splits)
      have t: "tr_ok ?t" "tr_contents ?t = take NUKI_WIRE_MAX_LEN (tr_contents t @ burst_bytes ds)"
        using burst_effect [OF Cons.prems(1)] by simp_all
      have l: "length (tr_contents t @ burst_bytes ds) \<le> NUKI_WIRE_MAX_LEN"
        using Cons.prems(2) assms(3) by auto
      have "tr_contents ?t @ concat (map burst_bytes bs) = m"
        using Cons.prems(2) l unfolding t(2) by simp
      then show ?thesis
        using Cons.IH [OF t(1)] False w by (simp add: wait_min_loop.simps [of n t])
    qed
  qed
qed

lemma awaits_contents:
  "awaits m rest t evs \<Longrightarrow> n \<le> rx_len t \<Longrightarrow> take n (rx_buf t) = take n m"
proof -
  assume a: "awaits m rest t evs" and n: "n \<le> rx_len t"
  then obtain bs where "tr_contents t @ concat (map burst_bytes bs) = m" "tr_ok t"
    by (auto simp: awaits_def)
  then show ?thesis using n by (auto simp: tr_contents_def tr_ok_def)
qed

lemma awaits_done:
  assumes "awaits m rest t evs" "rx_len t = length m" "delivers ms rest"
  shows "delivers ms evs"
proof -
  obtain bs where evs: "evs = map Burst bs @ rest" and m: "tr_contents t @ concat (map burst_bytes bs) = m"
    and "tr_ok t" using assms(1) by (auto simp: awaits_def)
  then have e: "concat (map burst_bytes bs) = []"
    using assms(2) tr_contents_length [of t] by (metis append_eq_conv_conj append_self_conv drop_all order_refl)
  show ?thesis
  proof (cases ms)
    case (Cons m' ms')
    then obtain bs' rest' where "rest = map Burst bs' @ rest'" "concat (map burst_bytes bs') = m'" "delivers ms' rest'"
      using assms(3) by auto
    then have "evs = map Burst (bs @ bs') @ rest' \<and> concat (map burst_bytes (bs @ bs')) = m' \<and> delivers ms' rest'"
      using evs e by simp
    then show ?thesis unfolding Cons delivers.simps by blast
  qed simp
qed

lemma awaits_bounded: "awaits m rest t evs \<Longrightarrow> rx_len t \<le> length m"
  using tr_contents_length by (fastforce simp: awaits_def)

lemma delivers_awaits:
  "delivers (m # ms) evs \<Longrightarrow> tr_ok t \<Longrightarrow> rx_len t = 0 \<Longrightarrow>
   \<exists>rest. awaits m rest t evs \<and> delivers ms rest"
  by (auto simp: awaits_def tr_contents_def)

section \<open>What operations keep\<close>

definition io_idle :: "io \<Rightarrow> bool" where
  "io_idle s \<longleftrightarrow> tr_ok (tr s) \<and> rx_len (tr s) = 0"

text \<open>What no receive operation touches.\<close>

definition same_output :: "io \<Rightarrow> io \<Rightarrow> bool" where
  "same_output s s' \<longleftrightarrow>
     sent s' = sent s \<and> write_script s' = write_script s \<and> rnd s' = rnd s \<and> rnd_pos s' = rnd_pos s"

text \<open>What every receive operation keeps: the buffer invariant, the output side, and that events are consumed in order.\<close>

definition rx_step :: "io \<Rightarrow> io \<Rightarrow> bool" where
  "rx_step s s' \<longleftrightarrow> (tr_ok (tr s) \<longrightarrow> tr_ok (tr s')) \<and> same_output s s' \<and> (\<exists>u. inbound s = u @ inbound s')"

lemma same_output_refl [simp]: "same_output s s"
  by (simp add: same_output_def)

lemma same_output_trans: "same_output s s' \<Longrightarrow> same_output s' s'' \<Longrightarrow> same_output s s''"
  by (simp add: same_output_def)

lemma rx_step_refl [simp]: "rx_step s s"
  by (simp add: rx_step_def)

lemma rx_step_trans: "rx_step s s' \<Longrightarrow> rx_step s' s'' \<Longrightarrow> rx_step s s''"
  unfolding rx_step_def using same_output_trans by (metis append_assoc)

lemma rx_step_reset: "rx_step s s' \<Longrightarrow> rx_step s (nuki_transport_reset s')"
  by (auto simp: rx_step_def same_output_def nuki_transport_reset_def tr_ok_def)

lemma wait_min_loop_suffix: "wait_min_loop n t evs = (rc, t', evs') \<Longrightarrow> \<exists>u. evs = u @ evs'"
  by (induction n t evs rule: wait_min_loop.induct)
    (subst (asm) (2) wait_min_loop.simps, auto split: if_splits list.splits wait_event.splits)

lemma wait_min_rx: "nuki_transport_wait_min n d s = (rc, s') \<Longrightarrow> rx_step s s'"
proof -
  assume "nuki_transport_wait_min n d s = (rc, s')"
  then obtain t evs where w: "wait_min_loop n (tr s) (inbound s) = (rc, t, evs)" "s' = s\<lparr>tr := t, inbound := evs, blocked := blocked s + d\<rparr>"
    by (auto simp: nuki_transport_wait_min_def Let_def split: prod.splits)
  then show ?thesis
    using wait_min_loop_result [OF _ w(1)] wait_min_loop_suffix [OF w(1)]
    by (auto simp: rx_step_def same_output_def)
qed

lemma transport_write_effect:
  assumes "nuki_transport_write d s = (rc, s')"
  shows "sent s' = sent s @ [d]" "inbound s' = inbound s" "rnd s' = rnd s" "rnd_pos s' = rnd_pos s"
    "rx_buf (tr s') = rx_buf (tr s)" "rx_len (tr s') = rx_len (tr s)"
    "write_script s' = tl (write_script s)" "blocked s' \<le> blocked s + WRITE_TIMEOUT"
proof -
  define w where "w = (case write_script s of [] \<Rightarrow> silent_write | w # _ \<Rightarrow> w)"
  let ?s = "s\<lparr>write_script := tl (write_script s), sent := sent s @ [d]\<rparr>"
  have "s' = ?s \<or> s' = ?s\<lparr>blocked := blocked s + WRITE_TIMEOUT\<rparr> \<or>
      (\<exists>e. s' = ?s\<lparr>blocked := blocked s + WRITE_TIMEOUT, tr := write_cb (tr s) e\<rparr>)"
    using assms unfolding nuki_transport_write_def w_def [symmetric] Let_def
    by (cases "write_cb_err w") (auto split: if_splits)
  then show "sent s' = sent s @ [d]" "inbound s' = inbound s" "rnd s' = rnd s" "rnd_pos s' = rnd_pos s"
    "rx_buf (tr s') = rx_buf (tr s)" "rx_len (tr s') = rx_len (tr s)" "write_script s' = tl (write_script s)"
    "blocked s' \<le> blocked s + WRITE_TIMEOUT"
    by (auto simp: write_cb_def)
qed

definition write_ok :: "write_outcome \<Rightarrow> bool" where
  "write_ok o1 \<longleftrightarrow> gatt_write_rc o1 = 0 \<and> write_cb_err o1 = Some 0 \<and> sem_take_rc o1 = 0"

text \<open>
  The bytes \<open>c\<close> in the buffer, continued by those that the events bring, begin with \<open>w\<close>: what a reader
  that waited through these events finds at the front of the buffer.
\<close>

definition fronts :: "bytes \<Rightarrow> wait_event list \<Rightarrow> bytes \<Rightarrow> bool" where
  "fronts c evs w \<longleftrightarrow> w = take (length w) (take NUKI_WIRE_MAX_LEN (c @ event_bytes evs))"

definition received :: "io \<Rightarrow> io \<Rightarrow> bytes \<Rightarrow> bool" where
  "received s s' w \<longleftrightarrow> (\<exists>used. inbound s = used @ inbound s' \<and> fronts (tr_contents (tr s)) used w)"

lemma io_idle_contents: "io_idle s \<Longrightarrow> tr_contents (tr s) = []"
  by (simp add: io_idle_def tr_contents_def)

lemma received_idle: "received s s' w \<Longrightarrow> io_idle s \<Longrightarrow> \<exists>used. inbound s = used @ inbound s' \<and> fronts [] used w"
  by (auto simp: received_def io_idle_contents)

lemma two_waits:
  assumes ok: "tr_ok t0" and w1: "wait_min_loop n t0 evs = (0, t1, e1)"
    and w2: "wait_min_loop (n + m) t1 e1 = (0, t2, e2)"
  shows "\<exists>used. evs = used @ e2 \<and> tr_ok t2 \<and> n + m \<le> rx_len t2 \<and>
     tr_contents t2 = take NUKI_WIRE_MAX_LEN (tr_contents t0 @ event_bytes used) \<and>
     take n (rx_buf t1) = take n (rx_buf t2)"
proof -
  obtain u1 where ok1: "tr_ok t1" "n \<le> rx_len t1" and u1: "evs = u1 @ e1"
      "tr_contents t1 = take NUKI_WIRE_MAX_LEN (tr_contents t0 @ event_bytes u1)"
    using wait_min_loop_result [OF ok w1] by auto
  obtain u2 where ok2: "tr_ok t2" "n + m \<le> rx_len t2" and u2: "e1 = u2 @ e2"
      "tr_contents t2 = take NUKI_WIRE_MAX_LEN (tr_contents t1 @ event_bytes u2)"
    using wait_min_loop_result [OF ok1(1) w2] by auto
  have "event_bytes (u1 @ u2) = event_bytes u1 @ event_bytes u2" by (induction u1) simp_all
  then have c2: "tr_contents t2 = take NUKI_WIRE_MAX_LEN (tr_contents t0 @ event_bytes (u1 @ u2))"
    unfolding u2(2) u1(2) by (simp add: rx.take_take_append del: take_append)
  have "take n (tr_contents t2) = take n (tr_contents t1)"
    using ok1 tr_contents_length [OF ok1(1)] unfolding u2(2) by (simp add: tr_ok_def)
  then have "take n (rx_buf t1) = take n (rx_buf t2)"
    using ok1 ok2 by (simp add: tr_contents_def min_def split: if_splits)
  with ok2 u1(1) u2(1) c2 show ?thesis by (intro exI [of _ "u1 @ u2"]) simp
qed

section \<open>Relations kept by every user of the transport\<close>

text \<open>
  A relation that holds between the states before and after each operation of the transport; the clients of the
  transport keep every such relation.
\<close>

locale io_relation =
  fixes R :: "io \<Rightarrow> io \<Rightarrow> bool"
  assumes refl_rel: "R s s"
    and trans_rel: "R s s1 \<Longrightarrow> R s1 s2 \<Longrightarrow> R s s2"
    and write_rel: "nuki_transport_write d s = (rc, s') \<Longrightarrow> R s s'"
    and wait_rel: "nuki_transport_wait_min n tmo s = (rc, s') \<Longrightarrow> R s s'"
    and reset_rel: "R s (nuki_transport_reset s)"
    and rand_rel: "sys_rand_get n s = (bs, s') \<Longrightarrow> R s s'"
begin

lemma trans3_rel: "R s s1 \<Longrightarrow> R s1 s2 \<Longrightarrow> R s2 s3 \<Longrightarrow> R s s3"
  by (blast intro: trans_rel)

end

text \<open>The connection of the transport and its buffer invariant.\<close>

definition same_conn :: "io \<Rightarrow> io \<Rightarrow> bool" where
  "same_conn s s' \<longleftrightarrow> t_conn (tr s') = t_conn (tr s) \<and> (tr_ok (tr s) \<longrightarrow> tr_ok (tr s'))"

lemma wait_min_loop_conn: "wait_min_loop n t evs = (rc, t', evs') \<Longrightarrow> t_conn t' = t_conn t"
proof (induction n t evs rule: wait_min_loop.induct)
  case (1 n t evs)
  have "t_conn (fold (\<lambda>d t. snd (notify_cb t d)) ds u) = t_conn u" for ds u
    by (induction ds arbitrary: u) (auto simp: notify_cb_def Let_def split: option.split)
  then show ?case
    using 1 by (subst (asm) (2) wait_min_loop.simps) (auto split: if_splits list.splits wait_event.splits)
qed

interpretation conn_kept: io_relation same_conn
proof
  fix d s rc s' assume "nuki_transport_write d s = (rc, s')"
  then show "same_conn s s'"
    by (auto simp: same_conn_def nuki_transport_write_def tr_ok_def write_cb_def Let_def
        split: if_splits list.splits option.splits)
next
  fix n tmo s rc s' assume w: "nuki_transport_wait_min n tmo s = (rc, s')"
  then show "same_conn s s'"
    using wait_min_rx [OF w] wait_min_loop_conn
    by (auto simp: same_conn_def rx_step_def nuki_transport_wait_min_def Let_def split: prod.splits)
qed (auto simp: same_conn_def nuki_transport_reset_def sys_rand_get_def tr_ok_def)

section \<open>A transport for examples\<close>

lemma delivers_bursts: "delivers ws (map (\<lambda>w. Burst [Some w]) ws)"
proof (induction ws)
  case (Cons w ws)
  then show ?case by (auto intro!: exI [of _ "[[Some w]]"])
qed simp

text \<open>A transport with nothing received, whose next writes succeed and on which the given messages arrive.\<close>

definition demo_io :: "bytes list \<Rightarrow> io" where
  "demo_io ws =
     \<lparr>tr = \<lparr>t_conn = Some 0, t_value_handle = 1, t_ccc_handle = 2, rx_buf = replicate 256 0, rx_len = 0, write_err = 0\<rparr>,
      inbound = map (\<lambda>w. Burst [Some w]) ws,
      write_script = replicate 8 \<lparr>gatt_write_rc = 0, write_cb_err = Some 0, sem_take_rc = 0\<rparr>,
      sent = [], rnd = of_nat, rnd_pos = 0, blocked = 0\<rparr>"

lemma demo_io_simps [simp]:
  "io_idle (demo_io ws)" "tr_ok (tr (demo_io ws))" "sent (demo_io ws) = []" "delivers ws (inbound (demo_io ws))"
  "inbound (demo_io ws) = map (\<lambda>w. Burst [Some w]) ws"
  "write_script (demo_io ws) = replicate 8 \<lparr>gatt_write_rc = 0, write_cb_err = Some 0, sem_take_rc = 0\<rparr>"
  using delivers_bursts by (simp_all add: demo_io_def io_idle_def tr_ok_def)

section \<open>Properties\<close>

text \<open>
  C37: reassembly: whatever burst of indications arrives (subscription-removed calls included), the
  256-byte buffer is never overrun and holds the concatenation of everything received since the
  last reset, cut at 256 bytes; how the peer fragmented the data is invisible to the reader.
\<close>

theorem rx_reassembly:
  assumes "tr_ok t" and "burst_bytes ds = burst_bytes ds'"
  shows "let t1 = fold (\<lambda>d t. snd (notify_cb t d)) ds t; t2 = fold (\<lambda>d t. snd (notify_cb t d)) ds' t
         in tr_ok t1 \<and> tr_contents t1 = take 256 (tr_contents t @ burst_bytes ds) \<and>
            tr_contents t2 = tr_contents t1 \<and> rx_len t1 = min 256 (rx_len t + length (burst_bytes ds))"
proof -
  let ?t = "fold (\<lambda>d t. snd (notify_cb t d)) ds t"
  note e = burst_effect [OF assms(1), of ds]
  have "rx_len ?t = length (tr_contents ?t)" using tr_contents_length [OF conjunct1 [OF e]] by (rule sym)
  also have "\<dots> = min 256 (rx_len t + length (burst_bytes ds))"
    using e tr_contents_length [OF assms(1)] by (simp del: take_append)
  finally show ?thesis
    using e burst_effect [OF assms(1), of ds'] assms(2) by (simp add: Let_def del: take_append)
qed

theorem rx_reassembly_witness:
  "let t = \<lparr>t_conn = Some 0, t_value_handle = 1, t_ccc_handle = 2, rx_buf = replicate 256 0, rx_len = 0, write_err = 0\<rparr>
   in tr_contents (fold (\<lambda>d t. snd (notify_cb t d)) [Some [1], Some [2, 3]] t) =
      tr_contents (fold (\<lambda>d t. snd (notify_cb t d)) [Some [1, 2], None, Some [3]] t)"
  using rx_reassembly
    [of "\<lparr>t_conn = Some 0, t_value_handle = 1, t_ccc_handle = 2, rx_buf = replicate 256 0, rx_len = 0, write_err = 0\<rparr>"
      "[Some [1], Some [2, 3]]" "[Some [1, 2], None, Some [3]]"]
  by (simp add: Let_def tr_ok_def)

text \<open>
  The blocking wait always ends, and its result is exact: 0 when the buffer holds at least the
  requested number of bytes, \<open>-EAGAIN\<close> when it does not; in both cases the buffer holds all bytes
  that arrived, and nothing but the receive side changed. When a complete message arrives in time,
  in any fragmentation, the wait for any prefix of it succeeds.
\<close>

theorem wait_min_outcome:
  assumes "tr_ok (tr s)"
  shows "\<exists>rc s' used. nuki_transport_wait_min n d s = (rc, s') \<and> tr_ok (tr s') \<and>
           rc = (if n \<le> nuki_transport_len s' then 0 else - EAGAIN) \<and>
           inbound s = used @ inbound s' \<and>
           tr_contents (tr s') = take 256 (tr_contents (tr s) @ event_bytes used) \<and>
           s' = s\<lparr>tr := tr s', inbound := inbound s', blocked := blocked s + d\<rparr> \<and>
           (\<forall>m. awaits m (inbound s') (tr s) (inbound s) \<and> n \<le> length m \<and> length m \<le> 256 \<longrightarrow> rc = 0)"
proof -
  obtain rc t evs where w: "wait_min_loop n (tr s) (inbound s) = (rc, t, evs)" by (metis prod_cases3)
  then have e: "nuki_transport_wait_min n d s = (rc, s\<lparr>tr := t, inbound := evs, blocked := blocked s + d\<rparr>)"
    by (simp add: nuki_transport_wait_min_def)
  have "rc = 0" if "awaits m evs (tr s) (inbound s)" "n \<le> length m" "length m \<le> 256" for m
    using wait_awaits [OF that] w by auto
  then show ?thesis
    using wait_min_loop_result [OF assms w] e
    by (intro exI [of _ rc] exI [of _ "s\<lparr>tr := t, inbound := evs, blocked := blocked s + d\<rparr>"]) (auto simp: nuki_transport_len_def)
qed

theorem wait_min_outcome_witness:
  "let t = \<lparr>t_conn = Some 0, t_value_handle = 1, t_ccc_handle = 2, rx_buf = replicate 256 0, rx_len = 0, write_err = 0\<rparr>;
       s = \<lparr>tr = t, inbound = [Burst [Some [1, 2]]], write_script = [], sent = [], rnd = (\<lambda>_. 0), rnd_pos = 0, blocked = 0\<rparr>
   in fst (nuki_transport_wait_min 2 10 s) = 0 \<and> fst (nuki_transport_wait_min 3 10 s) = - EAGAIN"
proof -
  let ?t = "\<lparr>t_conn = Some 0, t_value_handle = 1, t_ccc_handle = 2, rx_buf = replicate 256 0, rx_len = 0, write_err = 0\<rparr>"
  let ?s = "\<lparr>tr = ?t, inbound = [Burst [Some [1, 2]]], write_script = [], sent = [], rnd = (\<lambda>_. 0), rnd_pos = 0, blocked = 0\<rparr>"
  have ok: "tr_ok (tr ?s)" by (simp add: tr_ok_def)
  have "fst (nuki_transport_wait_min 2 10 ?s) = 0"
    using wait_min_outcome [OF ok, of 2 10]
    by (auto simp: nuki_transport_len_def nuki_transport_wait_min_def wait_min_loop.simps notify_cb_def split: if_splits)
  moreover have "fst (nuki_transport_wait_min 3 10 ?s) = - EAGAIN"
    using wait_min_outcome [OF ok, of 3 10]
    by (auto simp: nuki_transport_len_def nuki_transport_wait_min_def wait_min_loop.simps notify_cb_def split: if_splits)
  ultimately show ?thesis by (simp add: Let_def)
qed

text \<open>
  A write reports success only when the host accepted it, completed it within the deadline and
  the completion carried no ATT error; otherwise the host's error, \<open>-ETIMEDOUT\<close> or \<open>-EIO\<close> is
  returned. Data are handed to the host exactly once, and the receive buffer is untouched.
\<close>

theorem transport_write_outcome:
  assumes "nuki_transport_write d s = (rc, s')" and "write_script s = w # ws"
  shows "sent s' = sent s @ [d] \<and> write_script s' = ws \<and> inbound s' = inbound s \<and>
         rx_buf (tr s') = rx_buf (tr s) \<and> rx_len (tr s') = rx_len (tr s) \<and>
         rc = (if gatt_write_rc w \<noteq> 0 then gatt_write_rc w
               else if sem_take_rc w \<noteq> 0 then - ETIMEDOUT
               else if (case write_cb_err w of Some e \<Rightarrow> uint e | None \<Rightarrow> write_err (tr s)) \<noteq> 0 then - EIO else 0)"
  using assms
  by (auto simp: nuki_transport_write_def Let_def write_cb_def split: if_splits list.splits option.splits)

theorem transport_write_outcome_witness:
  "let w = \<lparr>gatt_write_rc = 0, write_cb_err = Some 5, sem_take_rc = 0\<rparr>;
       t = \<lparr>t_conn = Some 0, t_value_handle = 1, t_ccc_handle = 2, rx_buf = [], rx_len = 0, write_err = 0\<rparr>;
       s = \<lparr>tr = t, inbound = [], write_script = [w], sent = [], rnd = (\<lambda>_. 0), rnd_pos = 0, blocked = 0\<rparr>
   in fst (nuki_transport_write [1] s) = - EIO \<and> sent (snd (nuki_transport_write [1] s)) = [[1]]"
proof -
  let ?w = "\<lparr>gatt_write_rc = 0, write_cb_err = Some 5, sem_take_rc = 0\<rparr>"
  let ?t = "\<lparr>t_conn = Some 0, t_value_handle = 1, t_ccc_handle = 2, rx_buf = [], rx_len = 0, write_err = 0\<rparr>"
  let ?s = "\<lparr>tr = ?t, inbound = [], write_script = [?w], sent = [], rnd = (\<lambda>_. 0), rnd_pos = 0, blocked = 0\<rparr>"
  have e: "nuki_transport_write [1] ?s = (fst (nuki_transport_write [1] ?s), snd (nuki_transport_write [1] ?s))"
    by simp
  show ?thesis using transport_write_outcome [OF e, of ?w "[]"] by (simp add: Let_def)
qed

text \<open>
  Connection references: a successful initialisation takes exactly one reference, release gives
  it back and a second release does nothing. After a failed subscription the reference is already
  given back but the stale pointer stays in the structure, so a release then drops a reference
  the transport does not hold.
\<close>

theorem transport_references:
  "case nuki_transport_init conn vh ch sub_rc refs of (rc, t, refs') \<Rightarrow>
     rc = sub_rc \<and> tr_ok t \<and> rx_len t = 0 \<and> t_conn t = Some conn \<and>
     (if sub_rc = 0
      then refs' = refs + 1 \<and> snd (nuki_transport_release t refs') = refs \<and>
           (let t' = fst (nuki_transport_release t refs') in nuki_transport_release t' refs = (t', refs))
      else refs' = refs \<and> snd (nuki_transport_release t refs') = refs - 1)"
  by (simp add: nuki_transport_init_def nuki_transport_release_def tr_ok_def Let_def)

end
