(* ===== verification/Nuki_Salsa20.thy ===== *)
theory Nuki_Salsa20
  imports Nuki_Prelude
begin

text \<open>
  The Salsa20 part of \<open>src/src/nuki_crypto.c\<close> (lines 20 to 160): the core permutation with its
  \<open>h\<close> switch (Salsa20 or HSalsa20), the stream cipher with its running block counter, XSalsa20,
  and the key derivation \<open>kdf1\<close> built on HSalsa20.

  The reference side is the published Salsa20 specification (quarterround, rowround,
  columnround, doubleround). The main facts: twenty passes of the code's transposing loop are
  ten doublerounds (\<open>salsa_core_rounds\<close>), the core functions compute the specified
  expansion, and the stream function is the exclusive or of the message with the keystream whose
  \<open>i\<close>-th block is the core at the 64-bit little-endian counter \<open>i\<close>.
\<close>

section \<open>The code\<close>

definition sigma :: bytes where
  "sigma = [0x65, 0x78, 0x70, 0x61, 0x6e, 0x64, 0x20, 0x33,
            0x32, 0x2d, 0x62, 0x79, 0x74, 0x65, 0x20, 0x6b]"

definition rotl32 :: "u32 \<Rightarrow> nat \<Rightarrow> u32" where
  "rotl32 x c = (push_bit c x) OR (drop_bit (32 - c) x)"

definition load_le32 :: "bytes \<Rightarrow> u32" where
  "load_le32 x =
     (let u = ucast (x ! 3);
          u = (push_bit 8 u) OR ucast (x ! 2);
          u = (push_bit 8 u) OR ucast (x ! 1)
      in (push_bit 8 u) OR ucast (x ! 0))"

text \<open>The four bytes that \<open>store_le32\<close> writes, with the loop's running \<open>u >>= 8\<close>.\<close>

definition store_le32 :: "u32 \<Rightarrow> bytes" where
  "store_le32 u =
     snd (fold (\<lambda>i (u, x). (drop_bit 8 u, x[i := ucast u])) [0..<4] (u, replicate 4 0))"

definition salsa_load :: "bytes \<Rightarrow> bytes \<Rightarrow> bytes \<Rightarrow> u32 list" where
  "salsa_load inp k c =
     fold (\<lambda>i x. x[5 * i := load_le32 (drop (4 * i) c),
                   1 + i := load_le32 (drop (4 * i) k),
                   6 + i := load_le32 (drop (4 * i) inp),
                   11 + i := load_le32 (drop (16 + 4 * i) k)])
       [0..<4] (replicate 16 0)"

definition salsa_mix :: "u32 list \<Rightarrow> u32 list" where
  "salsa_mix t =
     (let t = t[1 := t ! 1 XOR rotl32 (t ! 0 + t ! 3) 7];
          t = t[2 := t ! 2 XOR rotl32 (t ! 1 + t ! 0) 9];
          t = t[3 := t ! 3 XOR rotl32 (t ! 2 + t ! 1) 13]
      in t[0 := t ! 0 XOR rotl32 (t ! 3 + t ! 2) 18])"

definition salsa_pass :: "u32 list \<Rightarrow> u32 list" where
  "salsa_pass x =
     fold (\<lambda>j w.
         let t = salsa_mix (map (\<lambda>m. x ! ((5 * j + 4 * m) mod 16)) [0..<4])
         in fold (\<lambda>m w. w[4 * j + (j + m) mod 4 := t ! m]) [0..<4] w)
       [0..<4] (replicate 16 0)"

definition salsa_core :: "bytes \<Rightarrow> bytes \<Rightarrow> bytes \<Rightarrow> bool \<Rightarrow> bytes" where
  "salsa_core inp k c h =
     (let x = salsa_load inp k c;
          y = x;
          x = fold (\<lambda>_ x. salsa_pass x) [0..<20] x
      in if h then
           let x = fold (\<lambda>i x. x[i := x ! i + y ! i]) [0..<16] x;
               x = fold (\<lambda>i x. x[5 * i := x ! (5 * i) - load_le32 (drop (4 * i) c),
                                 6 + i := x ! (6 + i) - load_le32 (drop (4 * i) inp)])
                     [0..<4] x
           in fold (\<lambda>i out. memcpy_at (16 + 4 * i) (store_le32 (x ! (6 + i)))
                              (memcpy_at (4 * i) (store_le32 (x ! (5 * i))) out))
                [0..<4] (replicate 32 0)
         else fold (\<lambda>i out. memcpy_at (4 * i) (store_le32 (x ! i + y ! i)) out)
                [0..<16] (replicate 64 0))"

definition core_salsa20 :: "bytes \<Rightarrow> bytes \<Rightarrow> bytes" where
  "core_salsa20 inp k = salsa_core inp k sigma False"

definition core_hsalsa20 :: "bytes \<Rightarrow> bytes \<Rightarrow> bytes" where
  "core_hsalsa20 inp k = salsa_core inp k sigma True"

definition salsa_counter_step :: "bytes \<Rightarrow> bytes" where
  "salsa_counter_step z =
     snd (fold (\<lambda>i (u, z).
            let u = u + ucast (z ! i) in (drop_bit 8 u, z[i := ucast u]))
          [8..<16] (1 :: u32, z))"

text \<open>\<open>m\<close> is the message pointer: \<open>None\<close> is the NULL pointer (keystream only).\<close>

definition msg_byte :: "bytes option \<Rightarrow> nat \<Rightarrow> u8" where
  "msg_byte m i = (case m of None \<Rightarrow> 0 | Some b \<Rightarrow> b ! i)"

function stream_salsa20_loop :: "bytes option \<Rightarrow> nat \<Rightarrow> bytes \<Rightarrow> bytes \<Rightarrow> bytes" where
  "stream_salsa20_loop m len z k =
     (if 64 \<le> len then
        let x = core_salsa20 z k;
            c = map (\<lambda>i. msg_byte m i XOR x ! i) [0..<64]
        in c @ stream_salsa20_loop (map_option (drop 64) m) (len - 64) (salsa_counter_step z) k
      else if len \<noteq> 0 then
        let x = core_salsa20 z k in map (\<lambda>i. msg_byte m i XOR x ! i) [0..<len]
      else [])"
  by pat_completeness auto
termination
  by (relation "measure (\<lambda>(m, len, z, k). len)") auto

declare stream_salsa20_loop.simps [simp del]

definition stream_salsa20_xor :: "bytes option \<Rightarrow> nat \<Rightarrow> bytes \<Rightarrow> bytes \<Rightarrow> bytes" where
  "stream_salsa20_xor m len n k =
     stream_salsa20_loop m len (memcpy_at 0 (take 8 n) (replicate 16 0)) k"

definition xsalsa20_xor :: "bytes option \<Rightarrow> nat \<Rightarrow> bytes \<Rightarrow> bytes \<Rightarrow> bytes" where
  "xsalsa20_xor m len n k = stream_salsa20_xor m len (drop 16 n) (core_hsalsa20 (take 16 n) k)"

definition nuki_crypto_kdf1 :: "bytes \<Rightarrow> bytes" where
  "nuki_crypto_kdf1 dh_result = core_hsalsa20 (replicate 16 0) dh_result"

section \<open>The published specification\<close>

fun quarterround :: "u32 \<times> u32 \<times> u32 \<times> u32 \<Rightarrow> u32 \<times> u32 \<times> u32 \<times> u32" where
  "quarterround (y0, y1, y2, y3) =
     (let z1 = y1 XOR word_rotl 7 (y0 + y3);
          z2 = y2 XOR word_rotl 9 (z1 + y0);
          z3 = y3 XOR word_rotl 13 (z2 + z1);
          z0 = y0 XOR word_rotl 18 (z3 + z2)
      in (z0, z1, z2, z3))"

fun rowround :: "u32 list \<Rightarrow> u32 list" where
  "rowround [y0, y1, y2, y3, y4, y5, y6, y7, y8, y9, y10, y11, y12, y13, y14, y15] =
     (case quarterround (y0, y1, y2, y3) of (z0, z1, z2, z3) \<Rightarrow>
      case quarterround (y5, y6, y7, y4) of (z5, z6, z7, z4) \<Rightarrow>
      case quarterround (y10, y11, y8, y9) of (z10, z11, z8, z9) \<Rightarrow>
      case quarterround (y15, y12, y13, y14) of (z15, z12, z13, z14) \<Rightarrow>
        [z0, z1, z2, z3, z4, z5, z6, z7, z8, z9, z10, z11, z12, z13, z14, z15])"
| "rowround _ = []"

fun columnround :: "u32 list \<Rightarrow> u32 list" where
  "columnround [x0, x1, x2, x3, x4, x5, x6, x7, x8, x9, x10, x11, x12, x13, x14, x15] =
     (case quarterround (x0, x4, x8, x12) of (y0, y4, y8, y12) \<Rightarrow>
      case quarterround (x5, x9, x13, x1) of (y5, y9, y13, y1) \<Rightarrow>
      case quarterround (x10, x14, x2, x6) of (y10, y14, y2, y6) \<Rightarrow>
      case quarterround (x15, x3, x7, x11) of (y15, y3, y7, y11) \<Rightarrow>
        [y0, y1, y2, y3, y4, y5, y6, y7, y8, y9, y10, y11, y12, y13, y14, y15])"
| "columnround _ = []"

definition doubleround :: "u32 list \<Rightarrow> u32 list" where
  "doubleround x = rowround (columnround x)"

definition le_word :: "bytes \<Rightarrow> u32" where
  "le_word bs = of_nat (le_val (take 4 bs))"

text \<open>The 16-word input block: constants, key halves and the 16-byte input.\<close>

definition salsa20_block :: "bytes \<Rightarrow> bytes \<Rightarrow> u32 list" where
  "salsa20_block k n =
     map (\<lambda>bs. le_word bs)
       [sigma, k, drop 4 k, drop 8 k, drop 12 k,
        drop 4 sigma, n, drop 4 n, drop 8 n, drop 12 n,
        drop 8 sigma, drop 16 k, drop 20 k, drop 24 k, drop 28 k, drop 12 sigma]"

definition salsa20_spec :: "bytes \<Rightarrow> bytes \<Rightarrow> bytes" where
  "salsa20_spec k n =
     (let x = salsa20_block k n
      in concat (map le32 (map2 (+) x ((doubleround ^^ 10) x))))"

definition hsalsa20_spec :: "bytes \<Rightarrow> bytes \<Rightarrow> bytes" where
  "hsalsa20_spec k n =
     (let z = (doubleround ^^ 10) (salsa20_block k n)
      in concat (map (\<lambda>i. le32 (z ! i)) [0, 5, 10, 15, 6, 7, 8, 9]))"

text \<open>Keystream of \<open>len\<close> bytes under an 8-byte nonce, from block counter \<open>i\<close> on.\<close>

definition keystream_block :: "bytes \<Rightarrow> bytes \<Rightarrow> nat \<Rightarrow> bytes" where
  "keystream_block k n i = salsa20_spec k (n @ le_enc 8 i)"

definition keystream_from :: "bytes \<Rightarrow> bytes \<Rightarrow> nat \<Rightarrow> nat \<Rightarrow> bytes" where
  "keystream_from k n i len =
     take len (concat (map (keystream_block k n) [i..<i + (len + 63) div 64]))"

definition xsalsa20_keystream :: "bytes \<Rightarrow> bytes \<Rightarrow> nat \<Rightarrow> bytes" where
  "xsalsa20_keystream k n len = keystream_from (hsalsa20_spec k (take 16 n)) (drop 16 n) 0 len"

text \<open>The message that the \<open>m\<close> pointer stands for.\<close>

definition msg_of :: "bytes option \<Rightarrow> nat \<Rightarrow> bytes" where
  "msg_of m len = (case m of None \<Rightarrow> replicate len 0 | Some b \<Rightarrow> take len b)"

section \<open>The rounds\<close>

lemma rotl32_word_rotl:
  assumes "0 < c" and "c < 32"
  shows "rotl32 x c = word_rotl c x"
proof (rule bit_word_eqI)
  fix n assume "n < LENGTH(32)"
  then have n: "n < 32" by simp
  have "c mod 32 = c" using assms by simp
  then have r: "bit (word_rotl c x) n = bit x ((n + (32 - c)) mod 32)"
    using n by (simp only: bit_word_rotl_iff) simp
  have l: "bit (rotl32 x c) n = (c \<le> n \<and> bit x (n - c) \<or> bit x (n + (32 - c)))"
    using n by (simp only: rotl32_def bit_or_iff bit_push_bit_iff bit_drop_bit_eq o_def)
      (auto simp: add.commute)
  show "bit (rotl32 x c) n = bit (word_rotl c x) n"
  proof (cases "n < c")
    case True
    then have "(n + (32 - c)) mod 32 = n + (32 - c)" using assms by simp
    with True show ?thesis by (simp only: l r) simp
  next
    case False
    then have e: "n + (32 - c) = n - c + 32" using assms n by simp
    have "n - c < 32" using n by simp
    then have m: "(n + (32 - c)) mod 32 = n - c"
      unfolding e by (simp only: mod_add_self2 mod_less)
    have b: "\<not> bit x (n + (32 - c))"
      unfolding e using bit_imp_le_length [of x "n - c + 32"] by auto
    show ?thesis
      using False b by (simp only: l r m) simp
  qed
qed

lemma salsa_mix_quarterround:
  "salsa_mix [a, b, c, d] =
     (case quarterround (a, b, c, d) of (z0, z1, z2, z3) \<Rightarrow> [z0, z1, z2, z3])"
  by (simp add: salsa_mix_def Let_def rotl32_word_rotl)

text \<open>One pass of the code's loop is a columnround that stores its result transposed.\<close>

lemma salsa_pass_quads:
  "salsa_pass [x0, x1, x2, x3, x4, x5, x6, x7, x8, x9, x10, x11, x12, x13, x14, x15] =
     (case quarterround (x0, x4, x8, x12) of (y0, y4, y8, y12) \<Rightarrow>
      case quarterround (x5, x9, x13, x1) of (y5, y9, y13, y1) \<Rightarrow>
      case quarterround (x10, x14, x2, x6) of (y10, y14, y2, y6) \<Rightarrow>
      case quarterround (x15, x3, x7, x11) of (y15, y3, y7, y11) \<Rightarrow>
        [y0, y4, y8, y12, y1, y5, y9, y13, y2, y6, y10, y14, y3, y7, y11, y15])"
  by (simp add: salsa_pass_def upt_4 salsa_mix_quarterround replicate_16
      del: quarterround.simps split: prod.splits)

lemma salsa_pass_twice:
  "length x = 16 \<Longrightarrow> salsa_pass (salsa_pass x) = doubleround x"
  by (erule length_16_cases)
    (simp add: salsa_pass_quads doubleround_def del: quarterround.simps split: prod.splits)

lemma rowround_length: "length x = 16 \<Longrightarrow> length (rowround x) = 16"
  by (erule length_16_cases) (simp del: quarterround.simps split: prod.splits)

lemma columnround_length: "length x = 16 \<Longrightarrow> length (columnround x) = 16"
  by (erule length_16_cases) (simp del: quarterround.simps split: prod.splits)

lemma doublerounds_length [len_simps]:
  "length x = 16 \<Longrightarrow> length ((doubleround ^^ n) x) = 16"
  by (induction n) (simp_all add: doubleround_def rowround_length columnround_length)

lemma salsa_core_rounds:
  "length x = 16 \<Longrightarrow> fold (\<lambda>_ x. salsa_pass x) [0..<2 * n] x = (doubleround ^^ n) x"
  by (induction n) (simp_all add: salsa_pass_twice doublerounds_length)

section \<open>Loading and storing words\<close>

lemma push_or_add: "push_bit 8 (u :: u32) OR ucast (b :: u8) = ucast b + 256 * u"
proof -
  have "push_bit 8 u AND ucast b = (0 :: u32)"
    by (rule bit_word_eqI) (auto simp: bit_simps dest: bit_imp_le_length)
  then have "push_bit 8 u + ucast b = push_bit 8 u OR ucast b"
    by (rule disjunctive_add_eq_or)
  then show ?thesis by (simp add: push_bit_eq_mult ac_simps)
qed

lemma load_le32_le_word:
  assumes "4 \<le> length bs"
  shows "load_le32 bs = le_word bs"
proof -
  obtain a b c d es where bs: "bs = a # b # c # d # es"
    using assms by (auto simp: numeral_eq_Suc Suc_le_length_iff)
  show ?thesis
    by (simp add: bs load_le32_def le_word_def Let_def push_or_add algebra_simps)
qed

lemma ucast_drop_bit_u8: "(ucast (drop_bit n (u :: u32)) :: u8) = of_nat (unat u div 2 ^ n)"
  by (rule word_eq_unatI)
    (simp add: unat_drop_bit_eq drop_bit_eq_div [where 'a = nat] unsigned_ucast_eq take_bit_eq_mod)

lemma store_le32_le32: "store_le32 u = le32 u"
proof -
  have "replicate 4 (0::u8) = [0, 0, 0, 0]" by (simp add: numeral_eq_Suc)
  then show ?thesis
    using ucast_drop_bit_u8 [of 0 u] ucast_drop_bit_u8 [of 8 u]
      ucast_drop_bit_u8 [of 16 u] ucast_drop_bit_u8 [of 24 u]
    by (simp add: store_le32_def le32_def upt_4 le_enc_numeral div_mult2_eq [symmetric] del: replicate.simps)
qed

lemma salsa_load_block:
  assumes "length inp = 16" "length k = 32"
  shows "salsa_load inp k sigma = salsa20_block k inp"
  using assms
  by (simp add: salsa_load_def salsa20_block_def upt_4 replicate_16 load_le32_le_word sigma_def)

lemma salsa20_block_length [len_simps]: "length (salsa20_block k n) = 16"
  by (simp add: salsa20_block_def)

section \<open>The core functions compute the specified expansions\<close>

lemma fold_store_words:
  assumes "\<And>i. length (f i) = 4" and "4 * n \<le> length buf"
  shows "fold (\<lambda>i out. memcpy_at (4 * i) (f i) out) [0..<n] buf
       = concat (map f [0..<n]) @ drop (4 * n) buf"
  using assms(2)
proof (induction n)
  case (Suc n)
  have l: "length (concat (map f [0..<n])) = 4 * n"
    by (simp add: length_concat o_def assms(1) sum_list_triv)
  show ?case using Suc l by (simp add: memcpy_at_def assms(1))
qed simp

lemma core_salsa20_spec:
  assumes "length inp = 16" "length k = 32"
  shows "core_salsa20 inp k = salsa20_spec k inp"
proof -
  let ?x = "salsa20_block k inp" and ?z = "(doubleround ^^ 10) (salsa20_block k inp)"
  have r: "fold (\<lambda>_ x. salsa_pass x) [0..<20] ?x = ?z"
    using salsa_core_rounds [of ?x 10] by (simp add: len_simps)
  have "core_salsa20 inp k = concat (map (\<lambda>i. le32 (?z ! i + ?x ! i)) [0..<16])"
    by (simp add: core_salsa20_def salsa_core_def Let_def salsa_load_block assms r store_le32_le32
      fold_store_words )
  also have "map (\<lambda>i. le32 (?z ! i + ?x ! i)) [0..<16] = map le32 (map2 (+) ?x ?z)"
    by (rule nth_equalityI) (simp_all add: len_simps add.commute)
  finally show ?thesis by (simp add: salsa20_spec_def Let_def)
qed

lemma hsalsa_words:
  assumes "length x = 16" "length y = 16"
  shows "fold (\<lambda>i x. x[i := x ! i + y ! i]) [0..<16] x = map2 (+) x (y :: u32 list)"
  using assms(1)
proof (rule length_16_cases)
  fix x0 x1 x2 x3 x4 x5 x6 x7 x8 x9 x10 x11 x12 x13 x14 x15
  assume x: "x = [x0, x1, x2, x3, x4, x5, x6, x7, x8, x9, x10, x11, x12, x13, x14, x15]"
  from assms(2) show ?thesis
    by (rule length_16_cases) (simp add: x upt_16)
qed

lemma core_hsalsa20_spec:
  assumes "length inp = 16" "length k = 32"
  shows "core_hsalsa20 inp k = hsalsa20_spec k inp"
proof -
  let ?x = "salsa20_block k inp" and ?z = "(doubleround ^^ 10) (salsa20_block k inp)"
  have r: "fold (\<lambda>_ x. salsa_pass x) [0..<20] ?x = ?z"
    using salsa_core_rounds [of ?x 10] by (simp add: len_simps)
  have "length ?z = 16" by (simp add: len_simps)
  then obtain x0 x1 x2 x3 x4 x5 x6 x7 x8 x9 x10 x11 x12 x13 x14 x15 where
   z: "?z = [x0, x1, x2, x3, x4, x5, x6, x7, x8, x9, x10, x11, x12, x13, x14, x15]"
    by (rule length_16_cases)
  have ld: "load_le32 (drop n inp) = le_word (drop n inp)" if "n \<le> 12" for n
    using that by (simp add: load_le32_le_word assms)
  have sg: "load_le32 (drop n sigma) = le_word (drop n sigma)" if "n \<le> 12" for n
    using that by (simp add: load_le32_le_word sigma_def)
  have s0: "load_le32 sigma = le_word sigma" "load_le32 inp = le_word inp"
    using sg [of 0] ld [of 0] by simp_all
  show ?thesis
    by (simp add: core_hsalsa20_def salsa_core_def Let_def salsa_load_block assms r)
      (simp add: hsalsa_words len_simps hsalsa20_spec_def Let_def z,
       simp add: salsa20_block_def upt_4 ld sg s0 store_le32_le32, simp add: memcpy_at_def)
qed

section \<open>The stream cipher\<close>

lemma counter_chain:
  assumes "unat u \<le> 1"
  shows "le_val (snd (chain (\<lambda>u b. drop_bit 8 (u + ucast b)) (\<lambda>u b. ucast (u + ucast b))
                        (u :: u32) cs)) = (le_val cs + unat u) mod 256 ^ length cs"
  using assms
proof (induction cs arbitrary: u)
  case (Cons b cs)
  let ?w = "u + ucast b :: u32"
  have "unat u + unat b < 4294967296"
    using Cons.prems unat_u8_less [of b] by linarith
  then have w: "unat ?w = unat u + unat b"
    by (subst unat_add_u32) simp_all
  have d: "unat (drop_bit 8 ?w) = (unat u + unat b) div 256"
    by (simp add: unat_drop_bit_eq w drop_bit_eq_div [where 'a = nat])
  have m: "unat (ucast ?w :: u8) = (unat u + unat b) mod 256"
    by (simp add: unsigned_ucast_eq take_bit_eq_mod w)
  have "unat (drop_bit 8 ?w) \<le> 1"
    using Cons.prems unat_u8_less [of b] by (simp only: d)
  note IH = Cons.IH [OF this]
  have e: "(unat u + unat b) mod 256 + 256 * ((le_val cs + (unat u + unat b) div 256) mod 256 ^ length cs)
      = (unat u + unat b + 256 * le_val cs) mod 256 ^ length (b # cs)"
    by (simp add: mod_mult2_eq)
  show ?case
    using IH e by (simp add: m d chain_Cons ac_simps del: chain.simps)
qed simp

lemma salsa_counter_step_spec:
  assumes "length n = 8"
  shows "salsa_counter_step (n @ le_enc 8 i) = n @ le_enc 8 (Suc i)"
proof -
  let ?f = "\<lambda>(u::u32) (b::u8). drop_bit 8 (u + ucast b)"
    and ?g = "\<lambda>(u::u32) (b::u8). ucast (u + ucast b) :: u8"
  let ?c = "snd (chain ?f ?g (1::u32) (le_enc 8 i))"
  have "salsa_counter_step (n @ le_enc 8 i) = n @ ?c"
    using fold_chain_segment [of ?f ?g n "le_enc 8 i" 1 "[]"] assms
    by (simp add: salsa_counter_step_def Let_def split: prod.splits del: upt_rec_numeral)
  moreover have "le_val ?c = Suc i mod 256 ^ 8"
    by (simp add: counter_chain le_val_enc mod_simps)
  then have "?c = le_enc 8 (Suc i)"
    by (metis chain_length le_enc_length le_enc_mod le_enc_val)
  ultimately show ?thesis by simp
qed

lemma salsa20_spec_length [len_simps]: "length (salsa20_spec k n) = 64"
  by (simp add: salsa20_spec_def Let_def length_concat o_def sum_list_triv len_simps)

lemma hsalsa20_spec_length [len_simps]: "length (hsalsa20_spec k n) = 32"
  by (simp add: hsalsa20_spec_def Let_def)

lemma keystream_block_length [len_simps]: "length (keystream_block k n i) = 64"
  by (simp add: keystream_block_def len_simps)

lemma keystream_blocks_length:
  "length (concat (map (keystream_block k n) is)) = 64 * length is"
  by (simp add: length_concat o_def sum_list_triv len_simps)

lemma keystream_from_length [len_simps]: "length (keystream_from k n i len) = len"
proof -
  have "len \<le> 64 * ((len + 63) div 64)" by linarith
  then show ?thesis by (simp add: keystream_from_def keystream_blocks_length)
qed

lemma keystream_from_0 [simp]: "keystream_from k n i 0 = []"
  by (simp add: keystream_from_def)

lemma keystream_from_step:
  assumes "64 \<le> len"
  shows "keystream_from k n i len = keystream_block k n i @ keystream_from k n (Suc i) (len - 64)"
proof -
  have d: "(len + 63) div 64 = Suc ((len - 64 + 63) div 64)" using assms by linarith
  show ?thesis
    using assms unfolding keystream_from_def d by (simp add: upt_conv_Cons len_simps del: upt_Suc)
qed

lemma keystream_from_short:
  assumes "0 < len" "len < 64"
  shows "keystream_from k n i len = take len (keystream_block k n i)"
proof -
  have "(len + 63) div 64 = 1" using assms by linarith
  then show ?thesis by (simp add: keystream_from_def)
qed

lemma keystream_from_take:
  "l \<le> len \<Longrightarrow> take l (keystream_from k n i len) = keystream_from k n i l"
proof (induction len arbitrary: i l rule: less_induct)
  case (less len)
  consider "64 \<le> l" | "l = 0" | "0 < l" "l < 64" by linarith
  then show ?case
  proof cases
    case 1
    with less.prems have "take (l - 64) (keystream_from k n (Suc i) (len - 64)) =
        keystream_from k n (Suc i) (l - 64)" by (intro less.IH) auto
    with 1 less.prems show ?thesis by (simp add: keystream_from_step len_simps)
  next
    case 3
    with less.prems show ?thesis
      by (cases "64 \<le> len") (simp_all add: keystream_from_step keystream_from_short len_simps)
  qed simp
qed

lemma msg_of_block:
  assumes "case m of None \<Rightarrow> True | Some b \<Rightarrow> len \<le> length b" and "length x = 64" and "len \<le> 64"
  shows "map (\<lambda>i. msg_byte m i XOR x ! i) [0..<len] = xor_bytes (msg_of m len) (take len x)"
  using assms by (intro nth_equalityI) (auto simp: msg_of_def msg_byte_def xor_bytes_nth split: option.splits)

lemma msg_of_split:
  "64 \<le> len \<Longrightarrow> msg_of m len = msg_of m 64 @ msg_of (map_option (drop 64) m) (len - 64)"
  by (cases m) (simp_all add: msg_of_def replicate_add [symmetric] take_add [symmetric])

lemma stream_salsa20_loop_spec:
  assumes "length n = 8" and "length k = 32"
    and "case m of None \<Rightarrow> True | Some b \<Rightarrow> len \<le> length b"
  shows "stream_salsa20_loop m len (n @ le_enc 8 i) k =
           xor_bytes (msg_of m len) (keystream_from k n i len)"
  using assms(3)
proof (induction len arbitrary: m i rule: less_induct)
  case (less len)
  let ?x = "core_salsa20 (n @ le_enc 8 i) k"
  have x: "?x = keystream_block k n i"
    using assms by (simp add: core_salsa20_spec keystream_block_def)
  then have lx: "length ?x = 64" by (simp add: len_simps)
  have l64: "length (msg_of m 64) = 64" if "64 \<le> len"
    using less.prems that by (cases m) (simp_all add: msg_of_def)
  consider "64 \<le> len" | "len = 0" | "0 < len" "len < 64" by linarith
  then show ?case
  proof cases
    case 1
    have p: "case m of None \<Rightarrow> True | Some b \<Rightarrow> 64 \<le> length b"
      using less.prems 1 by (auto split: option.splits)
    have "stream_salsa20_loop (map_option (drop 64) m) (len - 64) (n @ le_enc 8 (Suc i)) k =
        xor_bytes (msg_of (map_option (drop 64) m) (len - 64)) (keystream_from k n (Suc i) (len - 64))"
      using 1 less.prems by (intro less.IH) (auto split: option.splits)
    then show ?thesis
      using 1 l64 lx msg_of_block [OF p lx order_refl]
      by (subst stream_salsa20_loop.simps)
        (simp add: Let_def salsa_counter_step_spec assms msg_of_split [OF 1, of m]
          keystream_from_step [OF 1] xor_bytes_append len_simps x
          del: upt_rec_numeral)
  next
    case 2
    then show ?thesis by (subst stream_salsa20_loop.simps) simp
  next
    case 3
    then show ?thesis
      using msg_of_block [OF less.prems lx]
      by (subst stream_salsa20_loop.simps) (simp add: x keystream_from_short)
  qed
qed

lemma xsalsa20_xor_spec:
  assumes "length n = 24" and "length k = 32"
    and "case m of None \<Rightarrow> True | Some b \<Rightarrow> len \<le> length b"
  shows "xsalsa20_xor m len n k = xor_bytes (msg_of m len) (xsalsa20_keystream k n len)"
proof -
  have z: "memcpy_at 0 (drop 16 n) (replicate 16 0) = drop 16 n @ le_enc 8 0"
    using assms(1) by (simp add: memcpy_at_def le_enc_0)
  show ?thesis
    using stream_salsa20_loop_spec [where n = "drop 16 n" and k = "hsalsa20_spec k (take 16 n)"
        and m = m and len = len and i = 0] assms
    by (simp add: xsalsa20_xor_def stream_salsa20_xor_def z core_hsalsa20_spec
        xsalsa20_keystream_def len_simps)
qed

section \<open>Properties\<close>

text \<open>
  C18: the in-place core loop computes the published functions: \<open>core_salsa20\<close> is the Salsa20
  hash of the input block, \<open>core_hsalsa20\<close> is HSalsa20 (the rotated, transposed passes are ten
  double rounds, and subtracting constants and input leaves the round output), and the key
  derivation is HSalsa20 of the Diffie-Hellman result at the zero input.
\<close>

theorem salsa20_core_correct:
  assumes "length inp = 16" "length k = 32"
  shows "core_salsa20 inp k = salsa20_spec k inp \<and> core_hsalsa20 inp k = hsalsa20_spec k inp \<and>
         nuki_crypto_kdf1 k = hsalsa20_spec k (replicate 16 0)"
  using assms by (simp add: core_salsa20_spec core_hsalsa20_spec nuki_crypto_kdf1_def)

theorem salsa20_core_correct_witness:
  "core_salsa20 (replicate 16 1) (replicate 32 2) = salsa20_spec (replicate 32 2) (replicate 16 1)"
  using salsa20_core_correct [of "replicate 16 1" "replicate 32 2"] by simp

text \<open>
  C19: \<open>xsalsa20_xor\<close> is exclusive or with the XSalsa20 keystream, for every length and across
  block boundaries; the NULL message yields the keystream itself. The byte-wise carry of the
  64-bit block counter is the increment of its little-endian value.
\<close>

theorem xsalsa20_stream_correct:
  assumes "length n = 24" and "length k = 32" and "case m of None \<Rightarrow> True | Some b \<Rightarrow> len \<le> length b"
  shows "xsalsa20_xor m len n k =
           xor_bytes (case m of None \<Rightarrow> replicate len 0 | Some b \<Rightarrow> take len b) (xsalsa20_keystream k n len)"
  using xsalsa20_xor_spec [OF assms] by (simp add: msg_of_def)

theorem xsalsa20_stream_correct_witness:
  "xsalsa20_xor (Some (replicate 100 7)) 70 (replicate 24 1) (replicate 32 2) =
     xor_bytes (replicate 70 7) (xsalsa20_keystream (replicate 32 2) (replicate 24 1) 70)"
  using xsalsa20_stream_correct [of "replicate 24 1" "replicate 32 2" 70 "Some (replicate 100 7)"] by simp

end
