(* ===== verification/Nuki_Poly1305.thy ===== *)
theory Nuki_Poly1305
  imports Nuki_Prelude
begin

text \<open>
  The Poly1305 part of \<open>src/src/nuki_crypto.c\<close> (lines 162 to 267): the one-time authenticator over
  seventeen 32-bit limbs of eight bits each, with the C arithmetic kept at its width, and the
  constant-time comparison of tags.

  The reference side is the mathematical definition: the accumulator is a polynomial in the
  clamped \<open>r\<close> over the blocks modulo \<open>2 ^ 130 - 5\<close>, the tag is the accumulator plus \<open>s\<close>
  modulo \<open>2 ^ 128\<close>. The limb value \<open>limbs_val\<close> relates the two; the lemmas below bound every
  intermediate limb so that no 32-bit operation of the code wraps.
\<close>

section \<open>The code\<close>

definition add1305 :: "u32 list \<Rightarrow> u32 list \<Rightarrow> u32 list" where
  "add1305 h c =
     snd (fold (\<lambda>j (u, h). let u = u + (h ! j + c ! j) in (drop_bit 8 u, h[j := u AND 255]))
            [0..<17] (0, h))"

definition minusp :: "u32 list" where
  "minusp = [5, 0, 0, 0, 0, 0, 0, 0, 0, 0, 0, 0, 0, 0, 0, 0, 252]"

text \<open>Lines 187 to 199: the clamped multiplier as seventeen limbs.\<close>

definition poly1305_r :: "bytes \<Rightarrow> u32 list" where
  "poly1305_r k =
     (let r = replicate 17 0;
          r = fold (\<lambda>j r. r[j := ucast (k ! j)]) [0..<16] r;
          r = r[3 := r ! 3 AND 15]; r = r[4 := r ! 4 AND 252];
          r = r[7 := r ! 7 AND 15]; r = r[8 := r ! 8 AND 252];
          r = r[11 := r ! 11 AND 15]; r = r[12 := r ! 12 AND 252]
      in r[15 := r ! 15 AND 15])"

text \<open>Lines 202 to 208: the next block, at most sixteen bytes, with the end marker.\<close>

definition poly1305_block :: "bytes \<Rightarrow> u32 list" where
  "poly1305_block m =
     (let j = min 16 (length m);
          c = fold (\<lambda>i c. c[i := ucast (m ! i)]) [0..<j] (replicate 17 0)
      in c[j := 1])"

text \<open>Lines 212 to 220: the product with the wrapped-around coefficients folded by 320.\<close>

definition poly1305_mul :: "u32 list \<Rightarrow> u32 list \<Rightarrow> u32 list" where
  "poly1305_mul h r =
     map (\<lambda>i. fold (\<lambda>j x. x + h ! j * (if j \<le> i then r ! (i - j) else 320 * r ! (i + 17 - j)))
                [0..<17] 0)
       [0..<17]"

text \<open>One carry pass over the low sixteen limbs (lines 221 to 227 and 231 to 235).\<close>

definition poly1305_carry :: "u32 \<Rightarrow> u32 list \<Rightarrow> u32 \<times> u32 list" where
  "poly1305_carry u h =
     fold (\<lambda>j (u, h). let u = u + h ! j in (drop_bit 8 u, h[j := u AND 255])) [0..<16] (u, h)"

text \<open>Lines 221 to 237: partial reduction modulo \<open>2 ^ 130 - 5\<close>.\<close>

definition poly1305_squeeze :: "u32 list \<Rightarrow> u32 list" where
  "poly1305_squeeze h =
     (let (u, h) = poly1305_carry 0 h;
          u = u + h ! 16;
          h = h[16 := u AND 3];
          u = 5 * drop_bit 2 u;
          (u, h) = poly1305_carry u h;
          u = u + h ! 16
      in h[16 := u])"

function poly1305_loop :: "u32 list \<Rightarrow> bytes \<Rightarrow> u32 list \<Rightarrow> u32 list" where
  "poly1305_loop r m h =
     (if 0 < length m then
        poly1305_loop r (drop (min 16 (length m)) m)
          (poly1305_squeeze (poly1305_mul (add1305 h (poly1305_block m)) r))
      else h)"
  by pat_completeness auto
termination
  by (relation "measure (\<lambda>(r, m, h). length m)") auto

declare poly1305_loop.simps [simp del]

text \<open>Lines 240 to 247: subtract the prime once if the accumulator is not below it.\<close>

definition poly1305_freeze :: "u32 list \<Rightarrow> u32 list" where
  "poly1305_freeze h =
     (let g = h;
          h = add1305 h minusp;
          s = - drop_bit 7 (h ! 16)
      in fold (\<lambda>j h. h[j := h ! j XOR (s AND (g ! j XOR h ! j))]) [0..<17] h)"

definition poly1305 :: "bytes \<Rightarrow> bytes \<Rightarrow> bytes" where
  "poly1305 m k =
     (let h = poly1305_loop (poly1305_r k) m (replicate 17 0);
          h = poly1305_freeze h;
          c = fold (\<lambda>j c. c[j := ucast (k ! (j + 16))]) [0..<16] (replicate 17 0);
          c = c[16 := 0];
          h = add1305 h c
      in map (\<lambda>j. ucast (h ! j)) [0..<16])"

definition constant_time_eq16 :: "bytes \<Rightarrow> bytes \<Rightarrow> bool" where
  "constant_time_eq16 x y =
     (fold (\<lambda>i d. d OR (ucast (x ! i) XOR ucast (y ! i))) [0..<16] (0 :: u32) = 0)"

section \<open>The mathematical definition\<close>

definition P1305 :: nat where
  "P1305 = 2 ^ 130 - 5"

text \<open>The clamped multiplier: the low half of the key with 22 bits cleared.\<close>

definition poly1305_clamp :: "bytes \<Rightarrow> nat" where
  "poly1305_clamp k = (le_val (take 16 k)) AND 0x0ffffffc0ffffffc0ffffffc0fffffff"

function poly1305_acc :: "nat \<Rightarrow> bytes \<Rightarrow> nat \<Rightarrow> nat" where
  "poly1305_acc r m a =
     (if m = [] then a
      else poly1305_acc r (drop 16 m) ((a + le_val (take 16 m @ [1])) * r mod P1305))"
  by pat_completeness auto
termination
  by (relation "measure (\<lambda>(r, m, a). length m)") auto

declare poly1305_acc.simps [simp del]

definition poly1305_spec :: "bytes \<Rightarrow> bytes \<Rightarrow> bytes" where
  "poly1305_spec m k =
     le_enc 16 (poly1305_acc (poly1305_clamp k) m 0 + le_val (take 16 (drop 16 k)))"

primrec limbs_val :: "u32 list \<Rightarrow> nat" where
  "limbs_val [] = 0"
| "limbs_val (x # xs) = unat x + 256 * limbs_val xs"

abbreviation small_limbs :: "u32 list \<Rightarrow> bool" where
  "small_limbs h \<equiv> \<forall>x \<in> set h. unat x < 256"

text \<open>The common carry step: keep eight bits, pass on the rest.\<close>

abbreviation carry_chain :: "u32 \<Rightarrow> u32 list \<Rightarrow> u32 \<times> u32 list" where
  "carry_chain \<equiv> chain (\<lambda>u x. drop_bit 8 (u + x)) (\<lambda>u x. (u + x) AND 255)"

text \<open>The coefficient that \<open>h ! j\<close> meets in the \<open>i\<close>-th limb of the product.\<close>

definition mul_coeff :: "(nat \<Rightarrow> nat) \<Rightarrow> nat \<Rightarrow> nat \<Rightarrow> nat" where
  "mul_coeff R i j = (if j \<le> i then R (i - j) else 320 * R (i + 17 - j))"

text \<open>Clamping, byte by byte.\<close>

definition clamp_mask :: bytes where
  "clamp_mask = [255, 255, 255, 15, 252, 255, 255, 15, 252, 255, 255, 15, 252, 255, 255, 15]"

text \<open>The invariant of the block loop on the accumulator.\<close>

definition acc_ok :: "u32 list \<Rightarrow> bool" where
  "acc_ok h \<longleftrightarrow> length h = 17 \<and> small_limbs h \<and> limbs_val h < 5 * 2 ^ 128"

section \<open>Limb arithmetic\<close>

lemma limbs_val_append: "limbs_val (xs @ ys) = limbs_val xs + 256 ^ length xs * limbs_val ys"
  by (induction xs) (simp_all add: algebra_simps)

lemma limbs_val_replicate_0 [simp]: "limbs_val (replicate n 0) = 0"
  by (induction n) auto

lemma limbs_val_bytes: "limbs_val (map ucast (bs :: bytes)) = le_val bs"
  by (induction bs) auto

lemma limbs_val_less: "small_limbs h \<Longrightarrow> limbs_val h < 256 ^ length h"
proof (induction h)
  case (Cons x h)
  then have "unat x < 256" and "Suc (limbs_val h) \<le> 256 ^ length h" by auto
  then show ?case by (simp only: limbs_val.simps length_Cons power_Suc)
qed simp

lemma small_limbs_bytes: "small_limbs h \<Longrightarrow> limbs_val h = le_val (map ucast h)"
  by (induction h) (simp_all add: unsigned_ucast_eq take_bit_eq_mod)

lemma unat_and_255: "unat (u AND 255 :: u32) = unat u mod 256"
proof -
  have "u AND 255 = take_bit 8 u" by (simp add: take_bit_eq_mask mask_eq_exp_minus_1)
  then have "unat (u AND 255) = take_bit 8 (unat u)" by (simp only: unsigned_take_bit_eq)
  then show ?thesis by (simp add: take_bit_eq_mod)
qed

lemma unat_and_3: "unat (u AND 3 :: u32) = unat u mod 4"
proof -
  have "u AND 3 = take_bit 2 u" by (simp add: take_bit_eq_mask mask_eq_exp_minus_1)
  then have "unat (u AND 3) = take_bit 2 (unat u)" by (simp only: unsigned_take_bit_eq)
  then show ?thesis by (simp add: take_bit_eq_mod)
qed

lemma carry_chain_val:
  assumes "\<forall>x \<in> set xs. unat x < 2 ^ 31" and "unat u < 2 ^ 31"
  shows "limbs_val (snd (carry_chain u xs)) + 256 ^ length xs * unat (fst (carry_chain u xs))
           = limbs_val xs + unat u
       \<and> small_limbs (snd (carry_chain u xs)) \<and> unat (fst (carry_chain u xs)) < 2 ^ 31"
  using assms
proof (induction xs arbitrary: u)
  case (Cons x xs)
  let ?v = "drop_bit 8 (u + x)"
  have "unat (u + x) = unat u + unat x"
    using Cons.prems by (intro unat_add_u32) simp
  then have d: "unat ?v = (unat u + unat x) div 256"
    and m: "unat ((u + x) AND 255) = (unat u + unat x) mod 256"
    by (simp_all add: unat_drop_bit_eq drop_bit_eq_div [where 'a = nat] unat_and_255)
  have "unat x < 2147483648" and "unat u < 2147483648" using Cons.prems by simp_all
  then have "unat ?v < 2 ^ 31" unfolding d by simp
  with Cons have IH: "limbs_val (snd (carry_chain ?v xs)) + 256 ^ length xs * unat (fst (carry_chain ?v xs))
           = limbs_val xs + unat ?v"
       "small_limbs (snd (carry_chain ?v xs))" "unat (fst (carry_chain ?v xs)) < 2 ^ 31"
    by simp_all
  have "256 * (limbs_val (snd (carry_chain ?v xs)) + 256 ^ length xs * unat (fst (carry_chain ?v xs)))
     = 256 * limbs_val xs + 256 * ((unat u + unat x) div 256)"
    using IH(1) by (simp add: d)
  moreover have "256 * ((unat u + unat x) div 256) + (unat u + unat x) mod 256 = unat u + unat x"
    by simp
  ultimately show ?case
    using IH(2,3) by (simp add: chain_Cons m algebra_simps del: chain.simps)
qed simp

lemma limbs_val_map2_add:
  assumes "length h = length c" "\<forall>x \<in> set h. unat x < 2 ^ 30" "\<forall>x \<in> set c. unat x < 2 ^ 30"
  shows "limbs_val (map2 (+) h c) = limbs_val h + limbs_val c \<and> (\<forall>x \<in> set (map2 (+) h c). unat x < 2 ^ 31)"
  using assms
  by (induction h c rule: list_induct2) (simp_all add: unat_add_u32)

lemma add1305_chain:
  assumes "length h = 17" "length c = 17"
  shows "add1305 h c = snd (carry_chain 0 (map2 (+) h c))"
  using fold_chain_zip [OF assms, where f = "\<lambda>u x y. drop_bit 8 (u + (x + y))"
      and g = "\<lambda>u x y. (u + (x + y)) AND 255" and u = 0]
  by (simp add: add1305_def Let_def chain_map case_prod_beta' del: upt_rec_numeral)

lemma add1305_spec:
  assumes "length h = 17" "length c = 17" "\<forall>x \<in> set h. unat x < 2 ^ 30" "\<forall>x \<in> set c. unat x < 2 ^ 30"
  shows "length (add1305 h c) = 17" "small_limbs (add1305 h c)"
    "limbs_val (add1305 h c) = (limbs_val h + limbs_val c) mod 256 ^ 17"
proof -
  let ?s = "map2 (+) h c"
  have s: "limbs_val ?s = limbs_val h + limbs_val c" "\<forall>x \<in> set ?s. unat x < 2 ^ 31"
    using limbs_val_map2_add [of h c] assms by simp_all
  have e: "add1305 h c = snd (carry_chain 0 ?s)" by (rule add1305_chain [OF assms(1,2)])
  show l: "length (add1305 h c) = 17" using assms by (simp add: e)
  have v: "limbs_val (add1305 h c) + 256 ^ 17 * unat (fst (carry_chain 0 ?s)) = limbs_val h + limbs_val c"
    and small: "small_limbs (add1305 h c)"
    using carry_chain_val [OF s(2), of 0] s(1) assms(1,2) unfolding e by auto
  show "small_limbs (add1305 h c)" by (rule small)
  have "limbs_val (add1305 h c) < 256 ^ 17" using limbs_val_less [OF small] l by simp
  then show "limbs_val (add1305 h c) = (limbs_val h + limbs_val c) mod 256 ^ 17"
    unfolding v [symmetric] by simp
qed

lemma limbs_val_sum: "limbs_val xs = (\<Sum>i < length xs. unat (xs ! i) * 256 ^ i)"
proof (induction xs)
  case (Cons x xs)
  then show ?case
    by (simp add: sum.lessThan_Suc_shift sum_distrib_left ac_simps del: sum.lessThan_Suc)
qed simp


subsection \<open>The product\<close>

lemma unat_sum_fold:
  assumes "\<And>j. j < n \<Longrightarrow> unat (t j :: u32) \<le> b" and "n * b < 2 ^ 32"
  shows "unat (fold (\<lambda>j x. x + t j) [0..<n] 0) = (\<Sum>j < n. unat (t j))
       \<and> (\<Sum>j < n. unat (t j)) \<le> n * b"
  using assms
proof (induction n)
  case (Suc n)
  then have IH: "unat (fold (\<lambda>j x. x + t j) [0..<n] 0) = (\<Sum>j < n. unat (t j))"
    "(\<Sum>j < n. unat (t j)) \<le> n * b" by simp_all
  have b: "unat (t n) \<le> b" using Suc.prems by simp
  show ?case using IH b Suc.prems(2) by (simp add: unat_add_u32)
qed simp

lemma mul_coeff_row:
  assumes "j < 17"
  shows "(\<Sum>i < 17. mul_coeff R i j * 256 ^ i) + 64 * P1305 * (\<Sum>i < j. R (i + 17 - j) * 256 ^ i)
       = 256 ^ j * (\<Sum>k < 17. R k * 256 ^ k)"
proof -
  have s: "(\<Sum>i < 17. mul_coeff R i j * 256 ^ i)
      = (\<Sum>i < j. mul_coeff R i j * 256 ^ i) + (\<Sum>i = j..<17. mul_coeff R i j * 256 ^ i)"
    using assms by (simp add: sum.atLeastLessThan_concat lessThan_atLeast0)
  have hi: "(\<Sum>i = j..<17. mul_coeff R i j * 256 ^ i) = (\<Sum>k < 17 - j. R k * 256 ^ (j + k))"
    using assms by (intro sum.reindex_bij_witness [of _ "\<lambda>k. k + j" "\<lambda>i. i - j"])
      (auto simp: mul_coeff_def)
  have lo: "(\<Sum>i < j. mul_coeff R i j * 256 ^ i) = 320 * (\<Sum>i < j. R (i + 17 - j) * 256 ^ i)"
    by (simp add: mul_coeff_def sum_distrib_left ac_simps)
  have wrap: "256 ^ 17 * (\<Sum>i < j. R (i + 17 - j) * 256 ^ i) = (\<Sum>k = 17 - j..<17. R k * 256 ^ (j + k))"
    unfolding sum_distrib_left
    using assms by (intro sum.reindex_bij_witness [of _ "\<lambda>k. k + j - 17" "\<lambda>i. i + 17 - j"])
      (auto simp: algebra_simps, simp add: power_add)
  have p: "320 + 64 * P1305 = 256 ^ 17" by (simp add: P1305_def)
  have "320 * (\<Sum>i < j. R (i + 17 - j) * 256 ^ i) + 64 * P1305 * (\<Sum>i < j. R (i + 17 - j) * 256 ^ i)
     = (\<Sum>k = 17 - j..<17. R k * 256 ^ (j + k))"
    unfolding wrap [symmetric] p [symmetric] by (simp add: algebra_simps)
  moreover have "(\<Sum>k < 17 - j. R k * 256 ^ (j + k)) + (\<Sum>k = 17 - j..<17. R k * 256 ^ (j + k))
     = (\<Sum>k < 17. R k * 256 ^ (j + k))"
    by (simp add: sum.atLeastLessThan_concat lessThan_atLeast0)
  moreover have "(\<Sum>k < 17. R k * 256 ^ (j + k)) = 256 ^ j * (\<Sum>k < 17. R k * 256 ^ k)"
    by (simp only: sum_distrib_left power_add) (simp only: ac_simps)
  ultimately show ?thesis unfolding s hi lo by simp
qed

lemma mul_coeff_mod:
  "(\<Sum>i < 17. (\<Sum>j < 17. H j * mul_coeff R i j) * 256 ^ i) mod P1305
   = (\<Sum>j < 17. H j * 256 ^ j) * (\<Sum>k < 17. R k * 256 ^ k) mod P1305"
proof -
  let ?q = "\<lambda>j. \<Sum>i < j. R (i + 17 - j) * 256 ^ i"
  have "(\<Sum>i < 17. (\<Sum>j < 17. H j * mul_coeff R i j) * 256 ^ i)
      = (\<Sum>j < 17. H j * (\<Sum>i < 17. mul_coeff R i j * 256 ^ i))"
    unfolding sum_distrib_right sum_distrib_left
    by (subst sum.swap) (simp only: ac_simps)
  moreover have "(\<Sum>j < 17. H j * 256 ^ j) * (\<Sum>k < 17. R k * 256 ^ k)
      = (\<Sum>j < 17. H j * (\<Sum>i < 17. mul_coeff R i j * 256 ^ i) + P1305 * (64 * (H j * ?q j)))"
    unfolding sum_distrib_right
  proof (rule sum.cong)
    fix j :: nat assume "j \<in> {..<17}"
    then have "H j * 256 ^ j * (\<Sum>k < 17. R k * 256 ^ k) =
      H j * ((\<Sum>i < 17. mul_coeff R i j * 256 ^ i) + 64 * P1305 * ?q j)"
      by (subst mul_coeff_row) (simp_all only: lessThan_iff mult.assoc)
    then show "H j * 256 ^ j * (\<Sum>k < 17. R k * 256 ^ k) =
      H j * (\<Sum>i < 17. mul_coeff R i j * 256 ^ i) + P1305 * (64 * (H j * ?q j))"
      by (simp only: algebra_simps)
  qed (rule refl)
  ultimately show ?thesis by (simp only: sum.distrib sum_distrib_left [symmetric] mod_mult_self2)
qed

lemma poly1305_mul_spec:
  assumes "length h = 17" "length r = 17" "small_limbs h" "small_limbs r"
  shows "length (poly1305_mul h r) = 17"
    "\<forall>x \<in> set (poly1305_mul h r). unat x \<le> 353736000"
    "limbs_val (poly1305_mul h r) mod P1305 = limbs_val h * limbs_val r mod P1305"
proof -
  let ?H = "\<lambda>j. unat (h ! j)" and ?R = "\<lambda>k. unat (r ! k)"
  let ?t = "\<lambda>i j. h ! j * (if j \<le> i then r ! (i - j) else 320 * r ! (i + 17 - j))"
  have H: "?H j \<le> 255" if "j < 17" for j
    using assms(1,3) that nth_mem [of j h] by fastforce
  have R: "?R j \<le> 255" if "j < 17" for j
    using assms(2,4) that nth_mem [of j r] by fastforce
  have t: "unat (?t i j) = ?H j * mul_coeff ?R i j \<and> unat (?t i j) \<le> 20808000"
    if i: "i < 17" and j: "j < 17" for i j
  proof -
    let ?c = "if j \<le> i then r ! (i - j) else 320 * r ! (i + 17 - j)"
    have c: "unat ?c = mul_coeff ?R i j \<and> mul_coeff ?R i j \<le> 320 * 255"
    proof (cases "j \<le> i")
      case True
      moreover have "?R (i - j) \<le> 255" using i by (intro R) simp
      ultimately show ?thesis by (simp add: mul_coeff_def)
    next
      case False
      moreover have "?R (i + 17 - j) \<le> 255" using False j by (intro R) simp
      ultimately show ?thesis by (simp add: mul_coeff_def unat_word_ariths(2))
    qed
    have "?H j * mul_coeff ?R i j \<le> 255 * (320 * 255)"
      using H [OF j] c by (intro mult_le_mono) simp_all
    then show ?thesis using c by (simp add: unat_word_ariths(2))
  qed
  show l: "length (poly1305_mul h r) = 17" by (simp add: poly1305_mul_def del: upt_rec_numeral)
  have x: "unat (poly1305_mul h r ! i) = (\<Sum>j < 17. ?H j * mul_coeff ?R i j)
      \<and> unat (poly1305_mul h r ! i) \<le> 353736000" if i: "i < 17" for i
  proof -
    have "poly1305_mul h r ! i = fold (\<lambda>j x. x + ?t i j) [0..<17] 0"
      using i by (simp add: poly1305_mul_def del: upt_rec_numeral cong: if_cong)
    moreover have "(\<Sum>j < 17. unat (?t i j)) = (\<Sum>j < 17. ?H j * mul_coeff ?R i j)"
      using t [OF i] by (intro sum.cong) simp_all
    moreover have "unat (?t i j) \<le> 20808000" if "j < 17" for j
      using t [OF i that] by (rule conjunct2)
    then have "unat (fold (\<lambda>j x. x + ?t i j) [0..<17] 0) = (\<Sum>j < 17. unat (?t i j))
        \<and> (\<Sum>j < 17. unat (?t i j)) \<le> 17 * 20808000"
      by (rule unat_sum_fold) simp_all
    ultimately show ?thesis by (simp only:) simp
  qed
  show "\<forall>x \<in> set (poly1305_mul h r). unat x \<le> 353736000"
  proof
    fix y assume "y \<in> set (poly1305_mul h r)"
    then obtain i where "i < 17" "y = poly1305_mul h r ! i" using l by (auto simp: in_set_conv_nth)
    then show "unat y \<le> 353736000" using x [THEN conjunct2] by simp
  qed
  have "limbs_val (poly1305_mul h r) = (\<Sum>i < 17. (\<Sum>j < 17. ?H j * mul_coeff ?R i j) * 256 ^ i)"
    using x by (simp add: limbs_val_sum l)
  then show "limbs_val (poly1305_mul h r) mod P1305 = limbs_val h * limbs_val r mod P1305"
    by (simp only: mul_coeff_mod limbs_val_sum assms(1,2))
qed


subsection \<open>Carrying and partial reduction\<close>

lemma poly1305_carry_chain:
  assumes "length lo = 16"
  shows "poly1305_carry u (lo @ hi) = (case carry_chain u lo of (v, ys) \<Rightarrow> (v, ys @ hi))"
  using fold_chain_prefix [OF assms, where f = "\<lambda>u x. drop_bit 8 (u + x)" and g = "\<lambda>u x. (u + x) AND 255"
     and u = u and q = hi]
  by (simp add: poly1305_carry_def Let_def del: upt_rec_numeral)

lemma length_17_split:
  assumes "length h = 17"
  obtains lo t where "h = lo @ [t]" "length lo = 16"
  using assms by (cases h rule: rev_cases) auto

lemma carry_out_less: "unat u < 2 ^ 24 \<Longrightarrow> unat (fst (carry_chain u xs)) < 2 ^ 24"
proof (induction xs arbitrary: u)
  case (Cons x xs)
  have "unat (drop_bit 8 (u + x)) < 2 ^ 24"
    using unsigned_less [where w = "u + x"]
    by (simp add: unat_drop_bit_eq drop_bit_eq_div [where 'a = nat] div_less_iff_less_mult)
  then show ?case using Cons.IH by (simp only: chain_Cons)
qed simp

lemma poly1305_squeeze_spec:
  assumes "length h = 17" "\<forall>x \<in> set h. unat x \<le> 353736000"
  shows "length (poly1305_squeeze h) = 17" "small_limbs (poly1305_squeeze h)"
    "limbs_val (poly1305_squeeze h) < 5 * 2 ^ 128"
    "limbs_val (poly1305_squeeze h) mod P1305 = limbs_val h mod P1305"
proof -
  obtain lo t where h: "h = lo @ [t]" and lo: "length lo = 16"
    using assms(1) by (rule length_17_split)
  obtain u1 l1 where c1: "carry_chain 0 lo = (u1, l1)" by fastforce
  let ?u2 = "u1 + t"
  let ?u3 = "5 * drop_bit 2 ?u2"
  have b: "\<forall>x \<in> set lo. unat x < 2 ^ 31" "unat t \<le> 353736000" using assms(2) h by auto
  have v1: "limbs_val l1 + 2 ^ 128 * unat u1 = limbs_val lo" and s1: "small_limbs l1"
    using carry_chain_val [OF b(1), of 0] by (simp_all add: c1 lo)
  have l1: "length l1 = 16" using chain_length [of _ _ 0 lo] c1 lo by (metis snd_conv)
  have u1: "unat u1 < 2 ^ 24" using carry_out_less [of 0 lo] c1 by simp
  have u2: "unat ?u2 = unat u1 + unat t" using u1 b(2) by (intro unat_add_u32) simp
  have u3: "unat ?u3 = 5 * (unat ?u2 div 4)" 
    using u1 b(2) u2 by (simp add: unat_word_ariths(2) unat_drop_bit_eq drop_bit_eq_div [where 'a = nat])
  obtain u4 l4 where c4: "carry_chain ?u3 l1 = (u4, l4)" by fastforce
  have s1': "\<forall>x \<in> set l1. unat x < 2 ^ 31" using s1 by auto
  have "unat ?u3 < 2 ^ 31" using u1 b(2) u2 unfolding u3 by simp
  then have v4: "limbs_val l4 + 2 ^ 128 * unat u4 = limbs_val l1 + unat ?u3" and s4: "small_limbs l4"
    using carry_chain_val [OF s1', of ?u3] by (simp_all add: c4 l1)
  have l4: "length l4 = 16" using chain_length [of _ _ ?u3 l1] c4 l1 by (metis snd_conv)
  have "limbs_val l1 < 2 ^ 128" using limbs_val_less [OF s1] l1 by simp
  then have "2 ^ 128 * unat u4 < 2 ^ 128 * 2" using v4 \<open>unat ?u3 < 2 ^ 31\<close> by simp
  then have u4: "unat u4 \<le> 1" by simp
  have u5: "unat (u4 + (?u2 AND 3)) = unat u4 + unat ?u2 mod 4"
    using u4 by (subst unat_add_u32) (simp_all add: unat_and_3)
  have sq: "poly1305_squeeze h = l4 @ [u4 + (?u2 AND 3)]"
    by (simp add: poly1305_squeeze_def Let_def h poly1305_carry_chain lo l1 l4 c1 c4 nth_append list_update_append)
  show "length (poly1305_squeeze h) = 17" by (simp add: sq l4)
  show "small_limbs (poly1305_squeeze h)" using s4 u4 by (auto simp: sq u5)
  have val: "limbs_val (poly1305_squeeze h) = limbs_val l4 + 2 ^ 128 * (unat u4 + unat ?u2 mod 4)"
    by (simp add: sq limbs_val_append l4 u5)
  have "limbs_val l4 < 2 ^ 128" using limbs_val_less [OF s4] l4 by simp
  moreover have "unat u4 + unat ?u2 mod 4 \<le> 4" using u4 by simp
  ultimately show "limbs_val (poly1305_squeeze h) < 5 * 2 ^ 128" unfolding val by simp
  define q m where "q = unat ?u2 div 4" and "m = unat ?u2 mod 4"
  have "limbs_val h = limbs_val l1 + 2 ^ 128 * (4 * q + m)"
    using v1 by (simp add: h limbs_val_append lo u2 q_def m_def)
  also have "\<dots> = limbs_val (poly1305_squeeze h) + P1305 * q"
    unfolding val using v4 unfolding u3 q_def [symmetric] m_def [symmetric]
    by (simp add: P1305_def)
  finally show "limbs_val (poly1305_squeeze h) mod P1305 = limbs_val h mod P1305" by simp
qed

subsection \<open>Key and message blocks as limbs\<close>

lemma poly1305_r_bytes:
  assumes "16 \<le> length k"
  shows "poly1305_r k = map ucast (map2 (AND) (take 16 k) clamp_mask) @ [0]"
proof -
  have "fold (\<lambda>j r. r[j := ucast (k ! j)]) [0..<16] (replicate 17 0) = map ucast (take 16 k) @ [0 :: u32]"
    using assms by (simp add: fold_copy map_nth_take del: upt_rec_numeral)
  moreover have "length (take 16 k) = 16" using assms by simp
  then obtain x0 x1 x2 x3 x4 x5 x6 x7 x8 x9 x10 x11 x12 x13 x14 x15 where
    "take 16 k = [x0, x1, x2, x3, x4, x5, x6, x7, x8, x9, x10, x11, x12, x13, x14, x15]"
    by (rule length_16_cases)
  moreover have "x AND 255 = x" for x :: u8
    using take_bit_length_eq [of x] by (simp add: take_bit_eq_mask mask_eq_exp_minus_1 del: take_bit_length_eq)
  ultimately show ?thesis
    by (simp add: poly1305_r_def Let_def clamp_mask_def unsigned_and_eq)
qed

lemma poly1305_r_spec:
  assumes "16 \<le> length k"
  shows "length (poly1305_r k) = 17" "small_limbs (poly1305_r k)"
    "limbs_val (poly1305_r k) = poly1305_clamp k"
proof -
  have l: "length clamp_mask = 16" by (simp add: clamp_mask_def)
  show "length (poly1305_r k) = 17" using assms by (simp add: poly1305_r_bytes l)
  show "small_limbs (poly1305_r k)" using assms by (auto simp: poly1305_r_bytes)
  have "le_val clamp_mask = 0x0ffffffc0ffffffc0ffffffc0fffffff" by (simp add: clamp_mask_def)
  then show "limbs_val (poly1305_r k) = poly1305_clamp k"
    using assms l
    by (simp only: poly1305_r_bytes limbs_val_append limbs_val_bytes poly1305_clamp_def)
      (simp add: le_val_and)
qed

lemma poly1305_block_spec:
  shows "length (poly1305_block m) = 17" "small_limbs (poly1305_block m)"
    "limbs_val (poly1305_block m) = le_val (take 16 m @ [1])"
proof -
  let ?j = "min 16 (length m)"
  have j: "?j < 17" by simp
  have "fold (\<lambda>i c. c[i := ucast (m ! i)]) [0..<?j] (replicate 17 0)
      = map ucast (take 16 m) @ replicate (17 - ?j) (0 :: u32)"
    using map_nth_take [of 16 m ucast] map_nth_take [of "length m" m ucast]
    by (cases "16 \<le> length m") (simp_all add: fold_copy min_def del: upt_rec_numeral)
  moreover have "replicate (17 - ?j) (0 :: u32) = 0 # replicate (16 - ?j) 0"
    using j by (simp add: Suc_diff_le flip: replicate_Suc)
  ultimately have b: "poly1305_block m = map ucast (take 16 m @ [1]) @ replicate (16 - ?j) 0"
    by (simp add: poly1305_block_def Let_def list_update_append min.commute)
  show "length (poly1305_block m) = 17" by (simp add: b)
  show "small_limbs (poly1305_block m)" by (auto simp: b)
  show "limbs_val (poly1305_block m) = le_val (take 16 m @ [1])"
    by (simp only: b limbs_val_append limbs_val_bytes limbs_val_replicate_0 mult_0_right add_0_right)
qed

subsection \<open>The loop\<close>

lemma poly1305_step_spec:
  assumes h: "acc_ok h" and r: "length r = 17" "small_limbs r"
  shows "acc_ok (poly1305_squeeze (poly1305_mul (add1305 h (poly1305_block m)) r))"
    "limbs_val (poly1305_squeeze (poly1305_mul (add1305 h (poly1305_block m)) r)) mod P1305
       = (limbs_val h + le_val (take 16 m @ [1])) * limbs_val r mod P1305"
proof -
  let ?c = "poly1305_block m" and ?a = "add1305 h (poly1305_block m)"
  have h': "length h = 17" "\<forall>x \<in> set h. unat x < 2 ^ 30" and c': "\<forall>x \<in> set ?c. unat x < 2 ^ 30"
    using h poly1305_block_spec(2) [of m] by (auto simp: acc_ok_def)
  note a = add1305_spec [OF h'(1) poly1305_block_spec(1) h'(2) c']
  have "le_val (take 16 m @ [1]) < 256 ^ 17"
    using le_val_less [of "take 16 m @ [1]"] power_increasing [of "length (take 16 m @ [1])" 17 "256::nat"] by simp
  have "limbs_val ?c < 2 * 2 ^ 128"
  proof -
    have "256 ^ length (take 16 m) \<le> (256::nat) ^ 16" by (rule power_increasing) simp_all
    moreover have "le_val (take 16 m) < 256 ^ length (take 16 m)" by (rule le_val_less)
    ultimately show ?thesis by (simp add: poly1305_block_spec(3) le_val_append)
  qed
  then have v: "limbs_val ?a = limbs_val h + le_val (take 16 m @ [1])"
    using h by (simp add: a(3) poly1305_block_spec(3) acc_ok_def)
  note p = poly1305_mul_spec [OF a(1) r(1) a(2) r(2)]
  note q = poly1305_squeeze_spec [OF p(1,2)]
  show "acc_ok (poly1305_squeeze (poly1305_mul ?a r))" using q by (simp add: acc_ok_def)
  show "limbs_val (poly1305_squeeze (poly1305_mul ?a r)) mod P1305
       = (limbs_val h + le_val (take 16 m @ [1])) * limbs_val r mod P1305"
    by (simp only: q(4) p(3) v)
qed

lemma poly1305_loop_spec:
  assumes "acc_ok h" "length r = 17" "small_limbs r" "a mod P1305 = limbs_val h mod P1305"
  shows "acc_ok (poly1305_loop r m h)
       \<and> limbs_val (poly1305_loop r m h) mod P1305 = poly1305_acc (limbs_val r) m a mod P1305"
  using assms
proof (induction r m h arbitrary: a rule: poly1305_loop.induct)
  case (1 r m h)
  show ?case
  proof (cases "m = []")
    case True
    then show ?thesis using "1.prems" by (simp add: poly1305_loop.simps poly1305_acc.simps)
  next
    case False
    let ?h = "poly1305_squeeze (poly1305_mul (add1305 h (poly1305_block m)) r)"
    let ?a = "(a + le_val (take 16 m @ [1])) * limbs_val r mod P1305"
    note s = poly1305_step_spec [OF "1.prems"(1-3), of m]
    have "?a mod P1305 = limbs_val ?h mod P1305"
      unfolding s(2) using "1.prems"(4) by (metis mod_add_left_eq mod_mult_left_eq mod_mod_trivial)
    then have "acc_ok (poly1305_loop r (drop (min 16 (length m)) m) ?h) \<and>
        limbs_val (poly1305_loop r (drop (min 16 (length m)) m) ?h) mod P1305 =
        poly1305_acc (limbs_val r) (drop (min 16 (length m)) m) ?a mod P1305"
      using False s(1) "1.prems" by (intro "1.IH") auto
    moreover have "drop (min 16 (length m)) m = drop 16 m" by (simp add: min_def)
    ultimately show ?thesis
      using False by (subst (1 2) poly1305_loop.simps, subst poly1305_acc.simps) simp
  qed
qed

lemma poly1305_acc_less: "a < P1305 \<Longrightarrow> poly1305_acc r m a < P1305"
proof (induction r m a rule: poly1305_acc.induct)
  case (1 r m a)
  have "0 < P1305" by (simp add: P1305_def)
  with 1 show ?case by (subst poly1305_acc.simps) simp
qed

subsection \<open>Final reduction and tag\<close>

lemma poly1305_freeze_spec:
  assumes "acc_ok h"
  shows "length (poly1305_freeze h) = 17" "small_limbs (poly1305_freeze h)"
    "limbs_val (poly1305_freeze h) = limbs_val h mod P1305"
proof -
  let ?a = "add1305 h minusp"
  let ?s = "- drop_bit 7 (?a ! 16)"
  have h: "length h = 17" "small_limbs h" "limbs_val h < 5 * 2 ^ 128" using assms by (simp_all add: acc_ok_def)
  have m: "length minusp = 17" "\<forall>x \<in> set minusp. unat x < 2 ^ 30" "limbs_val minusp + P1305 = 256 ^ 17"
    by (simp_all add: minusp_def P1305_def)
  have h30: "\<forall>x \<in> set h. unat x < 2 ^ 30" using h(2) by auto
  note a = add1305_spec [OF h(1) m(1) h30 m(2)]
  obtain lo t where at: "?a = lo @ [t]" and lo: "length lo = 16" using a(1) by (rule length_17_split)
  have t: "?a ! 16 = t" "unat t < 256" using at lo a(2) by (auto simp: nth_append)
  have va: "limbs_val ?a = limbs_val lo + 2 ^ 128 * unat t" by (simp add: at limbs_val_append lo)
  have vlo: "limbs_val lo < 2 ^ 128" using limbs_val_less [of lo] a(2) at lo by simp
  have f: "poly1305_freeze h = map (\<lambda>j. ?a ! j XOR (?s AND (h ! j XOR ?a ! j))) [0..<17]"
    using fold_update [of 17 ?a "\<lambda>j x. x XOR (?s AND (h ! j XOR x))"] a(1)
    by (simp add: poly1305_freeze_def Let_def del: upt_rec_numeral)
  have d: "unat (drop_bit 7 t) = unat t div 128"
    by (simp add: unat_drop_bit_eq drop_bit_eq_div [where 'a = nat])
  show "length (poly1305_freeze h) = 17" by (simp add: f del: upt_rec_numeral)
  have "small_limbs (poly1305_freeze h) \<and> limbs_val (poly1305_freeze h) = limbs_val h mod P1305"
  proof (cases "limbs_val h < P1305")
    case True
    have "limbs_val ?a = limbs_val h + limbs_val minusp"
      using True m(3) by (simp add: a(3))
    then have "252 * 2 ^ 128 \<le> limbs_val ?a" using m(3) by (simp add: P1305_def)
    then have "252 \<le> unat t" using va vlo by simp
    then have "unat (drop_bit 7 t) = unat (1 :: u32)" using t(2) unfolding d by simp
    then have "drop_bit 7 t = 1" by (rule word_eq_unatI)
    then have "poly1305_freeze h = h"
      using h(1) by (intro nth_equalityI) (simp_all add: f t(1) xor.left_commute [of _ "h ! _"] del: upt_rec_numeral)
    then show ?thesis using True h(2) by simp
  next
    case False
    have "limbs_val ?a = limbs_val h - P1305"
    proof -
      have "limbs_val h + limbs_val minusp = limbs_val h - P1305 + 256 ^ 17"
        using False m(3) by simp
      moreover have "limbs_val h - P1305 < 256 ^ 17" using h(3) by simp
      ultimately show ?thesis unfolding a(3) by (simp only: mod_add_self2 mod_less)
    qed
    then have v: "limbs_val ?a = limbs_val h - P1305" "limbs_val ?a < 2 * 2 ^ 128"
      using h(3) by (simp_all add: P1305_def)
    then have "unat t < 2" using va by simp
    then have "unat (drop_bit 7 t) = unat (0 :: u32)" unfolding d by simp
    then have "drop_bit 7 t = 0" by (rule word_eq_unatI)
    then have "poly1305_freeze h = ?a"
      using a(1) by (intro nth_equalityI) (simp_all add: f t(1) del: upt_rec_numeral)
    moreover have "limbs_val h mod P1305 = limbs_val h - P1305"
      using False h(3) by (simp add: mod_if P1305_def)
    ultimately show ?thesis using a(2) v(1) by simp
  qed
  then show "small_limbs (poly1305_freeze h)" "limbs_val (poly1305_freeze h) = limbs_val h mod P1305"
    by simp_all
qed

lemma poly1305_eq_spec:
  assumes "length k = 32"
  shows "poly1305 m k = poly1305_spec m k"
proof -
  let ?h = "poly1305_loop (poly1305_r k) m (replicate 17 0)"
  let ?f = "poly1305_freeze ?h"
  let ?c = "map ucast (drop 16 k) @ [0 :: u32]"
  let ?t = "add1305 ?f ?c"
  have k: "16 \<le> length k" using assms by simp
  have z: "acc_ok (replicate 17 0)" by (simp add: acc_ok_def)
  have zero: "(0::nat) mod P1305 = limbs_val (replicate 17 0) mod P1305" by simp
  note l = poly1305_loop_spec [OF z poly1305_r_spec(1,2) [OF k] zero, of m]
  note f = poly1305_freeze_spec [OF l [THEN conjunct1]]
  have "poly1305_acc (poly1305_clamp k) m 0 < P1305"
    by (rule poly1305_acc_less) (simp add: P1305_def)
  then have vf: "limbs_val ?f = poly1305_acc (poly1305_clamp k) m 0"
    by (simp only: f(3) l [THEN conjunct2] poly1305_r_spec(3) [OF k] mod_less)
  have c: "(fold (\<lambda>j c. c[j := ucast (k ! (j + 16))]) [0..<16] (replicate 17 0))[16 := 0] = ?c"
    using map_nth_take [of 16 "drop 16 k" "ucast :: u8 \<Rightarrow> u32"] assms
    by (simp add: fold_copy list_update_append add.commute del: upt_rec_numeral)
  have c': "length ?c = 17" "\<forall>x \<in> set ?c. unat x < 2 ^ 30" "limbs_val ?c = le_val (drop 16 k)"
    using assms by (auto simp: limbs_val_append limbs_val_bytes intro: order.strict_trans [OF unat_u8_less])
  have f': "\<forall>x \<in> set ?f. unat x < 2 ^ 30" using f(2) by auto
  note t = add1305_spec [OF f(1) c'(1) f' c'(2)]
  obtain lo x where tx: "?t = lo @ [x]" and lo: "length lo = 16" using t(1) by (rule length_17_split)
  have out: "poly1305 m k = map ucast lo"
    using map_nth_take [of 16 ?t "ucast :: u32 \<Rightarrow> u8"]
    by (simp add: poly1305_def Let_def c tx lo del: upt_rec_numeral)
  have "le_val (map ucast lo) = limbs_val lo"
    using t(2) tx by (simp add: small_limbs_bytes)
  also have "\<dots> = limbs_val ?t mod 256 ^ 16"
  proof -
    have "limbs_val lo < 256 ^ 16" using limbs_val_less [of lo] t(2) tx lo by simp
    then show ?thesis by (simp add: tx limbs_val_append lo)
  qed
  also have "\<dots> = (poly1305_acc (poly1305_clamp k) m 0 + le_val (drop 16 k)) mod 256 ^ 16"
    unfolding t(3) vf c'(3) by (simp add: mod_mod_cancel)
  finally show ?thesis
    using assms lo by (intro le_val_inject) (simp_all add: out poly1305_spec_def le_val_enc)
qed

lemma constant_time_eq16_iff:
  assumes "length x = 16" "length y = 16"
  shows "constant_time_eq16 x y \<longleftrightarrow> x = y"
proof -
  have "fold (\<lambda>i d. d OR (ucast (x ! i) XOR ucast (y ! i))) [0..<n] (0 :: u32) = 0 \<longleftrightarrow> (\<forall>i < n. x ! i = y ! i)" for n
  proof (induction n)
    case (Suc n)
    have "(ucast (x ! n) XOR ucast (y ! n) = (0 :: u32)) \<longleftrightarrow> x ! n = y ! n"
      by (metis unat_ucast_u8_u32 word_eq_unatI xor_eq_0_iff)
    with Suc show ?case by (auto simp: less_Suc_eq or_eq_0)
  qed simp
  then show ?thesis
    using assms by (auto simp: constant_time_eq16_def list_eq_iff_nth_eq simp del: upt_rec_numeral)
qed

section \<open>Properties\<close>

text \<open>
  C9: the limb arithmetic computes Poly1305: for every message and 32-byte key, \<open>poly1305\<close> is the
  little-endian low 128 bits of the polynomial value modulo \<open>2 ^ 130 - 5\<close> plus the second key
  half. In particular no 32-bit accumulation overflows and the final constant-time reduction is
  exact.
\<close>

theorem poly1305_correct:
  assumes "length k = 32"
  shows "poly1305 m k = poly1305_spec m k"
  using assms by (rule poly1305_eq_spec)

theorem poly1305_correct_witness:
  "poly1305 (replicate 33 255) (replicate 32 255) = poly1305_spec (replicate 33 255) (replicate 32 255)"
  using poly1305_correct [of "replicate 32 255"] by simp

text \<open>
  The constant-time comparison, which always reads all sixteen bytes of both tags, decides
  equality.
\<close>

theorem constant_time_eq16_correct:
  assumes "length x = 16" "length y = 16"
  shows "constant_time_eq16 x y \<longleftrightarrow> x = y"
  using assms by (rule constant_time_eq16_iff)

theorem constant_time_eq16_correct_witness:
  "\<not> constant_time_eq16 (replicate 16 0) (replicate 15 0 @ [128])"
proof -
  have "replicate 16 0 \<noteq> replicate 15 (0 :: u8) @ [128]"
    by (rule notI, drule arg_cong [where f = last]) simp
  then show ?thesis
    using constant_time_eq16_correct [of "replicate 16 0" "replicate 15 0 @ [128]"] by simp
qed

end
