(* ===== verification/Nuki_Secretbox.thy ===== *)
theory Nuki_Secretbox
  imports Nuki_Salsa20 Nuki_Poly1305
begin

text \<open>
  The authenticated encryption of \<open>src/src/nuki_crypto.c\<close>: \<open>nuki_crypto_e1\<close> and
  \<open>nuki_crypto_d1\<close> (lines 375 to 426), NaCl's secretbox in the tag-then-ciphertext framing of
  the Nuki protocol.

  The interface that the encrypted command channel relies on is the locale \<open>secretbox\<close>: sealing
  succeeds up to the size limit, opening inverts sealing, and opening accepts nothing but a sealed
  message. It is interpreted on the code's two functions, whose laws rest on the stream cipher
  and authenticator theorems.
\<close>

section \<open>The code\<close>

abbreviation NUKI_KEY_LEN :: nat where "NUKI_KEY_LEN \<equiv> 32"
abbreviation NUKI_NONCE_LEN :: nat where "NUKI_NONCE_LEN \<equiv> 24"
abbreviation NUKI_TAG_LEN :: nat where "NUKI_TAG_LEN \<equiv> 16"
abbreviation NUKI_CRYPTO_MAX_MSG_LEN :: nat where "NUKI_CRYPTO_MAX_MSG_LEN \<equiv> 256"

definition nuki_crypto_e1 :: "bytes \<Rightarrow> bytes \<Rightarrow> bytes \<Rightarrow> int + bytes" where
  "nuki_crypto_e1 msg nonce key =
     (if length msg > NUKI_CRYPTO_MAX_MSG_LEN then Inl (- EINVAL)
      else
        let padded_in = replicate 32 0 @ msg;
            padded_out = xsalsa20_xor (Some padded_in) (32 + length msg) nonce key
        in Inr (poly1305 (drop 32 padded_out) (take 32 padded_out) @ drop 32 padded_out))"

definition nuki_crypto_d1 :: "bytes \<Rightarrow> nat \<Rightarrow> bytes \<Rightarrow> bytes \<Rightarrow> int + bytes" where
  "nuki_crypto_d1 inp msg_len nonce key =
     (if msg_len > NUKI_CRYPTO_MAX_MSG_LEN then Inl (- EINVAL)
      else
        let block0 = xsalsa20_xor None 64 nonce key;
            tag = poly1305 (take msg_len (drop NUKI_TAG_LEN inp)) (take 32 block0)
        in if \<not> constant_time_eq16 tag (take 16 inp) then Inl (- EBADMSG)
           else
             let padded_in = replicate 32 0 @ take msg_len (drop NUKI_TAG_LEN inp);
                 padded_out = xsalsa20_xor (Some padded_in) (32 + msg_len) nonce key
             in Inr (drop 32 padded_out))"

section \<open>The interface of the authenticated cipher\<close>

locale secretbox =
  fixes enc :: "bytes \<Rightarrow> bytes \<Rightarrow> bytes \<Rightarrow> int + bytes"
    and dec :: "bytes \<Rightarrow> nat \<Rightarrow> bytes \<Rightarrow> bytes \<Rightarrow> int + bytes"
    and key_ok :: "bytes \<Rightarrow> bytes \<Rightarrow> bool"
    and tag_len :: nat
    and max_len :: nat
  assumes enc_total: "key_ok n k \<Longrightarrow> length m \<le> max_len \<Longrightarrow> \<exists>b. enc m n k = Inr b"
    and enc_length: "key_ok n k \<Longrightarrow> enc m n k = Inr b \<Longrightarrow> length b = tag_len + length m"
    and dec_enc: "key_ok n k \<Longrightarrow> enc m n k = Inr b \<Longrightarrow> dec b (length m) n k = Inr m"
    and enc_dec: "key_ok n k \<Longrightarrow> length b = tag_len + l \<Longrightarrow> dec b l n k = Inr m \<Longrightarrow> enc m n k = Inr b"
begin

lemma sealed_inject:
  assumes "key_ok n k" "enc m n k = Inr b" "enc m' n k = Inr b"
  shows "m = m'"
proof -
  have l: "length m = length m'" using enc_length [OF assms(1,2)] enc_length [OF assms(1,3)] by linarith
  have "Inr m = dec b (length m) n k" by (rule dec_enc [OF assms(1,2), symmetric])
  also have "\<dots> = Inr m'" unfolding l by (rule dec_enc [OF assms(1,3)])
  finally show ?thesis by simp
qed

lemma opened_length:
  "key_ok n k \<Longrightarrow> length b = tag_len + l \<Longrightarrow> dec b l n k = Inr m \<Longrightarrow> length m = l"
  by (metis add_left_cancel enc_dec enc_length)

lemma accepts_only_sealed:
  assumes "key_ok n k" "length b = tag_len + l"
  shows "dec b l n k = Inr m \<longleftrightarrow> enc m n k = Inr b"
  using assms enc_dec [OF assms] opened_length [OF assms] dec_enc [OF assms(1)]
  by (metis add_left_cancel enc_length)

text \<open>A box altered in any way never opens to the message that was sealed.\<close>

lemma altered_not_same:
  assumes "key_ok n k" "enc m n k = Inr b" "b' \<noteq> b" "length b' = tag_len + l"
  shows "dec b' l n k \<noteq> Inr m"
  using assms enc_dec [OF assms(1,4)] by fastforce

end

section \<open>The code implements the interface\<close>

definition box_lengths :: "bytes \<Rightarrow> bytes \<Rightarrow> bool" where
  "box_lengths nonce key \<longleftrightarrow> length nonce = NUKI_NONCE_LEN \<and> length key = NUKI_KEY_LEN"

text \<open>The keystream split: 32 bytes of one-time key, then the bytes that mask the message.\<close>

definition box_mac_key :: "bytes \<Rightarrow> bytes \<Rightarrow> bytes" where
  "box_mac_key nonce key = xsalsa20_keystream key nonce 32"

definition box_mask :: "bytes \<Rightarrow> bytes \<Rightarrow> nat \<Rightarrow> bytes" where
  "box_mask nonce key len = drop 32 (xsalsa20_keystream key nonce (32 + len))"

lemma xsalsa20_keystream_length [len_simps]: "length (xsalsa20_keystream k n len) = len"
  by (simp add: xsalsa20_keystream_def len_simps)

lemma box_mask_length [simp]: "length (box_mask n k len) = len"
  by (simp add: box_mask_def len_simps)

lemma box_mac_key_length [simp]: "length (box_mac_key n k) = 32"
  by (simp add: box_mac_key_def len_simps)

lemma xsalsa20_padded:
  assumes "box_lengths n k"
  shows "xsalsa20_xor (Some (replicate 32 0 @ m)) (32 + length m) n k =
           box_mac_key n k @ xor_bytes m (box_mask n k (length m))"
proof -
  let ?ks = "xsalsa20_keystream k n (32 + length m)"
  have t: "take 32 ?ks = box_mac_key n k"
    by (simp add: box_mac_key_def xsalsa20_keystream_def keystream_from_take)
  have "xsalsa20_xor (Some (replicate 32 0 @ m)) (32 + length m) n k =
      xor_bytes (replicate 32 0 @ m) (take 32 ?ks @ drop 32 ?ks)"
    using assms by (simp add: box_lengths_def xsalsa20_xor_spec msg_of_def)
  also have "\<dots> = box_mac_key n k @ xor_bytes m (box_mask n k (length m))"
    by (simp only: t) (simp add: xor_bytes_append xor_bytes_0 box_mask_def)
  finally show ?thesis .
qed

lemma xsalsa20_block0:
  assumes "box_lengths n k"
  shows "take 32 (xsalsa20_xor None 64 n k) = box_mac_key n k"
  using assms
  by (simp add: box_lengths_def xsalsa20_xor_spec msg_of_def xor_bytes_0 len_simps
      box_mac_key_def xsalsa20_keystream_def keystream_from_take)

lemma poly1305_length [simp]: "length (poly1305 m k) = 16"
  by (simp add: poly1305_def Let_def)

lemma e1_box:
  assumes "box_lengths n k" and "length m \<le> 256"
  shows "nuki_crypto_e1 m n k =
           (let c = xor_bytes m (box_mask n k (length m)) in Inr (poly1305 c (box_mac_key n k) @ c))"
  using assms by (simp add: nuki_crypto_e1_def Let_def xsalsa20_padded)

lemma d1_box:
  assumes "box_lengths n k" and "l \<le> 256" and "length b = 16 + l"
  shows "nuki_crypto_d1 b l n k =
           (if take 16 b = poly1305 (drop 16 b) (box_mac_key n k)
            then Inr (xor_bytes (drop 16 b) (box_mask n k l)) else Inl (- EBADMSG))"
proof -
  have "take l (drop 16 b) = drop 16 b" and l: "length (drop 16 b) = l" using assms(3) by simp_all
  then show ?thesis
    using assms xsalsa20_padded [OF assms(1), of "drop 16 b"]
    by (auto simp: nuki_crypto_d1_def Let_def xsalsa20_block0 constant_time_eq16_iff)
qed

interpretation box: secretbox nuki_crypto_e1 nuki_crypto_d1 box_lengths 16 256
proof
  fix n k m b l
  assume k: "box_lengths n k"
  show "\<exists>b. nuki_crypto_e1 m n k = Inr b" if "length m \<le> 256"
    using e1_box [OF k that] by (simp add: Let_def)
  have e: "length m \<le> 256" if "nuki_crypto_e1 m n k = Inr b"
    using that by (auto simp: nuki_crypto_e1_def split: if_splits)
  show "length b = 16 + length m" if "nuki_crypto_e1 m n k = Inr b"
    using that e1_box [OF k e [OF that]] by (auto simp: Let_def)
  show "nuki_crypto_d1 b (length m) n k = Inr m" if "nuki_crypto_e1 m n k = Inr b"
    using that e1_box [OF k e [OF that]] d1_box [OF k e [OF that], of b]
    by (auto simp: Let_def xor_bytes_cancel)
  show "nuki_crypto_e1 m n k = Inr b" if "length b = 16 + l" "nuki_crypto_d1 b l n k = Inr m"
  proof -
    have l: "l \<le> 256" using that(2) by (auto simp: nuki_crypto_d1_def split: if_splits)
    have t: "take 16 b = poly1305 (drop 16 b) (box_mac_key n k)"
      and m: "m = xor_bytes (drop 16 b) (box_mask n k l)"
      using that d1_box [OF k l that(1)] by (auto split: if_splits)
    have lm: "length m = l" using m that(1) by simp
    have c: "xor_bytes m (box_mask n k l) = drop 16 b"
      using that(1) unfolding m by (simp add: xor_bytes_cancel)
    have "nuki_crypto_e1 m n k = Inr (take 16 b @ drop 16 b)"
      using l lm by (subst e1_box [OF k]) (simp_all add: Let_def c t)
    then show ?thesis by simp
  qed
qed

lemma d1_rejects:
  assumes "box_lengths n k" "l \<le> 256" "length b = 16 + l"
  shows "nuki_crypto_d1 b l n k = Inl (- EBADMSG) \<or> (\<exists>m. nuki_crypto_e1 m n k = Inr b \<and> nuki_crypto_d1 b l n k = Inr m)"
  using d1_box [OF assms] box.enc_dec [OF assms(1,3)] by (auto split: if_splits)

section \<open>Properties\<close>

text \<open>
  Sealing a message of at most 256 bytes succeeds, adds exactly the 16-byte tag, and opening
  the box under the same nonce and key gives the message back.
\<close>

theorem secretbox_roundtrip:
  assumes "length nonce = 24" "length key = 32" "length m \<le> 256"
  shows "\<exists>b. nuki_crypto_e1 m nonce key = Inr b \<and> length b = 16 + length m \<and>
             nuki_crypto_d1 b (length m) nonce key = Inr m"
proof -
  have k: "box_lengths nonce key" using assms by (simp add: box_lengths_def)
  show ?thesis
    using box.enc_total [OF k assms(3)] box.enc_length [OF k] box.dec_enc [OF k] by blast
qed

theorem secretbox_roundtrip_witness:
  "\<exists>b. nuki_crypto_e1 (replicate 3 7) (replicate 24 9) (replicate 32 5) = Inr b \<and> length b = 19 \<and>
       nuki_crypto_d1 b 3 (replicate 24 9) (replicate 32 5) = Inr (replicate 3 7)"
  using secretbox_roundtrip [of "replicate 24 9" "replicate 32 5" "replicate 3 7"] by simp

text \<open>
  C8: opening accepts nothing but sealed messages: a box opens to \<open>m\<close> exactly when it is the
  sealing of \<open>m\<close> under that nonce and key, and every other box of plausible length is rejected
  with \<open>-EBADMSG\<close>. So a box altered in any byte never opens to the message that was sealed.
\<close>

theorem secretbox_accepts_only_sealed:
  assumes "length nonce = 24" "length key = 32" "length b = 16 + l" "l \<le> 256"
  shows "(nuki_crypto_d1 b l nonce key = Inr m \<longleftrightarrow> nuki_crypto_e1 m nonce key = Inr b) \<and>
         ((\<nexists>m. nuki_crypto_e1 m nonce key = Inr b) \<longleftrightarrow> nuki_crypto_d1 b l nonce key = Inl (- EBADMSG))"
proof -
  have k: "box_lengths nonce key" using assms by (simp add: box_lengths_def)
  show ?thesis
    using box.accepts_only_sealed [OF k assms(3)] d1_rejects [OF k assms(4,3)] by fastforce
qed

theorem secretbox_accepts_only_sealed_witness:
  "(\<nexists>m. nuki_crypto_e1 m (replicate 24 0) (replicate 32 0) = Inr (replicate 20 7)) \<longleftrightarrow>
     nuki_crypto_d1 (replicate 20 7) 4 (replicate 24 0) (replicate 32 0) = Inl (- EBADMSG)"
  using secretbox_accepts_only_sealed [of "replicate 24 0" "replicate 32 0" "replicate 20 7" 4] by simp

text \<open>
  The size limit protects the fixed 288-byte work buffers: sealing fails exactly on messages
  over 256 bytes, opening of a longer claim never starts, and both report \<open>-EINVAL\<close>.
\<close>

theorem secretbox_size_limit:
  "(nuki_crypto_e1 m nonce key = Inl e \<longleftrightarrow> 256 < length m \<and> e = - EINVAL) \<and>
   (nuki_crypto_d1 b l nonce key = Inl (- EINVAL) \<longleftrightarrow> 256 < l)"
  by (auto simp: nuki_crypto_e1_def nuki_crypto_d1_def Let_def)

end
