(* ===== verification/Nuki_Command.thy ===== *)
theory Nuki_Command
  imports Nuki_Transport Nuki_Secretbox
begin

text \<open>
  \<open>src/src/nuki_command.c\<close>: the encrypted commands over the USDIO characteristic. Every function
  takes the transport world \<open>io\<close> and returns it updated; an \<open>int + 'a\<close> result is the C return
  value together with the out-parameters, which are defined only on success.

  The lemmas: what one party writes with \<open>send_encrypted\<close>, the other party's \<open>recv_encrypted\<close>
  reads back, however it is fragmented; what \<open>recv_encrypted\<close> accepts was sealed under the shared
  key; the command sequences send exactly the frames of the protocol.
\<close>

section \<open>The code\<close>

abbreviation ADATA_HDR_LEN :: nat where "ADATA_HDR_LEN \<equiv> 30"
abbreviation RECV_TIMEOUT :: nat where "RECV_TIMEOUT \<equiv> 10"
abbreviation MAX_PLAINTEXT :: nat where "MAX_PLAINTEXT \<equiv> 200"

definition send_encrypted ::
    "byteorder \<Rightarrow> u32 \<Rightarrow> bytes \<Rightarrow> u16 \<Rightarrow> bytes \<Rightarrow> io \<Rightarrow> int \<times> io" where
  "send_encrypted B auth_id shared_key cmd payload s =
     (case nuki_frame_build_auth B NUKI_FRAME_MAX_LEN auth_id cmd payload of
        None \<Rightarrow> (- EINVAL, s)
      | Some plain \<Rightarrow>
          let (nonce, s) = sys_rand_get NUKI_NONCE_LEN s
          in case nuki_crypto_e1 plain nonce shared_key of
               Inl err \<Rightarrow> (err, s)
             | Inr box \<Rightarrow>
                 let wire = nonce @ sys_put_le32 B auth_id
                            @ sys_put_le16 B (of_nat (NUKI_TAG_LEN + length plain)) @ box
                 in nuki_transport_write wire s)"

definition recv_encrypted ::
    "byteorder \<Rightarrow> bytes \<Rightarrow> nat \<Rightarrow> io \<Rightarrow> (int + (u16 \<times> bytes)) \<times> io" where
  "recv_encrypted B shared_key payload_max s =
     (let (err, s) = nuki_transport_wait_min ADATA_HDR_LEN RECV_TIMEOUT s
      in if err \<noteq> 0 then (Inl err, s)
         else
           let header = nuki_transport_peek s ADATA_HDR_LEN;
               nonce = take NUKI_NONCE_LEN header;
               ct_len = unat (sys_get_le16 B (drop 28 header))
           in if ct_len < NUKI_TAG_LEN \<or> ct_len > NUKI_TAG_LEN + MAX_PLAINTEXT then
                (Inl (- EBADMSG), nuki_transport_reset s)
              else
                let total_len = ADATA_HDR_LEN + ct_len;
                    (err, s) = nuki_transport_wait_min total_len RECV_TIMEOUT s
                in if err \<noteq> 0 then (Inl err, s)
                   else
                     let wire = nuki_transport_peek s total_len;
                         s = nuki_transport_reset s;
                         plain_len = ct_len - NUKI_TAG_LEN
                     in case nuki_crypto_d1 (drop ADATA_HDR_LEN wire) plain_len nonce shared_key of
                          Inl err \<Rightarrow> (Inl err, s)
                        | Inr plain \<Rightarrow>
                            (case nuki_frame_parse_auth B plain of
                               Inl err \<Rightarrow> (Inl err, s)
                             | Inr (frame_auth_id, cmd, payload) \<Rightarrow>
                                 if length payload > payload_max then (Inl (- ENOMEM), s)
                                 else (Inr (cmd, payload), s)))"

definition nuki_command_get_state ::
    "byteorder \<Rightarrow> u32 \<Rightarrow> bytes \<Rightarrow> io \<Rightarrow> (int + nuki_keyturner_state) \<times> io" where
  "nuki_command_get_state B auth_id shared_key s =
     (let req_payload = sys_put_le16 B NUKI_CMD_KEYTURNER_STATES;
          (err, s) = send_encrypted B auth_id shared_key NUKI_CMD_REQUEST_DATA req_payload s
      in if err \<noteq> 0 then (Inl err, s)
         else
           case recv_encrypted B shared_key MAX_PLAINTEXT s of
             (Inl err, s) \<Rightarrow> (Inl err, s)
           | (Inr (cmd, payload), s) \<Rightarrow>
               if cmd \<noteq> NUKI_CMD_KEYTURNER_STATES then (Inl (- EBADMSG), s)
               else (nuki_keyturner_state_parse B payload, s))"

definition request_challenge ::
    "byteorder \<Rightarrow> u32 \<Rightarrow> bytes \<Rightarrow> io \<Rightarrow> (int + bytes) \<times> io" where
  "request_challenge B auth_id shared_key s =
     (let req_payload = sys_put_le16 B NUKI_CMD_CHALLENGE;
          (err, s) = send_encrypted B auth_id shared_key NUKI_CMD_REQUEST_DATA req_payload s
      in if err \<noteq> 0 then (Inl err, s)
         else
           case recv_encrypted B shared_key MAX_PLAINTEXT s of
             (Inl err, s) \<Rightarrow> (Inl err, s)
           | (Inr (cmd, challenge), s) \<Rightarrow>
               if cmd \<noteq> NUKI_CMD_CHALLENGE \<or> length challenge \<noteq> 32 then (Inl (- EBADMSG), s)
               else (Inr challenge, s))"

text \<open>
  The loop of \<open>drain_until_complete\<close>, with the number of remaining iterations. \<open>want\<close> says
  that both out-pointers are non-NULL; \<open>cap\<close> is what they hold: \<open>None\<close> while
  \<open>*got_state\<close> is false, \<open>Some st\<close> once a state was parsed into \<open>*state_out\<close>.
\<close>

fun drain_loop ::
    "nat \<Rightarrow> byteorder \<Rightarrow> bytes \<Rightarrow> bool \<Rightarrow> nuki_keyturner_state option \<Rightarrow> io
     \<Rightarrow> int \<times> nuki_keyturner_state option \<times> io" where
  "drain_loop 0 B shared_key want cap s = (- ETIMEDOUT, cap, s)"
| "drain_loop (Suc n) B shared_key want cap s =
     (case recv_encrypted B shared_key MAX_PLAINTEXT s of
        (Inl err, s) \<Rightarrow> (err, cap, s)
      | (Inr (cmd, payload), s) \<Rightarrow>
          if cmd = NUKI_CMD_ERROR_REPORT then (- EIO, cap, s)
          else if cmd = NUKI_CMD_STATUS then
            if length payload \<noteq> 1 then (- EBADMSG, cap, s)
            else if payload ! 0 = NUKI_STATUS_COMPLETE then (0, cap, s)
            else drain_loop n B shared_key want cap s
          else if cmd = NUKI_CMD_KEYTURNER_STATES \<and> want then
            drain_loop n B shared_key want
              (case nuki_keyturner_state_parse B payload of Inl _ \<Rightarrow> cap | Inr st \<Rightarrow> Some st) s
          else drain_loop n B shared_key want cap s)"

definition drain_until_complete ::
    "byteorder \<Rightarrow> bytes \<Rightarrow> bool \<Rightarrow> io \<Rightarrow> int \<times> nuki_keyturner_state option \<times> io" where
  "drain_until_complete B shared_key want s = drain_loop 10 B shared_key want None s"

definition nuki_command_lock_action ::
    "byteorder \<Rightarrow> u32 \<Rightarrow> u32 \<Rightarrow> bytes \<Rightarrow> u8 \<Rightarrow> bool \<Rightarrow> io
     \<Rightarrow> int \<times> nuki_keyturner_state option \<times> io" where
  "nuki_command_lock_action B auth_id app_id shared_key action want s =
     (case request_challenge B auth_id shared_key s of
        (Inl err, s) \<Rightarrow> (err, None, s)
      | (Inr nonce_k, s) \<Rightarrow>
          let action_payload = [action] @ sys_put_le32 B app_id @ [0] @ nonce_k;
              (err, s) = send_encrypted B auth_id shared_key NUKI_CMD_LOCK_ACTION action_payload s
          in if err \<noteq> 0 then (err, None, s)
             else drain_until_complete B shared_key want s)"

definition nuki_command_calibrate ::
    "byteorder \<Rightarrow> u32 \<Rightarrow> bytes \<Rightarrow> u16 \<Rightarrow> io \<Rightarrow> int \<times> io" where
  "nuki_command_calibrate B auth_id shared_key security_pin s =
     (case request_challenge B auth_id shared_key s of
        (Inl err, s) \<Rightarrow> (err, s)
      | (Inr nonce_k, s) \<Rightarrow>
          let payload = nonce_k @ sys_put_le16 B security_pin;
              (err, s) = send_encrypted B auth_id shared_key NUKI_CMD_REQUEST_CALIBRATION payload s
          in if err \<noteq> 0 then (err, s)
             else (case drain_until_complete B shared_key False s of (rc, _, s) \<Rightarrow> (rc, s)))"

section \<open>The wire format\<close>

text \<open>
  \<open>w\<close> is a message of the encrypted channel: a nonce, the authorization id in clear, the length,
  and the sealed frame.
\<close>

definition is_wire :: "bytes \<Rightarrow> u32 \<Rightarrow> u16 \<Rightarrow> bytes \<Rightarrow> bytes \<Rightarrow> bool" where
  "is_wire key aid cmd p w \<longleftrightarrow>
     (\<exists>nonce hdr plain box.
        length nonce = NUKI_NONCE_LEN \<and> length hdr = 4 \<and>
        nuki_frame_build_auth le_byteorder (8 + length p) aid cmd p = Some plain \<and>
        nuki_crypto_e1 plain nonce key = Inr box \<and>
        w = nonce @ hdr @ le16 (of_nat (length box)) @ box)"

lemma build_auth_any:
  "8 + length p \<le> n \<Longrightarrow>
   nuki_frame_build_auth le_byteorder n aid cmd p = nuki_frame_build_auth le_byteorder (8 + length p) aid cmd p"
  by (simp add: build_auth_eq)

lemma is_wire_length:
  assumes "is_wire key aid cmd p w" "length key = 32"
  shows "length w = 54 + length p"
proof -
  obtain nonce hdr plain box where w: "length nonce = 24" "length hdr = 4"
      "nuki_frame_build_auth le_byteorder (8 + length p) aid cmd p = Some plain"
      "nuki_crypto_e1 plain nonce key = Inr box"
      "w = nonce @ hdr @ le16 (of_nat (length box)) @ box"
    using assms(1) unfolding is_wire_def by blast
  have "length plain = 8 + length p" using auth.build_length [of "8 + length p" "(aid, cmd)" p] w(3) by simp
  moreover have "length box = 16 + length plain"
    using box.enc_length [of nonce key plain] w(1,4) assms(2) by (simp add: box_lengths_def)
  ultimately show ?thesis using w by simp
qed

section \<open>Sending\<close>

lemma send_encrypted_cases:
  assumes B: "byteorder_ok B" and k: "length key = 32"
    and send: "send_encrypted B aid key cmd p s = (rc, s')"
  shows "if 8 + length p \<le> NUKI_FRAME_MAX_LEN
         then \<exists>w. is_wire key aid cmd p w \<and>
                  nuki_transport_write w (s\<lparr>rnd_pos := rnd_pos s + 24\<rparr>) = (rc, s') \<and>
                  sent s' = sent s @ [w] \<and> inbound s' = inbound s \<and> write_script s' = tl (write_script s) \<and>
                  rx_buf (tr s') = rx_buf (tr s) \<and> rx_len (tr s') = rx_len (tr s)
         else rc = - EINVAL \<and> s' = s"
proof (cases "8 + length p \<le> NUKI_FRAME_MAX_LEN")
  case False
  then show ?thesis using send B by (simp add: send_encrypted_def build_auth_eq)
next
  case True
  let ?n = "map (rnd s) [rnd_pos s..<rnd_pos s + 24]"
  let ?s = "s\<lparr>rnd_pos := rnd_pos s + 24\<rparr>"
  obtain plain where pl: "nuki_frame_build_auth le_byteorder (8 + length p) aid cmd p = Some plain"
    using auth.build_fits [of "8 + length p" "(aid, cmd)" p] by auto
  have lp: "length plain = 8 + length p"
    using auth.build_length [of "8 + length p" "(aid, cmd)" p] pl by simp
  have kn: "box_lengths ?n key" using k by (simp add: box_lengths_def)
  obtain bx where bx: "nuki_crypto_e1 plain ?n key = Inr bx"
    using box.enc_total [OF kn, of plain] lp True by auto
  have lb: "length bx = 16 + length plain" using box.enc_length [OF kn bx] .
  let ?w = "?n @ le32 aid @ le16 (of_nat (length bx)) @ bx"
  have wr: "nuki_transport_write ?w ?s = (rc, s')"
    using send B pl bx True lb build_auth_any [OF True]
    by (simp add: send_encrypted_def sys_rand_get_def frame_functions_le [OF B] byteorder_ok_def)
  note e = transport_write_effect [OF wr]
  have "length ?n = 24" "length (le32 aid) = 4" by simp_all
  then have "is_wire key aid cmd p ?w"
    unfolding is_wire_def using pl bx by blast
  then show ?thesis using True e wr by auto
qed

section \<open>Receiving\<close>

lemma recv_encrypted_step:
  assumes w1: "wait_min_loop 30 (tr s) (inbound s) = (0, t1, e1)"
    and ct: "unat (sys_get_le16 B (drop 28 (take 30 (rx_buf t1)))) = ct" "16 \<le> ct" "ct \<le> 216"
    and w2: "wait_min_loop (30 + ct) t1 e1 = (0, t2, e2)"
  shows "recv_encrypted B key pmax s =
     (case nuki_crypto_d1 (drop 30 (take (30 + ct) (rx_buf t2))) (ct - 16) (take 24 (take 30 (rx_buf t1))) key of
        Inl err \<Rightarrow> (Inl err, s\<lparr>tr := t2\<lparr>rx_len := 0\<rparr>, inbound := e2, blocked := blocked s + 20\<rparr>)
      | Inr plain \<Rightarrow>
          (case nuki_frame_parse_auth B plain of
             Inl err \<Rightarrow> (Inl err, s\<lparr>tr := t2\<lparr>rx_len := 0\<rparr>, inbound := e2, blocked := blocked s + 20\<rparr>)
           | Inr (aid, cmd, p) \<Rightarrow>
               (if length p > pmax then Inl (- ENOMEM) else Inr (cmd, p),
                s\<lparr>tr := t2\<lparr>rx_len := 0\<rparr>, inbound := e2, blocked := blocked s + 20\<rparr>)))"
  using ct(2,3)
  by (simp add: recv_encrypted_def nuki_transport_wait_min_def nuki_transport_peek_def
      nuki_transport_reset_def w1 w2 ct(1) Let_def del: take_take split: sum.split)

lemma recv_encrypted_success:
  assumes "recv_encrypted B key pmax s = (Inr m, s')"
  obtains t1 e1 t2 e2 ct where
    "wait_min_loop 30 (tr s) (inbound s) = (0, t1, e1)"
    "unat (sys_get_le16 B (drop 28 (take 30 (rx_buf t1)))) = ct" "16 \<le> ct" "ct \<le> 216"
    "wait_min_loop (30 + ct) t1 e1 = (0, t2, e2)"
proof -
  obtain rc1 t1 e1 where w1: "wait_min_loop 30 (tr s) (inbound s) = (rc1, t1, e1)" by (metis prod_cases3)
  define ct where "ct = unat (sys_get_le16 B (drop 28 (take 30 (rx_buf t1))))"
  obtain rc2 t2 e2 where w2: "wait_min_loop (30 + ct) t1 e1 = (rc2, t2, e2)" by (metis prod_cases3)
  note d = recv_encrypted_def nuki_transport_wait_min_def nuki_transport_peek_def Let_def
  have r1: "rc1 = 0" using assms by (simp add: d w1 split: if_splits)
  have c: "16 \<le> ct" "ct \<le> 216"
    using assms by (simp_all add: d w1 r1 ct_def [symmetric] del: take_take split: if_splits)
  have "rc2 = 0"
    using assms c by (simp add: d w1 r1 ct_def [symmetric] w2 del: take_take split: if_splits)
  with w1 w2 r1 c show thesis using that ct_def by blast
qed

lemma recv_encrypted_wire:
  assumes B: "byteorder_ok B" and k: "length key = 32"
    and w: "is_wire key aid cmd p w" and len: "8 + length p \<le> MAX_PLAINTEXT" "length p \<le> pmax"
    and s: "io_idle s" "delivers (w # ms) (inbound s)"
  shows "\<exists>s'. recv_encrypted B key pmax s = (Inr (cmd, p), s') \<and> io_idle s' \<and>
              delivers ms (inbound s') \<and> same_output s s'"
proof -
  obtain nonce hdr plain bx where n: "length nonce = 24" "length hdr = 4"
    and pl: "nuki_frame_build_auth le_byteorder (8 + length p) aid cmd p = Some plain"
    and e: "nuki_crypto_e1 plain nonce key = Inr bx"
    and wd: "w = nonce @ hdr @ le16 (of_nat (length bx)) @ bx"
    using w unfolding is_wire_def by blast
  have kn: "box_lengths nonce key" using k n by (simp add: box_lengths_def)
  have lp: "length plain = 8 + length p"
    using auth.build_length [of "8 + length p" "(aid, cmd)" p] pl by simp
  have lb: "length bx = 16 + length plain" using box.enc_length [OF kn e] .
  have lw: "length w = 30 + length bx" using n by (simp add: wd)
  have lw256: "length w \<le> NUKI_WIRE_MAX_LEN" using lw lb lp len(1) by simp
  obtain rest where a: "awaits w rest (tr s) (inbound s)" and rest: "delivers ms rest"
    using delivers_awaits [OF s(2)] s(1) by (auto simp: io_idle_def)
  obtain t1 e1 where w1: "wait_min_loop 30 (tr s) (inbound s) = (0, t1, e1)" "awaits w rest t1 e1" "30 \<le> rx_len t1"
    using wait_awaits [OF a _ lw256, of 30] lw by auto
  obtain t2 e2 where w2: "wait_min_loop (length w) t1 e1 = (0, t2, e2)" "awaits w rest t2 e2" "length w \<le> rx_len t2"
    using wait_awaits [OF w1(2) _ lw256, of "length w"] by auto
  have len2: "rx_len t2 = length w" using awaits_bounded [OF w2(2)] w2(3) by simp
  have p1: "take 30 (rx_buf t1) = take 30 w" by (rule awaits_contents [OF w1(2,3)])
  have p2: "take (length w) (rx_buf t2) = w" using awaits_contents [OF w2(2,3)] by simp
  have hdr: "take 24 (take 30 w) = nonce" "take 2 (drop 28 (take 30 w)) = le16 (of_nat (length bx))"
    using n by (simp_all add: wd)
  have "length bx < 65536" using lb lp len(1) by simp
  then have ct: "unat (sys_get_le16 B (drop 28 (take 30 w))) = length bx"
    using B lw hdr(2) by (simp add: byteorder_ok_def unat_of_nat)
  have ct': "unat (sys_get_le16 B (drop 28 (take 30 (rx_buf t1)))) = length bx"
    using ct by (simp only: p1)
  have bl: "16 \<le> length bx" "length bx \<le> 216" using lb lp len(1) by simp_all
  have d1: "nuki_crypto_d1 (drop 30 w) (length bx - 16) nonce key = Inr plain"
    using box.dec_enc [OF kn e] lb n by (simp add: wd)
  have ps: "nuki_frame_parse_auth B plain = Inr (aid, cmd, p)"
    using auth.parse_build [of "8 + length p" "(aid, cmd)" p plain] pl
    by (cases "nuki_frame_parse_auth le_byteorder plain")
      (auto simp: frame_functions_le [OF B])
  let ?s2 = "s\<lparr>tr := t2\<lparr>rx_len := 0\<rparr>, inbound := e2, blocked := blocked s + 20\<rparr>"
  have "recv_encrypted B key pmax s = (Inr (cmd, p), ?s2)"
    unfolding recv_encrypted_step [OF w1(1) ct' bl w2(1) [unfolded lw]] p1 p2 [unfolded lw] hdr(1) d1
    using len(2) by (simp add: ps)
  moreover have "io_idle ?s2" using w2(2) by (simp add: io_idle_def awaits_def tr_ok_def)
  moreover have "delivers ms e2" using awaits_done [OF w2(2) len2 rest] .
  ultimately show ?thesis by (simp add: same_output_def)
qed

lemma recv_encrypted_rx:
  assumes "recv_encrypted B key pmax s = (r, s')"
  shows "rx_step s s'"
proof -
  obtain rc1 s1 where w1: "nuki_transport_wait_min ADATA_HDR_LEN RECV_TIMEOUT s = (rc1, s1)" by fastforce
  let ?ct = "unat (sys_get_le16 B (drop 28 (nuki_transport_peek s1 ADATA_HDR_LEN)))"
  obtain rc2 s2 where w2: "nuki_transport_wait_min (ADATA_HDR_LEN + ?ct) RECV_TIMEOUT s1 = (rc2, s2)" by fastforce
  have "s' \<in> {s1, nuki_transport_reset s1, s2, nuki_transport_reset s2}"
    using assms by (auto simp: recv_encrypted_def w1 w2 Let_def split: if_splits sum.splits)
  then show ?thesis
    using wait_min_rx [OF w1] rx_step_trans [OF wait_min_rx [OF w1] wait_min_rx [OF w2]] rx_step_reset by auto
qed

lemma recv_encrypted_frame:
  "recv_encrypted B key pmax s = (r, s') \<Longrightarrow> tr_ok (tr s) \<Longrightarrow> same_output s s' \<and> tr_ok (tr s')"
  using recv_encrypted_rx by (auto simp: rx_step_def)

lemma wire_split:
  assumes "length w = 30 + n" "unat (of_nat (le_val (drop 28 (take 30 w))) :: u16) = n"
  shows "w = take 24 w @ take 4 (drop 24 w) @ le16 (of_nat (length (drop 30 w))) @ drop 30 w"
proof -
  have "length (drop 28 (take 30 w)) = 2" using assms(1) by simp
  note v = le16_val [OF this]
  have "(of_nat (length (drop 30 w)) :: u16) = of_nat (le_val (drop 28 (take 30 w)))"
    unfolding length_drop assms(1) add_diff_cancel_left' assms(2) [symmetric] by simp
  with v have "le16 (of_nat (length (drop 30 w))) = drop 28 (take 30 w)" by (simp only:)
  moreover have "w = take 24 w @ take 4 (drop 24 w) @ take 2 (drop 28 w) @ drop 30 w"
    using append_take_drop_id [of 24 w] append_take_drop_id [of 4 "drop 24 w"]
      append_take_drop_id [of 2 "drop 28 w"] by simp
  moreover have "take 2 (drop 28 w) = drop 28 (take 30 w)" by (simp add: drop_take)
  ultimately show ?thesis by simp
qed

lemma recv_encrypted_authentic:
  assumes B: "byteorder_ok B" and k: "length key = 32" and ok: "tr_ok (tr s)"
    and r: "recv_encrypted B key pmax s = (Inr (cmd, p), s')"
  shows "\<exists>aid w used. is_wire key aid cmd p w \<and> length w \<le> 246 \<and> length p \<le> pmax \<and>
           inbound s = used @ inbound s' \<and> io_idle s' \<and>
           w = take (length w) (take NUKI_WIRE_MAX_LEN (tr_contents (tr s) @ event_bytes used))"
proof -
  obtain t1 e1 t2 e2 ct where w1: "wait_min_loop 30 (tr s) (inbound s) = (0, t1, e1)"
    and ctd: "unat (sys_get_le16 B (drop 28 (take 30 (rx_buf t1)))) = ct" and ct: "16 \<le> ct" "ct \<le> 216"
    and w2: "wait_min_loop (30 + ct) t1 e1 = (0, t2, e2)"
    using recv_encrypted_success [OF r] .
  define w where "w = take (30 + ct) (rx_buf t2)"
  obtain used where u: "inbound s = used @ e2" and ok2: "tr_ok t2" "30 + ct \<le> rx_len t2"
    and c2: "tr_contents t2 = take NUKI_WIRE_MAX_LEN (tr_contents (tr s) @ event_bytes used)"
    and h: "take 30 (rx_buf t1) = take 30 (rx_buf t2)"
    using two_waits [OF ok w1 w2] by blast
  have hw: "take 30 (rx_buf t1) = take 30 w" "take 24 (take 30 w) = take 24 w"
    by (simp_all add: h w_def)
  have wc: "w = take (30 + ct) (tr_contents t2)" using ok2(2) by (simp add: w_def tr_contents_def min_def)
  have lw: "length w = 30 + ct" using ok2 by (simp add: w_def tr_ok_def)
  note step = recv_encrypted_step [OF w1 ctd ct w2, of key pmax, folded w_def, unfolded hw]
  obtain plain fa where d: "nuki_crypto_d1 (drop 30 w) (ct - 16) (take 24 w) key = Inr plain"
    and ps: "nuki_frame_parse_auth B plain = Inr (fa, cmd, p)"
    and pm: "length p \<le> pmax" and s': "s' = s\<lparr>tr := t2\<lparr>rx_len := 0\<rparr>, inbound := e2, blocked := blocked s + 20\<rparr>"
    using r unfolding step by (auto split: sum.splits prod.splits if_splits)
  have kn: "box_lengths (take 24 w) key" using k lw by (simp add: box_lengths_def)
  have e: "nuki_crypto_e1 plain (take 24 w) key = Inr (drop 30 w)"
    using box.enc_dec [OF kn _ d] lw ct by simp
  have par: "map_sum id (\<lambda>(aid, cmd, p). ((aid, cmd), p)) (nuki_frame_parse_auth le_byteorder plain) = Inr ((fa, cmd), p)"
    using ps by (simp add: frame_functions_le [OF B])
  have pl: "nuki_frame_build_auth le_byteorder (8 + length p) fa cmd p = Some plain"
    using auth.build_parse [OF par, of "8 + length p"] auth.payload_length [OF par] by simp
  have "unat (of_nat (le_val (drop 28 (take 30 w))) :: u16) = ct"
    using ctd B lw by (simp add: hw(1) byteorder_ok_def)
  then have "w = take 24 w @ take 4 (drop 24 w) @ le16 (of_nat (length (drop 30 w))) @ drop 30 w"
    by (rule wire_split [OF lw])
  moreover have "length (take 24 w) = 24" "length (take 4 (drop 24 w)) = 4" using lw by simp_all
  ultimately have "is_wire key fa cmd p w" unfolding is_wire_def using pl e by blast
  moreover have "length w \<le> 246" using lw ct by simp
  moreover have "io_idle s'" using ok2 by (simp add: s' io_idle_def tr_ok_def)
  moreover have "w = take (length w) (take NUKI_WIRE_MAX_LEN (tr_contents (tr s) @ event_bytes used))"
    unfolding lw c2 [symmetric] by (rule wc)
  moreover have "inbound s = used @ inbound s'" using u by (simp add: s')
  ultimately show ?thesis using pm by blast
qed

lemma recv_encrypted_error:
  assumes r: "recv_encrypted B key pmax s = (Inl e, s')" and B: "byteorder_ok B" and ok: "tr_ok (tr s)"
    and pm: "MAX_PLAINTEXT \<le> pmax" and k: "length key = 32"
  shows "e \<in> {- EAGAIN, - EBADMSG, - EINVAL}"
proof -
  obtain rc1 t1 e1 where w1: "wait_min_loop 30 (tr s) (inbound s) = (rc1, t1, e1)" by (metis prod_cases3)
  note r1 = wait_min_loop_result [OF ok w1]
  define ct where "ct = unat (sys_get_le16 B (drop 28 (take 30 (rx_buf t1))))"
  obtain rc2 t2 e2 where w2: "wait_min_loop (30 + ct) t1 e1 = (rc2, t2, e2)" by (metis prod_cases3)
  note r2 = wait_min_loop_result [OF conjunct1 [OF r1] w2]
  note d = recv_encrypted_def nuki_transport_wait_min_def nuki_transport_peek_def Let_def
  consider "rc1 \<noteq> 0" | "rc1 = 0" "ct < 16 \<or> 216 < ct" | "rc1 = 0" "16 \<le> ct" "ct \<le> 216" "rc2 \<noteq> 0"
    | "rc1 = 0" "16 \<le> ct" "ct \<le> 216" "rc2 = 0" by linarith
  then show ?thesis
  proof cases
    case 1
    then show ?thesis using r r1 by (auto simp: d w1)
  next
    case 2
    then show ?thesis using r by (auto simp: d w1 ct_def [symmetric] simp del: take_take)
  next
    case 3
    then have "e = rc2" using r by (simp add: d w1 ct_def [symmetric] w2 del: take_take)
    then show ?thesis using r2 3 by auto
  next
    case 4
    let ?n = "take 24 (take 30 (rx_buf t1))" and ?b = "drop 30 (take (30 + ct) (rx_buf t2))"
    note step = recv_encrypted_step [OF w1 [unfolded 4(1)] ct_def [symmetric] 4(2,3) w2 [unfolded 4(4)], of key pmax]
    have kn: "box_lengths ?n key" using k r1 by (simp add: box_lengths_def tr_ok_def)
    have lb: "length ?b = 16 + (ct - 16)" using r2 4 by (simp add: tr_ok_def)
    show ?thesis
    proof (cases "nuki_crypto_d1 ?b (ct - 16) ?n key")
      case (Inl e')
      then have "e' = - EBADMSG" using d1_rejects [OF kn _ lb] 4(3) by (auto simp del: take_take)
      then show ?thesis using r Inl unfolding step by simp
    next
      case (Inr plain)
      have "length plain \<le> pmax" using box.opened_length [OF kn lb Inr] 4(3) pm by simp
      then show ?thesis
        using r unfolding step Inr parse_auth_eq [OF B] by (auto split: if_splits)
    qed
  qed
qed

section \<open>Draining status messages\<close>

text \<open>
  What the drain loop makes of a sequence of decrypted messages: \<open>None\<close> when the sequence
  ends before the loop does.
\<close>

fun drain_msgs ::
    "nat \<Rightarrow> byteorder \<Rightarrow> (u16 \<times> bytes) list \<Rightarrow> bool \<Rightarrow> nuki_keyturner_state option
     \<Rightarrow> (int \<times> nuki_keyturner_state option) option" where
  "drain_msgs 0 B ms want cap = Some (- ETIMEDOUT, cap)"
| "drain_msgs (Suc n) B [] want cap = None"
| "drain_msgs (Suc n) B ((cmd, p) # ms) want cap =
     (if cmd = NUKI_CMD_ERROR_REPORT then Some (- EIO, cap)
      else if cmd = NUKI_CMD_STATUS \<and> length p \<noteq> 1 then Some (- EBADMSG, cap)
      else if cmd = NUKI_CMD_STATUS \<and> p = [NUKI_STATUS_COMPLETE] then Some (0, cap)
      else drain_msgs n B ms want
             (if cmd = NUKI_CMD_KEYTURNER_STATES \<and> want
              then (case nuki_keyturner_state_parse B p of Inl _ \<Rightarrow> cap | Inr st \<Rightarrow> Some st) else cap))"

lemmas drain_msgs_numeral [simp] = drain_msgs.simps(3) [of "pred_numeral n" for n, folded numeral_eq_Suc]

definition wires :: "bytes \<Rightarrow> (u16 \<times> bytes) list \<Rightarrow> bytes list \<Rightarrow> bool" where
  "wires key ms ws \<longleftrightarrow>
     list_all2 (\<lambda>(cmd, p) w. (\<exists>aid. is_wire key aid cmd p w) \<and> 8 + length p \<le> MAX_PLAINTEXT) ms ws"

lemma recv_wires:
  assumes "byteorder_ok B" "length key = 32" "wires key ((cmd, p) # ms) ws" "io_idle s" "delivers ws (inbound s)"
  obtains ws' s' where "recv_encrypted B key MAX_PLAINTEXT s = (Inr (cmd, p), s')" "io_idle s'"
    "wires key ms ws'" "delivers ws' (inbound s')" "same_output s s'"
proof -
  obtain w ws' aid where ws: "ws = w # ws'" "is_wire key aid cmd p w" "8 + length p \<le> MAX_PLAINTEXT"
    "wires key ms ws'" using assms(3) by (auto simp: wires_def list_all2_Cons1)
  have "delivers (w # ws') (inbound s)" using assms(5) ws(1) by simp
  from recv_encrypted_wire [OF assms(1,2) ws(2,3) _ assms(4) this, of MAX_PLAINTEXT] ws(3,4) that
  show thesis by auto
qed

lemma drain_loop_refines:
  "byteorder_ok B \<Longrightarrow> length key = 32 \<Longrightarrow> wires key ms ws \<Longrightarrow> io_idle s \<Longrightarrow> delivers ws (inbound s) \<Longrightarrow>
    drain_msgs n B ms want cap = Some (rc, cap') \<Longrightarrow>
    \<exists>s'. drain_loop n B key want cap s = (rc, cap', s') \<and> io_idle s' \<and> same_output s s'"
proof (induction n B ms want cap arbitrary: ws s rule: drain_msgs.induct)
  case (3 n B cmd p ms want cap)
  obtain ws' s1 where r: "recv_encrypted B key MAX_PLAINTEXT s = (Inr (cmd, p), s1)" "io_idle s1"
    "wires key ms ws'" "delivers ws' (inbound s1)" "same_output s s1"
    using recv_wires [OF "3.prems"(1-5)] .
  let ?last = "cmd = NUKI_CMD_ERROR_REPORT \<or> cmd = NUKI_CMD_STATUS \<and> (length p \<noteq> 1 \<or> p = [NUKI_STATUS_COMPLETE])"
  have one: "length p = 1 \<Longrightarrow> p = [p ! 0]" by (cases p) auto
  show ?case
  proof (cases ?last)
    case True
    then show ?thesis using "3.prems"(6) r one by auto
  next
    case False
    let ?cap = "if cmd = NUKI_CMD_KEYTURNER_STATES \<and> want
              then (case nuki_keyturner_state_parse B p of Inl _ \<Rightarrow> cap | Inr st \<Rightarrow> Some st) else cap"
    have "drain_msgs n B ms want ?cap = Some (rc, cap')" using "3.prems"(6) False by auto
    then obtain s' where s': "drain_loop n B key want ?cap s1 = (rc, cap', s')" "io_idle s'" "same_output s1 s'"
      using "3.IH" [OF _ _ _ "3.prems"(1,2) r(3,2,4)] False by auto
    have "drain_loop (Suc n) B key want cap s = drain_loop n B key want ?cap s1"
      using r(1) False one by auto
    then show ?thesis using s' same_output_trans [OF r(5)] by auto
  qed
qed auto

section \<open>Command sequences\<close>

lemma recv_authentic_received:
  assumes "byteorder_ok B" "length key = 32" "tr_ok (tr s)"
    and "recv_encrypted B key pmax s = (Inr (cmd, p), s')"
  obtains aid w where "is_wire key aid cmd p w" "received s s' w" "io_idle s'"
  using recv_encrypted_authentic [OF assms] unfolding received_def fronts_def by metis

lemma send_encrypted_tr_ok:
  assumes "byteorder_ok B" "length key = 32" "send_encrypted B aid key cmd p s = (rc, s')"
  shows "tr_ok (tr s') = tr_ok (tr s)" "tr_contents (tr s') = tr_contents (tr s)" "inbound s' = inbound s"
    "io_idle s' = io_idle s"
  using send_encrypted_cases [OF assms] by (auto simp: tr_ok_def tr_contents_def io_idle_def split: if_splits)

lemma send_encrypted_ok:
  assumes "byteorder_ok B" "length key = 32" "8 + length p \<le> NUKI_FRAME_MAX_LEN"
    and "write_script s = o1 # os" "write_ok o1"
  obtains w s' where "send_encrypted B aid key cmd p s = (0, s')" "is_wire key aid cmd p w"
    "sent s' = sent s @ [w]" "write_script s' = os" "io_idle s' = io_idle s" "inbound s' = inbound s"
proof -
  obtain rc s' where e: "send_encrypted B aid key cmd p s = (rc, s')" by fastforce
  note c = send_encrypted_cases [OF assms(1,2) e]
  then obtain w where w: "is_wire key aid cmd p w"
    "nuki_transport_write w (s\<lparr>rnd_pos := rnd_pos s + 24\<rparr>) = (rc, s')" "sent s' = sent s @ [w]"
    "write_script s' = os" using assms(3,4) by auto
  have "rc = 0" using w(2) assms(4,5) by (auto simp: nuki_transport_write_def Let_def write_ok_def write_cb_def)
  then show thesis using that e w send_encrypted_tr_ok [OF assms(1,2) e] by auto
qed

lemma request_challenge_cases:
  assumes B: "byteorder_ok B" and k: "length key = 32" and ok: "tr_ok (tr s)"
    and r: "request_challenge B aid key s = (res, s')"
  shows "tr_ok (tr s') \<and>
    (\<exists>w1. is_wire key aid NUKI_CMD_REQUEST_DATA (le16 NUKI_CMD_CHALLENGE) w1 \<and> sent s' = sent s @ [w1]) \<and>
    (case res of Inl e \<Rightarrow> e \<noteq> 0
     | Inr nk \<Rightarrow> length nk = 32 \<and> io_idle s' \<and>
         (\<exists>aid' w. is_wire key aid' NUKI_CMD_CHALLENGE nk w \<and> received s s' w))"
proof -
  have p: "sys_put_le16 B v = le16 v" for v using B by (simp add: byteorder_ok_def)
  obtain rc s1 where e: "send_encrypted B aid key NUKI_CMD_REQUEST_DATA (le16 NUKI_CMD_CHALLENGE) s = (rc, s1)"
    by fastforce
  obtain w1 where w1: "is_wire key aid NUKI_CMD_REQUEST_DATA (le16 NUKI_CMD_CHALLENGE) w1" "sent s1 = sent s @ [w1]"
    using send_encrypted_cases [OF B k e] by auto
  note f = send_encrypted_tr_ok [OF B k e]
  show ?thesis
  proof (cases "rc = 0")
    case False
    then show ?thesis using r e w1 f ok by (auto simp: request_challenge_def p)
  next
    case True
    obtain rr s2 where rv: "recv_encrypted B key MAX_PLAINTEXT s1 = (rr, s2)" by fastforce
    have ok1: "tr_ok (tr s1)" using f ok by simp
    note fr = recv_encrypted_frame [OF rv ok1]
    have o: "\<exists>w1. is_wire key aid NUKI_CMD_REQUEST_DATA (le16 NUKI_CMD_CHALLENGE) w1 \<and> sent s2 = sent s @ [w1]"
      using w1 fr by (auto simp: same_output_def)
    show ?thesis
    proof (cases rr)
      case (Inl err)
      then have "res = Inl err" "s' = s2" using r e True rv by (auto simp: request_challenge_def p)
      moreover have "err \<noteq> 0" using recv_encrypted_error [OF rv [unfolded Inl] B ok1 _ k] by auto
      ultimately show ?thesis using o fr by simp
    next
      case (Inr m)
      obtain cmd nk where m: "m = (cmd, nk)" by fastforce
      have s': "s' = s2" and res: "res = (if cmd \<noteq> NUKI_CMD_CHALLENGE \<or> length nk \<noteq> 32 then Inl (- EBADMSG) else Inr nk)"
        using r e True rv by (auto simp: request_challenge_def p Inr m split: if_splits)
      obtain aid' w where w: "is_wire key aid' cmd nk w" "received s1 s2 w" "io_idle s2"
        using recv_authentic_received [OF B k ok1 rv [unfolded Inr m]] .
      have "received s s2 w" using w(2) f by (simp add: received_def)
      then show ?thesis using o fr w s' res by (auto split: if_splits)
    qed
  qed
qed

text \<open>
  The bytes that the events bring, after \<open>c\<close>, begin with an authentic message; an authentic message
  was read at some point during the events, from an empty buffer.
\<close>

definition got_message :: "bytes \<Rightarrow> bytes \<Rightarrow> wait_event list \<Rightarrow> u16 \<Rightarrow> bytes \<Rightarrow> bool" where
  "got_message key c evs cmd p \<longleftrightarrow> (\<exists>aid w. is_wire key aid cmd p w \<and> fronts c evs w)"

definition got_during :: "bytes \<Rightarrow> wait_event list \<Rightarrow> u16 \<Rightarrow> bytes \<Rightarrow> bool" where
  "got_during key evs cmd p \<longleftrightarrow> (\<exists>x y z. evs = x @ y @ z \<and> got_message key [] y cmd p)"

lemma got_during_prepend: "got_during key evs cmd p \<Longrightarrow> got_during key (u @ evs) cmd p"
  unfolding got_during_def by (metis append_assoc)

lemma got_during_now: "got_message key [] y cmd p \<Longrightarrow> got_during key (y @ z) cmd p"
  unfolding got_during_def by (metis append_Nil)

lemma drain_loop_step:
  assumes "recv_encrypted B key MAX_PLAINTEXT s = (r, s1)" "drain_loop (Suc n) B key want cap s = (rc, cap', s')"
  shows "s' = s1 \<and> cap' = cap \<and> (rc = 0 \<longrightarrow> r = Inl 0 \<or> r = Inr (NUKI_CMD_STATUS, [NUKI_STATUS_COMPLETE])) \<or>
    (\<exists>cap1 m. r = Inr m \<and> drain_loop n B key want cap1 s1 = (rc, cap', s') \<and>
       (cap1 = cap \<or> (\<exists>p st. r = Inr (NUKI_CMD_KEYTURNER_STATES, p) \<and>
                              nuki_keyturner_state_parse B p = Inr st \<and> cap1 = Some st)))"
proof -
  have one: "length p = 1 \<Longrightarrow> p ! 0 = c \<Longrightarrow> p = [c]" for p :: bytes and c by (cases p) auto
  show ?thesis
  proof (cases r)
    case (Inl e)
    then show ?thesis using assms by simp
  next
    case (Inr m)
    obtain cmd p where m: "m = (cmd, p)" by fastforce
    consider "cmd = NUKI_CMD_ERROR_REPORT" | "cmd = NUKI_CMD_STATUS" "length p \<noteq> 1"
      | "cmd = NUKI_CMD_STATUS" "length p = 1" | "cmd = NUKI_CMD_KEYTURNER_STATES"
      | "cmd \<notin> {NUKI_CMD_ERROR_REPORT, NUKI_CMD_STATUS, NUKI_CMD_KEYTURNER_STATES}" by auto
    then show ?thesis
    proof cases
      case 3
      then show ?thesis using assms one [of p NUKI_STATUS_COMPLETE] Inr m by (auto split: if_splits)
    next
      case 4
      then show ?thesis
        using assms Inr m by (cases "nuki_keyturner_state_parse B p") (auto split: if_splits)
    qed (use assms Inr m in auto)
  qed
qed

lemma drain_loop_rx:
  "drain_loop n B key want cap s = (rc, cap', s') \<Longrightarrow> rx_step s s'"
proof (induction n arbitrary: cap s)
  case (Suc n)
  obtain r s1 where r: "recv_encrypted B key MAX_PLAINTEXT s = (r, s1)" by fastforce
  show ?case
    using drain_loop_step [OF r Suc.prems] Suc.IH recv_encrypted_rx [OF r] rx_step_trans by blast
qed simp

lemma recv_got_message:
  assumes "byteorder_ok B" "length key = 32" "tr_ok (tr s)"
    and "recv_encrypted B key pmax s = (Inr (cmd, p), s')"
  obtains e where "inbound s = e @ inbound s'" "got_message key (tr_contents (tr s)) e cmd p" "io_idle s'"
  using recv_authentic_received [OF assms] unfolding received_def got_message_def by metis

lemma drain_loop_result:
  assumes B: "byteorder_ok B" and k: "length key = 32"
  shows "drain_loop n B key want cap s = (rc, cap', s') \<Longrightarrow> io_idle s \<Longrightarrow>
   \<exists>evs. inbound s = evs @ inbound s' \<and>
   (rc = 0 \<longrightarrow> io_idle s' \<and> got_during key evs NUKI_CMD_STATUS [NUKI_STATUS_COMPLETE]) \<and>
   (cap' = cap \<or> (\<exists>p st. cap' = Some st \<and> nuki_keyturner_state_parse B p = Inr st \<and>
                         got_during key evs NUKI_CMD_KEYTURNER_STATES p))"
proof (induction n arbitrary: cap s)
  case (Suc n)
  obtain r s1 where r: "recv_encrypted B key MAX_PLAINTEXT s = (r, s1)" by fastforce
  have ok: "tr_ok (tr s)" using Suc.prems(2) by (simp add: io_idle_def)
  obtain u where u: "inbound s = u @ inbound s1" using recv_encrypted_rx [OF r] by (auto simp: rx_step_def)
  have got: "io_idle s1 \<and> got_message key [] u cmd p" if "r = Inr (cmd, p)" for cmd p
    using recv_got_message [OF B k ok r [unfolded that]] u io_idle_contents [OF Suc.prems(2)]
    by (metis append_same_eq)
  have e0: "r \<noteq> Inl 0"
    using recv_encrypted_error [OF _ B ok order_refl k] r by fastforce
  from drain_loop_step [OF r Suc.prems(1)] show ?case
  proof (elim disjE [of "_ \<and> _"] exE conjE)
    assume "s' = s1" "cap' = cap" "rc = 0 \<longrightarrow> r = Inl 0 \<or> r = Inr (NUKI_CMD_STATUS, [NUKI_STATUS_COMPLETE])"
    then show ?thesis
      using u e0 got [of NUKI_CMD_STATUS "[NUKI_STATUS_COMPLETE]"] got_during_now [of key u NUKI_CMD_STATUS _ "[]"] by auto
  next
    fix cap1 m assume m: "r = Inr m" and d: "drain_loop n B key want cap1 s1 = (rc, cap', s')"
      and cap1: "cap1 = cap \<or> (\<exists>p st. r = Inr (NUKI_CMD_KEYTURNER_STATES, p) \<and>
                   nuki_keyturner_state_parse B p = Inr st \<and> cap1 = Some st)"
    have "io_idle s1" using got m by (metis surj_pair)
    from Suc.IH [OF d this] obtain e1 where e1: "inbound s1 = e1 @ inbound s'"
      "rc = 0 \<longrightarrow> io_idle s' \<and> got_during key e1 NUKI_CMD_STATUS [NUKI_STATUS_COMPLETE]"
      "cap' = cap1 \<or> (\<exists>p st. cap' = Some st \<and> nuki_keyturner_state_parse B p = Inr st \<and>
                             got_during key e1 NUKI_CMD_KEYTURNER_STATES p)" by blast
    have "cap' = cap \<or> (\<exists>p st. cap' = Some st \<and> nuki_keyturner_state_parse B p = Inr st \<and>
                             got_during key (u @ e1) NUKI_CMD_KEYTURNER_STATES p)"
      using e1(3) cap1 got got_during_prepend got_during_now by metis
    then show ?thesis using u e1 got_during_prepend by (intro exI [of _ "u @ e1"]) simp
  qed
qed simp

lemma drain_until_complete_result:
  assumes "byteorder_ok B" "length key = 32" "drain_until_complete B key want s = (rc, cap, s')" "io_idle s"
  obtains evs where "inbound s = evs @ inbound s'"
    "rc = 0 \<longrightarrow> io_idle s' \<and> got_during key evs NUKI_CMD_STATUS [NUKI_STATUS_COMPLETE]"
    "\<forall>st. cap = Some st \<longrightarrow> (\<exists>p. nuki_keyturner_state_parse B p = Inr st \<and> got_during key evs NUKI_CMD_KEYTURNER_STATES p)"
proof -
  have "drain_loop 10 B key want None s = (rc, cap, s')" using assms(3) by (simp add: drain_until_complete_def)
  from drain_loop_result [OF assms(1,2) this assms(4)] that show thesis by (metis option.distinct(1) option.inject)
qed

context io_relation
begin

lemma send_encrypted_rel: "send_encrypted B aid key cmd p s = (rc, s') \<Longrightarrow> R s s'"
  by (auto simp: send_encrypted_def Let_def intro: refl_rel rand_rel write_rel trans_rel
      split: option.splits prod.splits sum.splits)

lemma recv_encrypted_rel:
  assumes "recv_encrypted B key n s = (r, s')"
  shows "R s s'"
proof -
  obtain e1 s1 where w1: "nuki_transport_wait_min ADATA_HDR_LEN RECV_TIMEOUT s = (e1, s1)" by fastforce
  let ?n = "ADATA_HDR_LEN + unat (sys_get_le16 B (drop 28 (nuki_transport_peek s1 ADATA_HDR_LEN)))"
  obtain e2 s2 where w2: "nuki_transport_wait_min ?n RECV_TIMEOUT s1 = (e2, s2)" by fastforce
  have "s' \<in> {s1, s2, nuki_transport_reset s1, nuki_transport_reset s2}"
    using assms w1 w2 by (auto simp: recv_encrypted_def Let_def split: if_splits sum.splits prod.splits)
  then show ?thesis using wait_rel [OF w1] wait_rel [OF w2] reset_rel trans_rel by blast
qed

lemma get_state_rel: "nuki_command_get_state B aid key s = (r, s') \<Longrightarrow> R s s'"
  by (auto simp: nuki_command_get_state_def Let_def intro: refl_rel send_encrypted_rel recv_encrypted_rel trans_rel
      split: prod.splits sum.splits if_splits)

lemma request_challenge_rel: "request_challenge B aid key s = (r, s') \<Longrightarrow> R s s'"
  by (auto simp: request_challenge_def Let_def intro: refl_rel send_encrypted_rel recv_encrypted_rel trans_rel
      split: prod.splits sum.splits if_splits)

lemma drain_loop_rel: "drain_loop n B key want cap s = (rc, cap', s') \<Longrightarrow> R s s'"
proof (induction n arbitrary: cap s)
  case (Suc n)
  obtain r s1 where r: "recv_encrypted B key MAX_PLAINTEXT s = (r, s1)" by fastforce
  show ?case
    using drain_loop_step [OF r Suc.prems] Suc.IH recv_encrypted_rel [OF r] trans_rel by blast
qed (simp add: refl_rel)

lemma lock_action_rel: "nuki_command_lock_action B aid app key act want s = (rc, cap, s') \<Longrightarrow> R s s'"
  by (auto simp: nuki_command_lock_action_def drain_until_complete_def Let_def
      dest!: request_challenge_rel send_encrypted_rel drain_loop_rel intro: trans_rel trans3_rel
      split: prod.splits sum.splits if_splits)

lemma calibrate_rel: "nuki_command_calibrate B aid key pin s = (rc, s') \<Longrightarrow> R s s'"
  by (auto simp: nuki_command_calibrate_def drain_until_complete_def Let_def
      dest!: request_challenge_rel send_encrypted_rel drain_loop_rel intro: trans_rel trans3_rel
      split: prod.splits sum.splits if_splits)

end

lemma is_wire_exists:
  assumes "length key = 32" "8 + length p \<le> NUKI_CRYPTO_MAX_MSG_LEN"
  shows "\<exists>w. is_wire key aid cmd p w"
proof -
  obtain plain where pl: "nuki_frame_build_auth le_byteorder (8 + length p) aid cmd p = Some plain"
    using auth.build_fits [of "8 + length p" "(aid, cmd)" p] by auto
  have kn: "box_lengths (replicate 24 0) key" using assms by (simp add: box_lengths_def)
  have "length plain = 8 + length p" using auth.build_length [of "8 + length p" "(aid, cmd)" p] pl by simp
  then obtain b where "nuki_crypto_e1 plain (replicate 24 0) key = Inr b"
    using box.enc_total [OF kn, of plain] assms(2) by auto
  then have "is_wire key aid cmd p (replicate 24 0 @ replicate 4 0 @ le16 (of_nat (length b)) @ b)"
    unfolding is_wire_def using pl
    by (intro exI [of _ "replicate 24 0"] exI [of _ "replicate 4 0"] exI [of _ plain] exI [of _ b]) simp
  then show ?thesis by blast
qed

lemma wires_exist:
  "length key = 32 \<Longrightarrow> \<forall>(cmd, p) \<in> set ms. 8 + length p \<le> MAX_PLAINTEXT \<Longrightarrow> \<exists>ws. wires key ms ws"
proof (induction ms)
  case (Cons m ms)
  obtain cmd p where m: "m = (cmd, p)" by fastforce
  obtain w where "is_wire key 0 cmd p w" using is_wire_exists [OF Cons.prems(1), of p 0 cmd] Cons.prems(2) m by auto
  then show ?case using Cons m by (fastforce simp: wires_def list_all2_Cons1)
qed (auto simp: wires_def)

lemma challenge_command_cases:
  assumes B: "byteorder_ok B" and k: "length key = 32" and idle: "tr_ok (tr s)"
    and r: "request_challenge B aid key s = (Inr nk, s1)"
    and e: "send_encrypted B aid key cmd (pay nk) s1 = (rc, s2)" and l: "8 + length (pay nk) \<le> NUKI_FRAME_MAX_LEN"
  obtains e1 w1 w2 where "io_idle s2" "length nk = 32" "inbound s = e1 @ inbound s2"
    "got_message key (tr_contents (tr s)) e1 NUKI_CMD_CHALLENGE nk" "sent s2 = sent s @ [w1, w2]"
    "is_wire key aid NUKI_CMD_REQUEST_DATA (le16 NUKI_CMD_CHALLENGE) w1" "is_wire key aid cmd (pay nk) w2"
proof -
  note c = request_challenge_cases [OF B k idle r]
  note f = send_encrypted_tr_ok [OF B k e]
  obtain w2 where w2: "is_wire key aid cmd (pay nk) w2" "sent s2 = sent s1 @ [w2]"
    using send_encrypted_cases [OF B k e] l by auto
  obtain aid' wc e1 where "is_wire key aid' NUKI_CMD_CHALLENGE nk wc" "inbound s = e1 @ inbound s1"
    "fronts (tr_contents (tr s)) e1 wc" using c by (auto simp: received_def)
  then show thesis using that [of e1] c f w2 by (auto simp: got_message_def)
qed

text \<open>What a command sends and what it has received, in which order, when it returns.\<close>

definition challenged ::
    "byteorder \<Rightarrow> bytes \<Rightarrow> u32 \<Rightarrow> u16 \<Rightarrow> (bytes \<Rightarrow> bytes) \<Rightarrow> io \<Rightarrow> int \<Rightarrow> nuki_keyturner_state option \<Rightarrow> io \<Rightarrow> bool" where
  "challenged B key aid cmd pay s rc cap s' \<longleftrightarrow>
     (\<exists>w1. sent s' = sent s @ [w1] \<and> rc \<noteq> 0 \<and> cap = None \<and>
        is_wire key aid NUKI_CMD_REQUEST_DATA (le16 NUKI_CMD_CHALLENGE) w1) \<or>
     (\<exists>w1 w2 nk e1 e2. sent s' = sent s @ [w1, w2] \<and> length nk = 32 \<and> inbound s = e1 @ e2 @ inbound s' \<and>
        is_wire key aid NUKI_CMD_REQUEST_DATA (le16 NUKI_CMD_CHALLENGE) w1 \<and>
        got_message key (tr_contents (tr s)) e1 NUKI_CMD_CHALLENGE nk \<and>
        is_wire key aid cmd (pay nk) w2 \<and>
        (rc = 0 \<longrightarrow> got_during key e2 NUKI_CMD_STATUS [NUKI_STATUS_COMPLETE]) \<and>
        (\<forall>st. cap = Some st \<longrightarrow> (\<exists>p. nuki_keyturner_state_parse B p = Inr st \<and>
                                got_during key e2 NUKI_CMD_KEYTURNER_STATES p)))"

lemma challenged_command:
  assumes B: "byteorder_ok B" and k: "length key = 32" and ok: "tr_ok (tr s)"
    and c: "request_challenge B aid key s = (res, s1)"
    and r: "case res of Inl e \<Rightarrow> rc = e \<and> cap = None \<and> s' = s1
            | Inr nk \<Rightarrow> (case send_encrypted B aid key cmd (pay nk) s1 of (rc2, s2) \<Rightarrow>
                if rc2 \<noteq> 0 then rc = rc2 \<and> cap = None \<and> s' = s2
                else drain_until_complete B key want s2 = (rc, cap, s'))"
    and l: "\<And>nk. length nk = 32 \<Longrightarrow> 8 + length (pay nk) \<le> NUKI_FRAME_MAX_LEN"
  shows "challenged B key aid cmd pay s rc cap s'"
proof (cases res)
  case (Inl e)
  then show ?thesis using request_challenge_cases [OF B k ok c] r by (auto simp: challenged_def)
next
  case (Inr nk)
  obtain rc2 s2 where e: "send_encrypted B aid key cmd (pay nk) s1 = (rc2, s2)" by fastforce
  have "length nk = 32" using request_challenge_cases [OF B k ok c] Inr by simp
  then obtain e1 w1 w2 where cc: "io_idle s2" "length nk = 32" "inbound s = e1 @ inbound s2"
    "got_message key (tr_contents (tr s)) e1 NUKI_CMD_CHALLENGE nk" "sent s2 = sent s @ [w1, w2]"
    "is_wire key aid NUKI_CMD_REQUEST_DATA (le16 NUKI_CMD_CHALLENGE) w1" "is_wire key aid cmd (pay nk) w2"
    using challenge_command_cases [where pay = pay, OF B k ok c [unfolded Inr] e l] by metis
  show ?thesis
  proof (cases "rc2 = 0")
    case False
    then show ?thesis using cc r Inr e unfolding challenged_def by (intro disjI2 exI [of _ w1] exI [of _ w2] exI [of _ nk] exI [of _ e1] exI [of _ "[]"]) auto
  next
    case True
    then have d: "drain_until_complete B key want s2 = (rc, cap, s')" using r Inr e by simp
    have s': "sent s' = sent s2"
      using drain_loop_rx d by (metis drain_until_complete_def rx_step_def same_output_def)
    obtain e2 where e2: "inbound s2 = e2 @ inbound s'"
      "rc = 0 \<longrightarrow> io_idle s' \<and> got_during key e2 NUKI_CMD_STATUS [NUKI_STATUS_COMPLETE]"
      "\<forall>st. cap = Some st \<longrightarrow> (\<exists>p. nuki_keyturner_state_parse B p = Inr st \<and> got_during key e2 NUKI_CMD_KEYTURNER_STATES p)"
      by (rule drain_until_complete_result [OF B k d cc(1)])
    show ?thesis
      unfolding challenged_def using cc e2 s'
      by (intro disjI2 exI [of _ w1] exI [of _ w2] exI [of _ nk] exI [of _ e1] exI [of _ e2]) simp
  qed
qed

lemma request_challenge_ok:
  assumes B: "byteorder_ok B" and k: "length key = 32" and s: "io_idle s" "write_script s = o1 # os" "write_ok o1"
    and ws: "wires key ((NUKI_CMD_CHALLENGE, nk) # ms) ws" "delivers ws (inbound s)" "length nk = 32"
  obtains s' w1 ws' where "request_challenge B aid key s = (Inr nk, s')" "io_idle s'" "write_script s' = os"
    "sent s' = sent s @ [w1]" "is_wire key aid NUKI_CMD_REQUEST_DATA (le16 NUKI_CMD_CHALLENGE) w1"
    "wires key ms ws'" "delivers ws' (inbound s')"
proof -
  have p: "sys_put_le16 B v = le16 v" for v using B by (simp add: byteorder_ok_def)
  have l: "8 + length (le16 NUKI_CMD_CHALLENGE) \<le> NUKI_FRAME_MAX_LEN" by simp
  obtain w1 s1 where w1: "send_encrypted B aid key NUKI_CMD_REQUEST_DATA (le16 NUKI_CMD_CHALLENGE) s = (0, s1)"
    "is_wire key aid NUKI_CMD_REQUEST_DATA (le16 NUKI_CMD_CHALLENGE) w1" "sent s1 = sent s @ [w1]"
    "write_script s1 = os" "io_idle s1 = io_idle s" "inbound s1 = inbound s"
    using send_encrypted_ok [OF B k l s(2,3)] .
  obtain ws' s2 where r: "recv_encrypted B key MAX_PLAINTEXT s1 = (Inr (NUKI_CMD_CHALLENGE, nk), s2)" "io_idle s2"
    "wires key ms ws'" "delivers ws' (inbound s2)" "same_output s1 s2"
    using recv_wires [OF B k ws(1), of s1] w1(5,6) s(1) ws(2) by metis
  have "request_challenge B aid key s = (Inr nk, s2)"
    using w1(1) r(1) ws(3) by (simp add: request_challenge_def p)
  then show thesis using that w1 r by (auto simp: same_output_def)
qed

text \<open>The common part of a lock action and a calibration, when both writes succeed and the lock answers.\<close>

lemma challenge_command_ok:
  assumes B: "byteorder_ok B" and k: "length key = 32" and s: "io_idle s" "write_script s = o1 # o2 # os" "write_ok o1" "write_ok o2"
    and ws: "wires key ((NUKI_CMD_CHALLENGE, nk) # ms) ws" "delivers ws (inbound s)" "length nk = 32"
    and d: "drain_msgs 10 B ms want None = Some (rc, cap)" and l: "8 + length (pay nk) \<le> NUKI_FRAME_MAX_LEN"
  obtains w1 w2 s1 s2 s3 where "request_challenge B aid key s = (Inr nk, s1)" "send_encrypted B aid key cmd (pay nk) s1 = (0, s2)"
    "drain_until_complete B key want s2 = (rc, cap, s3)" "io_idle s3" "sent s3 = sent s @ [w1, w2]"
    "is_wire key aid NUKI_CMD_REQUEST_DATA (le16 NUKI_CMD_CHALLENGE) w1" "is_wire key aid cmd (pay nk) w2"
proof -
  obtain s1 w1 ws' where c: "request_challenge B aid key s = (Inr nk, s1)" "io_idle s1" "write_script s1 = o2 # os"
    "sent s1 = sent s @ [w1]" "is_wire key aid NUKI_CMD_REQUEST_DATA (le16 NUKI_CMD_CHALLENGE) w1"
    "wires key ms ws'" "delivers ws' (inbound s1)"
    using request_challenge_ok [OF B k s(1,2,3) ws] .
  obtain w2 s2 where e: "send_encrypted B aid key cmd (pay nk) s1 = (0, s2)" "is_wire key aid cmd (pay nk) w2" "sent s2 = sent s1 @ [w2]"
    "io_idle s2" "inbound s2 = inbound s1"
    using send_encrypted_ok [OF B k l c(3) s(4)] c(2) by metis
  obtain s3 where d3: "drain_loop 10 B key want None s2 = (rc, cap, s3)" "io_idle s3" "same_output s2 s3"
    using drain_loop_refines [OF B k c(6) e(4) _ d] c(7) e(5) by auto
  have "sent s3 = sent s @ [w1, w2]" using c(4) e(3) d3(3) by (simp add: same_output_def)
  then show thesis using that c(1,5) e(1,2) d3(1,2) by (simp add: drain_until_complete_def)
qed

lemma lock_action_ok:
  assumes B: "byteorder_ok B" and k: "length key = 32" and s: "io_idle s" "write_script s = o1 # o2 # os" "write_ok o1" "write_ok o2"
    and ws: "wires key ((NUKI_CMD_CHALLENGE, nk) # ms) ws" "delivers ws (inbound s)" "length nk = 32"
    and d: "drain_msgs 10 B ms want None = Some (rc, cap)"
  shows "\<exists>w1 w2 s'. nuki_command_lock_action B aid app_id key action want s = (rc, cap, s') \<and> io_idle s' \<and>
    sent s' = sent s @ [w1, w2] \<and> is_wire key aid NUKI_CMD_REQUEST_DATA (le16 NUKI_CMD_CHALLENGE) w1 \<and>
    is_wire key aid NUKI_CMD_LOCK_ACTION ([action] @ le32 app_id @ [0] @ nk) w2"
proof -
  have l: "8 + length ([action] @ le32 app_id @ [0] @ nk) \<le> NUKI_FRAME_MAX_LEN" using ws(3) by simp
  obtain w1 w2 s1 s2 s3 where r: "request_challenge B aid key s = (Inr nk, s1)"
    "send_encrypted B aid key NUKI_CMD_LOCK_ACTION ([action] @ le32 app_id @ [0] @ nk) s1 = (0, s2)"
    "drain_until_complete B key want s2 = (rc, cap, s3)" "io_idle s3" "sent s3 = sent s @ [w1, w2]"
    "is_wire key aid NUKI_CMD_REQUEST_DATA (le16 NUKI_CMD_CHALLENGE) w1"
    "is_wire key aid NUKI_CMD_LOCK_ACTION ([action] @ le32 app_id @ [0] @ nk) w2"
    by (rule challenge_command_ok [where pay = "\<lambda>nk. [action] @ le32 app_id @ [0] @ nk", OF B k s ws d l])
  have "nuki_command_lock_action B aid app_id key action want s = (rc, cap, s3)"
    using r(1-3) by (simp add: nuki_command_lock_action_def frame_bytes [OF B])
  then show ?thesis using r(4-7) by blast
qed

lemma calibrate_ok:
  assumes B: "byteorder_ok B" and k: "length key = 32" and s: "io_idle s" "write_script s = o1 # o2 # os" "write_ok o1" "write_ok o2"
    and ws: "wires key ((NUKI_CMD_CHALLENGE, nk) # ms) ws" "delivers ws (inbound s)" "length nk = 32"
    and d: "drain_msgs 10 B ms False None = Some (rc, cap)"
  shows "\<exists>s'. nuki_command_calibrate B aid key security_pin s = (rc, s') \<and> io_idle s'"
proof -
  have l: "8 + length (nk @ le16 security_pin) \<le> NUKI_FRAME_MAX_LEN" using ws(3) by simp
  obtain s1 s2 s3 where "request_challenge B aid key s = (Inr nk, s1)"
    "send_encrypted B aid key NUKI_CMD_REQUEST_CALIBRATION (nk @ le16 security_pin) s1 = (0, s2)"
    "drain_until_complete B key False s2 = (rc, cap, s3)" "io_idle s3"
    by (rule challenge_command_ok [where pay = "\<lambda>nk. nk @ le16 security_pin", OF B k s ws d l])
  then show ?thesis by (simp add: nuki_command_calibrate_def frame_bytes [OF B])
qed

text \<open>With nothing in the buffer at the start, the challenge was received during the call.\<close>

lemma got_message_empty: "rx_len t = 0 \<Longrightarrow> got_message key (tr_contents t) e cmd p \<Longrightarrow> got_message key [] e cmd p"
  by (simp add: tr_contents_def)

lemma lock_action_challenged:
  assumes "byteorder_ok B" "length key = 32" "tr_ok (tr s)"
    and "nuki_command_lock_action B aid app_id key action want s = (rc, cap, s')"
  shows "challenged B key aid NUKI_CMD_LOCK_ACTION (\<lambda>nk. [action] @ le32 app_id @ [0] @ nk) s rc cap s'"
proof -
  obtain res s1 where c: "request_challenge B aid key s = (res, s1)" by fastforce
  show ?thesis
    using assms(4) by (intro challenged_command [OF assms(1-3) c, where want = want])
      (auto simp: nuki_command_lock_action_def c frame_bytes [OF assms(1)] split: sum.splits prod.splits)
qed

lemma calibrate_challenged:
  assumes "byteorder_ok B" "length key = 32" "tr_ok (tr s)"
    and "nuki_command_calibrate B aid key security_pin s = (rc, s')"
  shows "\<exists>cap. challenged B key aid NUKI_CMD_REQUEST_CALIBRATION (\<lambda>nk. nk @ le16 security_pin) s rc cap s'"
proof -
  obtain res s1 where c: "request_challenge B aid key s = (res, s1)" by fastforce
  have "\<exists>cap. case res of Inl e \<Rightarrow> rc = e \<and> cap = None \<and> s' = s1
            | Inr nk \<Rightarrow> (case send_encrypted B aid key NUKI_CMD_REQUEST_CALIBRATION (nk @ le16 security_pin) s1 of (rc2, s2) \<Rightarrow>
                if rc2 \<noteq> 0 then rc = rc2 \<and> cap = None \<and> s' = s2
                else drain_until_complete B key False s2 = (rc, cap, s'))"
    using assms(4) by (auto simp: nuki_command_calibrate_def c frame_bytes [OF assms(1)] split: sum.splits prod.splits if_splits)
  then show ?thesis
    using challenged_command [where pay = "\<lambda>nk. nk @ le16 security_pin", OF assms(1-3) c] by force
qed

lemma get_state_result:
  assumes "byteorder_ok B" "length key = 32" "tr_ok (tr s)"
    and "nuki_command_get_state B aid key s = (r, s')"
  shows "(\<exists>w. sent s' = sent s @ [w] \<and> is_wire key aid NUKI_CMD_REQUEST_DATA (le16 NUKI_CMD_KEYTURNER_STATES) w) \<and>
         (case r of Inl e \<Rightarrow> e \<noteq> 0
          | Inr st \<Rightarrow> \<exists>p. nuki_keyturner_state_parse B p = Inr st \<and> (\<exists>e. inbound s = e @ inbound s' \<and>
               got_message key (tr_contents (tr s)) e NUKI_CMD_KEYTURNER_STATES p)) \<and>
         (\<forall>o1 os p ws. io_idle s \<and> write_script s = o1 # os \<and> write_ok o1 \<and>
            wires key [(NUKI_CMD_KEYTURNER_STATES, p)] ws \<and> delivers ws (inbound s) \<longrightarrow>
            r = nuki_keyturner_state_parse B p)"
proof -
  note B = assms(1) and k = assms(2)
  let ?req = "le16 NUKI_CMD_KEYTURNER_STATES"
  obtain rc s1 where e: "send_encrypted B aid key NUKI_CMD_REQUEST_DATA ?req s = (rc, s1)" by fastforce
  obtain w where w: "is_wire key aid NUKI_CMD_REQUEST_DATA ?req w" "sent s1 = sent s @ [w]"
    using send_encrypted_cases [OF B k e] by auto
  note f = send_encrypted_tr_ok [OF B k e]
  obtain m s2 where m: "recv_encrypted B key MAX_PLAINTEXT s1 = (m, s2)" by fastforce
  have ok1: "tr_ok (tr s1)" using f assms(3) by simp
  note rx = recv_encrypted_rx [OF m]
  have def1: "(r, s') = (if rc \<noteq> 0 then (Inl rc, s1) else
      (case m of Inl err \<Rightarrow> Inl err | Inr (cmd, p) \<Rightarrow>
         if cmd \<noteq> NUKI_CMD_KEYTURNER_STATES then Inl (- EBADMSG) else nuki_keyturner_state_parse B p, s2))"
    using assms(4) by (auto simp: nuki_command_get_state_def frame_bytes [OF B] e m split: sum.splits prod.splits)
  have sent: "sent s' = sent s @ [w]" using def1 w rx by (auto simp: rx_step_def same_output_def split: if_splits)
  have m0: "m \<noteq> Inl 0" using recv_encrypted_error [OF _ B ok1 order_refl k] m by fastforce
  have p0: "Inl 0 \<noteq> nuki_keyturner_state_parse B p" for p by (simp add: nuki_keyturner_state_parse_def Let_def)
  have "\<exists>p. nuki_keyturner_state_parse B p = Inr st \<and> (\<exists>e. inbound s = e @ inbound s' \<and>
               got_message key (tr_contents (tr s)) e NUKI_CMD_KEYTURNER_STATES p)" if st: "r = Inr st" for st
  proof -
    obtain p where p: "m = Inr (NUKI_CMD_KEYTURNER_STATES, p)" "nuki_keyturner_state_parse B p = Inr st" "s' = s2"
      using def1 st by (auto split: if_splits sum.splits)
    obtain e where "inbound s1 = e @ inbound s2" "got_message key (tr_contents (tr s1)) e NUKI_CMD_KEYTURNER_STATES p"
      using recv_got_message [OF B k ok1 m [unfolded p(1)]] .
    then show ?thesis using p f(2,3) by auto
  qed
  moreover have "r = nuki_keyturner_state_parse B p"
    if "io_idle s" "write_script s = o1 # os" "write_ok o1" "wires key [(NUKI_CMD_KEYTURNER_STATES, p)] ws" "delivers ws (inbound s)"
    for o1 os p ws
  proof -
    have "rc = 0" using send_encrypted_ok [OF B k _ that(2,3), of ?req aid NUKI_CMD_REQUEST_DATA] e by fastforce
    moreover have "m = Inr (NUKI_CMD_KEYTURNER_STATES, p)"
      using recv_wires [OF B k that(4), of s1] f(3,4) that(1,5) m by (metis prod.inject)
    ultimately show ?thesis using def1 by simp
  qed
  moreover have "e \<noteq> 0" if "r = Inl e" for e
    using that def1 m0 p0 by (fastforce split: if_splits sum.splits)
  ultimately show ?thesis using sent w(1) by (auto split: sum.splits)
qed

text \<open>The example transport: two writes that succeed, and the status that ends a command.\<close>

lemma demo_two_writes:
  "write_script (demo_io ws) = \<lparr>gatt_write_rc = 0, write_cb_err = Some 0, sem_take_rc = 0\<rparr> #
      \<lparr>gatt_write_rc = 0, write_cb_err = Some 0, sem_take_rc = 0\<rparr> #
      replicate 6 \<lparr>gatt_write_rc = 0, write_cb_err = Some 0, sem_take_rc = 0\<rparr>"
  "write_ok \<lparr>gatt_write_rc = 0, write_cb_err = Some 0, sem_take_rc = 0\<rparr>"
  "write_ok \<lparr>gatt_write_rc = 0, write_cb_err = Some 0, sem_take_rc = 0\<rparr>"
  by (simp_all add: numeral_eq_Suc write_ok_def)

lemma demo_status: "drain_msgs 10 B [(NUKI_CMD_STATUS, [NUKI_STATUS_COMPLETE])] False None = Some (0, None)"
  by simp

section \<open>Properties\<close>

text \<open>
  C25: the encrypted channel: a payload of at most 152 bytes handed to \<open>send_encrypted\<close> puts exactly
  one message on the wire, and any party holding the same key that receives this message, cut into
  indications in any way, gets back the command and the payload, with its buffer empty again and
  the following messages still to come. Larger payloads are refused with \<open>-EINVAL\<close>, sending nothing.
\<close>

theorem encrypted_channel_roundtrip:
  assumes "byteorder_ok B" "length key = 32" "send_encrypted B aid key cmd p sA = (rc, sA')"
  shows "if length p \<le> 152
         then \<exists>w. sent sA' = sent sA @ [w] \<and>
           (\<forall>sB ms. io_idle sB \<and> delivers (w # ms) (inbound sB) \<longrightarrow>
              (\<exists>sB'. recv_encrypted B key MAX_PLAINTEXT sB = (Inr (cmd, p), sB') \<and>
                     io_idle sB' \<and> delivers ms (inbound sB')))
         else rc = - EINVAL \<and> sA' = sA"
proof (cases "length p \<le> 152")
  case True
  then obtain w where w: "is_wire key aid cmd p w" "sent sA' = sent sA @ [w]"
    using send_encrypted_cases [OF assms] by auto
  have l: "8 + length p \<le> MAX_PLAINTEXT" "length p \<le> MAX_PLAINTEXT" using True by simp_all
  have "\<exists>sB'. recv_encrypted B key MAX_PLAINTEXT sB = (Inr (cmd, p), sB') \<and> io_idle sB' \<and> delivers ms (inbound sB')"
    if "io_idle sB" "delivers (w # ms) (inbound sB)" for sB ms
    using recv_encrypted_wire [OF assms(1,2) w(1) l that] by blast
  then show ?thesis using w(2) True by (simp del: delivers.simps)
qed (use send_encrypted_cases [OF assms] in auto)

theorem encrypted_channel_roundtrip_witness:
  "\<exists>w. sent (snd (send_encrypted le_byteorder 7 (replicate 32 1) 13 [1, 2] (demo_io []))) = [w] \<and>
       fst (recv_encrypted le_byteorder (replicate 32 1) 200 (demo_io [w])) = Inr (13, [1, 2])"
proof -
  obtain rc s' where e: "send_encrypted le_byteorder 7 (replicate 32 1) 13 [1, 2] (demo_io []) = (rc, s')" by fastforce
  have k: "length (replicate 32 (1 :: u8)) = 32" and p: "length [1, 2 :: u8] \<le> 152" by simp_all
  obtain w where w: "sent s' = sent (demo_io []) @ [w]"
    and r: "\<forall>sB ms. io_idle sB \<and> delivers (w # ms) (inbound sB) \<longrightarrow>
              (\<exists>sB'. recv_encrypted le_byteorder (replicate 32 1) MAX_PLAINTEXT sB = (Inr (13, [1, 2]), sB') \<and>
                     io_idle sB' \<and> delivers ms (inbound sB'))"
    using encrypted_channel_roundtrip [OF le_byteorder_ok k e] unfolding if_P [OF p] by blast
  have "\<exists>sB'. recv_encrypted le_byteorder (replicate 32 1) MAX_PLAINTEXT (demo_io [w]) = (Inr (13, [1, 2]), sB')"
    using r demo_io_simps(1,4) by blast
  then show ?thesis using w e by auto
qed

text \<open>
  C7: authenticity of what is received: whenever \<open>recv_encrypted\<close> returns a command and a payload,
  a complete message sealed under the shared key and carrying exactly them stood at the front of the
  received bytes. The message is at most 246 bytes, so the reads stay inside the 256-byte buffer
  and the local arrays; the buffer is empty afterwards and nothing was sent.
\<close>

theorem encrypted_receive_authentic:
  assumes "byteorder_ok B" "length key = 32" "tr_ok (tr s)"
    and "recv_encrypted B key pmax s = (Inr (cmd, p), s')"
  shows "\<exists>aid w used. is_wire key aid cmd p w \<and> length w = 54 + length p \<and> length w \<le> 246 \<and> length p \<le> pmax \<and>
           inbound s = used @ inbound s' \<and>
           w = take (length w) (take 256 (tr_contents (tr s) @ event_bytes used)) \<and>
           io_idle s' \<and> sent s' = sent s"
proof -
  have "sent s' = sent s" using recv_encrypted_frame [OF assms(4,3)] by (simp add: same_output_def)
  with recv_encrypted_authentic [OF assms] is_wire_length [OF _ assms(2)] show ?thesis by metis
qed

theorem encrypted_receive_authentic_witness:
  "\<exists>w s'. recv_encrypted le_byteorder (replicate 32 1) 200 (demo_io [w]) = (Inr (14, [0]), s') \<and> length w = 55 \<and>
      io_idle s'"
proof -
  obtain w where w: "is_wire (replicate 32 1) 3 14 [0] w"
    using is_wire_exists [of "replicate 32 1" "[0]" 3 14] by auto
  obtain s' where r: "recv_encrypted le_byteorder (replicate 32 1) 200 (demo_io [w]) = (Inr (14, [0]), s')"
    using recv_encrypted_wire [OF le_byteorder_ok _ w, of 200 "demo_io [w]" "[]"] demo_io_simps(1,4) [of "[w]"]
    by (auto simp del: delivers.simps)
  have "io_idle s'"
    using encrypted_receive_authentic [OF le_byteorder_ok _ demo_io_simps(2) r] by auto
  then show ?thesis using r is_wire_length [OF w] by auto
qed

text \<open>
  C6: safety of a lock action: each call sends the challenge request and then, only after a
  32-byte challenge sealed under the shared key was read, at most one
  LOCK_ACTION message, whose payload is the action, the application id, zero flags and that
  challenge. The challenge stands at the front of what was in the receive buffer at the call and what arrived after it; from an empty
  buffer, which every connection starts with, it was received during this call. Success is reported only if both were sent and a Status COMPLETE sealed under the
  shared key arrived afterwards; a state handed to the caller was decoded from a sealed
  KEYTURNER_STATES message of the same exchange.
\<close>

theorem lock_action_safety:
  assumes "byteorder_ok B" "length key = 32" "tr_ok (tr s)"
    and "nuki_command_lock_action B aid app_id key action want s = (rc, cap, s')"
  shows "(\<exists>w1. sent s' = sent s @ [w1] \<and> rc \<noteq> 0 \<and> cap = None \<and>
            is_wire key aid NUKI_CMD_REQUEST_DATA (le16 NUKI_CMD_CHALLENGE) w1) \<or>
         (\<exists>w1 w2 nk e1 e2. sent s' = sent s @ [w1, w2] \<and> length nk = 32 \<and> inbound s = e1 @ e2 @ inbound s' \<and>
            is_wire key aid NUKI_CMD_REQUEST_DATA (le16 NUKI_CMD_CHALLENGE) w1 \<and>
            got_message key (tr_contents (tr s)) e1 NUKI_CMD_CHALLENGE nk \<and>
            (rx_len (tr s) = 0 \<longrightarrow> got_message key [] e1 NUKI_CMD_CHALLENGE nk) \<and>
            is_wire key aid NUKI_CMD_LOCK_ACTION ([action] @ le32 app_id @ [0] @ nk) w2 \<and>
            (rc = 0 \<longrightarrow> got_during key e2 NUKI_CMD_STATUS [NUKI_STATUS_COMPLETE]) \<and>
            (\<forall>st. cap = Some st \<longrightarrow> (\<exists>p. nuki_keyturner_state_parse B p = Inr st \<and>
                                    got_during key e2 NUKI_CMD_KEYTURNER_STATES p)))"
  using lock_action_challenged [OF assms] got_message_empty [of "tr s" key] unfolding challenged_def by (elim disjE) blast+

theorem lock_action_safety_witness:
  "\<exists>ws s'. nuki_command_lock_action le_byteorder 7 9 (replicate 32 1) 2 False (demo_io ws) = (0, None, s') \<and>
     (\<exists>nk e1 e2. inbound (demo_io ws) = e1 @ e2 @ inbound s' \<and> got_message (replicate 32 1) [] e1 NUKI_CMD_CHALLENGE nk \<and>
        got_during (replicate 32 1) e2 NUKI_CMD_STATUS [NUKI_STATUS_COMPLETE])"
proof -
  let ?k = "replicate 32 1 :: bytes" and ?nk = "replicate 32 5 :: bytes"
  have k: "length ?k = 32" "length ?nk = 32" by simp_all
  obtain ws where ws: "wires ?k [(NUKI_CMD_CHALLENGE, ?nk), (NUKI_CMD_STATUS, [NUKI_STATUS_COMPLETE])] ws"
    using wires_exist [of ?k "[(NUKI_CMD_CHALLENGE, ?nk), (NUKI_CMD_STATUS, [NUKI_STATUS_COMPLETE])]"] by auto
  obtain s' where r: "nuki_command_lock_action le_byteorder 7 9 ?k 2 False (demo_io ws) = (0, None, s')"
    using lock_action_ok [OF le_byteorder_ok k(1) demo_io_simps(1) demo_two_writes ws demo_io_simps(4) k(2) demo_status, of 7 9 2] by blast
  have "rx_len (tr (demo_io ws)) = 0" by (simp add: demo_io_def)
  then show ?thesis
    using lock_action_safety [OF le_byteorder_ok k(1) demo_io_simps(2) r] r by blast
qed

text \<open>
  A lock action goes through when the lock plays its part: if both writes succeed and the lock
  answers with a challenge and then with messages \<open>ms\<close>, each fragmented in any way, then the call returns
  the outcome of the status sequence \<open>drain_msgs\<close>: 0 at Status COMPLETE, \<open>-EIO\<close> at an error
  report, \<open>-EBADMSG\<close> at a malformed status, \<open>-ETIMEDOUT\<close> after ten messages, and the last
  decodable Keyturner state seen before.
\<close>

theorem lock_action_completes:
  assumes "byteorder_ok B" "length key = 32" "io_idle s" "write_script s = o1 # o2 # os" "write_ok o1" "write_ok o2"
    and "wires key ((NUKI_CMD_CHALLENGE, nk) # ms) ws" "delivers ws (inbound s)" "length nk = 32"
    and "drain_msgs 10 B ms want None = Some (rc, cap)"
  shows "\<exists>w1 w2 s'. nuki_command_lock_action B aid app_id key action want s = (rc, cap, s') \<and> io_idle s' \<and>
    sent s' = sent s @ [w1, w2] \<and> is_wire key aid NUKI_CMD_REQUEST_DATA (le16 NUKI_CMD_CHALLENGE) w1 \<and>
    is_wire key aid NUKI_CMD_LOCK_ACTION ([action] @ le32 app_id @ [0] @ nk) w2"
  using assms by (rule lock_action_ok)

theorem lock_action_completes_witness:
  "\<exists>ws s'. nuki_command_lock_action le_byteorder 7 9 (replicate 32 1) 2 True (demo_io ws) = (- EIO, None, s')"
proof -
  let ?k = "replicate 32 1 :: bytes" and ?nk = "replicate 32 5 :: bytes"
  let ?tl = "[(NUKI_CMD_STATUS, [NUKI_STATUS_ACCEPTED]), (NUKI_CMD_ERROR_REPORT, [0x45, 0x0D, 0])]"
  have k: "length ?k = 32" "length ?nk = 32" by simp_all
  obtain ws where ws: "wires ?k ((NUKI_CMD_CHALLENGE, ?nk) # ?tl) ws"
    using wires_exist [of ?k "(NUKI_CMD_CHALLENGE, ?nk) # ?tl"] by auto
  have d: "drain_msgs 10 le_byteorder ?tl True None = Some (- EIO, None)"
    by simp
  show ?thesis
    using lock_action_completes [OF le_byteorder_ok k(1) demo_io_simps(1) demo_two_writes ws demo_io_simps(4) k(2) d, of 7 9 2]
    by blast
qed

text \<open>
  C30: a calibration request follows the same discipline: the REQUEST_CALIBRATION message, carrying
  the challenge and the security PIN, is sent at most once and only after that
  challenge was read, sealed under the shared key, from what was in the receive buffer at the call and what arrived after it (from an empty buffer: from what
  was received during this call); success is reported only after a sealed Status COMPLETE.
\<close>

theorem calibrate_safety:
  assumes "byteorder_ok B" "length key = 32" "tr_ok (tr s)"
    and "nuki_command_calibrate B aid key security_pin s = (rc, s')"
  shows "(\<exists>w1. sent s' = sent s @ [w1] \<and> rc \<noteq> 0 \<and>
            is_wire key aid NUKI_CMD_REQUEST_DATA (le16 NUKI_CMD_CHALLENGE) w1) \<or>
         (\<exists>w1 w2 nk e1 e2. sent s' = sent s @ [w1, w2] \<and> length nk = 32 \<and> inbound s = e1 @ e2 @ inbound s' \<and>
            is_wire key aid NUKI_CMD_REQUEST_DATA (le16 NUKI_CMD_CHALLENGE) w1 \<and>
            got_message key (tr_contents (tr s)) e1 NUKI_CMD_CHALLENGE nk \<and>
            (rx_len (tr s) = 0 \<longrightarrow> got_message key [] e1 NUKI_CMD_CHALLENGE nk) \<and>
            is_wire key aid NUKI_CMD_REQUEST_CALIBRATION (nk @ le16 security_pin) w2 \<and>
            (rc = 0 \<longrightarrow> got_during key e2 NUKI_CMD_STATUS [NUKI_STATUS_COMPLETE]))"
  using calibrate_challenged [OF assms] got_message_empty [of "tr s" key] unfolding challenged_def by (elim exE disjE) blast+

theorem calibrate_safety_witness:
  "\<exists>ws s'. nuki_command_calibrate le_byteorder 7 (replicate 32 1) 1234 (demo_io ws) = (0, s') \<and>
     (\<exists>w1 w2 nk e. sent s' = [w1, w2] \<and> got_message (replicate 32 1) [] e NUKI_CMD_CHALLENGE nk \<and>
        is_wire (replicate 32 1) 7 NUKI_CMD_REQUEST_CALIBRATION (nk @ le16 1234) w2)"
proof -
  let ?k = "replicate 32 1 :: bytes" and ?nk = "replicate 32 5 :: bytes"
  have k: "length ?k = 32" "length ?nk = 32" by simp_all
  obtain ws where ws: "wires ?k [(NUKI_CMD_CHALLENGE, ?nk), (NUKI_CMD_STATUS, [NUKI_STATUS_COMPLETE])] ws"
    using wires_exist [of ?k "[(NUKI_CMD_CHALLENGE, ?nk), (NUKI_CMD_STATUS, [NUKI_STATUS_COMPLETE])]"] by auto
  obtain s' where r: "nuki_command_calibrate le_byteorder 7 ?k 1234 (demo_io ws) = (0, s')"
    using calibrate_ok [OF le_byteorder_ok k(1) demo_io_simps(1) demo_two_writes ws demo_io_simps(4) k(2) demo_status, of 7 1234] by blast
  have "rx_len (tr (demo_io ws)) = 0" "sent (demo_io ws) = []" by (simp_all add: demo_io_def)
  then show ?thesis
    using calibrate_safety [OF le_byteorder_ok k(1) demo_io_simps(2) r] r by (elim disjE exE conjE; simp; blast)
qed

text \<open>
  C31: reading the lock state sends exactly one message, the request for KEYTURNER_STATES; a state is
  returned only if it was decoded from a KEYTURNER_STATES message sealed under the shared key; and
  when the request goes out and the lock answers, in any fragmentation, the decoded answer is returned.
\<close>

theorem get_state_outcome:
  assumes "byteorder_ok B" "length key = 32" "tr_ok (tr s)"
    and "nuki_command_get_state B aid key s = (r, s')"
  shows "(\<exists>w. sent s' = sent s @ [w] \<and> is_wire key aid NUKI_CMD_REQUEST_DATA (le16 NUKI_CMD_KEYTURNER_STATES) w) \<and>
         (case r of Inl e \<Rightarrow> e \<noteq> 0
          | Inr st \<Rightarrow> \<exists>p. nuki_keyturner_state_parse B p = Inr st \<and> (\<exists>e. inbound s = e @ inbound s' \<and>
               got_message key (tr_contents (tr s)) e NUKI_CMD_KEYTURNER_STATES p)) \<and>
         (\<forall>o1 os p ws. io_idle s \<and> write_script s = o1 # os \<and> write_ok o1 \<and>
            wires key [(NUKI_CMD_KEYTURNER_STATES, p)] ws \<and> delivers ws (inbound s) \<longrightarrow>
            r = nuki_keyturner_state_parse B p)"
  using assms by (rule get_state_result)

theorem get_state_outcome_witness:
  "\<exists>ws s'. nuki_command_get_state le_byteorder 7 (replicate 32 1) (demo_io ws) = (Inl (- EINVAL), s')"
proof -
  let ?k = "replicate 32 1 :: bytes"
  obtain ws where ws: "wires ?k [(NUKI_CMD_KEYTURNER_STATES, [1])] ws"
    using wires_exist [of ?k "[(NUKI_CMD_KEYTURNER_STATES, [1])]"] by auto
  obtain r s' where e: "nuki_command_get_state le_byteorder 7 ?k (demo_io ws) = (r, s')" by fastforce
  have k: "length ?k = 32" by simp
  let ?o = "\<lparr>gatt_write_rc = 0, write_cb_err = Some 0, sem_take_rc = 0\<rparr>"
  have wr: "write_script (demo_io ws) = ?o # replicate 7 ?o" by (simp add: numeral_eq_Suc)
  have wo: "write_ok ?o" by (simp add: write_ok_def)
  have "r = nuki_keyturner_state_parse le_byteorder [1]"
    using get_state_outcome [OF le_byteorder_ok k demo_io_simps(2) e, THEN conjunct2, THEN conjunct2, rule_format,
        OF conjI [OF demo_io_simps(1) conjI [OF wr conjI [OF wo conjI [OF ws demo_io_simps(4)]]]]] .
  then show ?thesis using e by (auto simp: nuki_keyturner_state_parse_def)
qed

end
