(* ===== verification/Nuki_Psa.thy ===== *)
theory Nuki_Psa
  imports Nuki_Secretbox
begin

text \<open>
  The part of \<open>src/src/nuki_crypto.c\<close> that delegates to PSA Crypto: initialisation, key pair
  generation, X25519 key agreement and HMAC-SHA256 (lines 273 to 373).

  PSA Crypto is not part of the repository. It is the record argument \<open>psa\<close>, whose functions
  transform an abstract state; a status of 0 is \<open>PSA_SUCCESS\<close>, and the output bytes stand for the
  buffer together with its \<open>out_len\<close>. \<open>psa_spec\<close> states the documented behaviour the code relies on,
  through the key material that each key slot holds and three functions: the public key of a private
  key, the X25519 agreement and the HMAC. A destruction may fail and leave the slot, since the code ignores its status; \<open>psa_destroys\<close> says
  that it never does.
\<close>

section \<open>The PSA Crypto interface\<close>

datatype psa_key_type = ECC_KEY_PAIR_MONTGOMERY | KEY_TYPE_HMAC
datatype psa_usage = USAGE_DERIVE | USAGE_EXPORT | USAGE_SIGN_MESSAGE
datatype psa_alg = ALG_ECDH | ALG_HMAC_SHA_256

record psa_attr =
  key_type :: psa_key_type
  key_bits :: nat
  key_usage :: "psa_usage list"
  key_alg :: psa_alg

abbreviation PSA_SUCCESS :: int where "PSA_SUCCESS \<equiv> 0"

record 's psa =
  psa_crypto_init :: "'s \<Rightarrow> int \<times> 's"
  psa_generate_key :: "psa_attr \<Rightarrow> 's \<Rightarrow> int \<times> nat \<times> 's"
  psa_import_key :: "psa_attr \<Rightarrow> bytes \<Rightarrow> 's \<Rightarrow> int \<times> nat \<times> 's"
  psa_export_key :: "nat \<Rightarrow> nat \<Rightarrow> 's \<Rightarrow> int \<times> bytes \<times> 's"
  psa_export_public_key :: "nat \<Rightarrow> nat \<Rightarrow> 's \<Rightarrow> int \<times> bytes \<times> 's"
  psa_raw_key_agreement :: "psa_alg \<Rightarrow> nat \<Rightarrow> bytes \<Rightarrow> nat \<Rightarrow> 's \<Rightarrow> int \<times> bytes \<times> 's"
  psa_mac_compute :: "nat \<Rightarrow> psa_alg \<Rightarrow> bytes \<Rightarrow> nat \<Rightarrow> 's \<Rightarrow> int \<times> bytes \<times> 's"
  psa_destroy_key :: "nat \<Rightarrow> 's \<Rightarrow> 's"

section \<open>The code\<close>

definition nuki_crypto_init :: "'s psa \<Rightarrow> 's \<Rightarrow> int \<times> 's" where
  "nuki_crypto_init P s =
     (let (status, s) = psa_crypto_init P s in (if status = PSA_SUCCESS then 0 else - EIO, s))"

definition nuki_crypto_keypair :: "'s psa \<Rightarrow> 's \<Rightarrow> (int + (bytes \<times> bytes)) \<times> 's" where
  "nuki_crypto_keypair P s =
     (let attr = \<lparr>key_type = ECC_KEY_PAIR_MONTGOMERY, key_bits = 255,
                  key_usage = [USAGE_DERIVE, USAGE_EXPORT], key_alg = ALG_ECDH\<rparr>;
          (status, key, s) = psa_generate_key P attr s
      in if status \<noteq> PSA_SUCCESS then (Inl (- EIO), s)
         else
           let (status, priv, s) = psa_export_key P key NUKI_KEY_LEN s
           in if status \<noteq> PSA_SUCCESS \<or> length priv \<noteq> NUKI_KEY_LEN
              then (Inl (- EIO), psa_destroy_key P key s)
              else
                let (status, pub, s) = psa_export_public_key P key NUKI_KEY_LEN s;
                    s = psa_destroy_key P key s
                in if status \<noteq> PSA_SUCCESS \<or> length pub \<noteq> NUKI_KEY_LEN then (Inl (- EIO), s)
                   else (Inr (pub, priv), s))"

definition nuki_crypto_dh1 :: "'s psa \<Rightarrow> bytes \<Rightarrow> bytes \<Rightarrow> 's \<Rightarrow> (int + bytes) \<times> 's" where
  "nuki_crypto_dh1 P priv pub s =
     (let attr = \<lparr>key_type = ECC_KEY_PAIR_MONTGOMERY, key_bits = 255,
                  key_usage = [USAGE_DERIVE], key_alg = ALG_ECDH\<rparr>;
          (status, key, s) = psa_import_key P attr priv s
      in if status \<noteq> PSA_SUCCESS then (Inl (- EIO), s)
         else
           let (status, out, s) = psa_raw_key_agreement P ALG_ECDH key pub NUKI_KEY_LEN s;
               s = psa_destroy_key P key s
           in if status \<noteq> PSA_SUCCESS \<or> length out \<noteq> NUKI_KEY_LEN then (Inl (- EIO), s)
              else (Inr out, s))"

definition nuki_crypto_h1 :: "'s psa \<Rightarrow> bytes \<Rightarrow> bytes \<Rightarrow> 's \<Rightarrow> (int + bytes) \<times> 's" where
  "nuki_crypto_h1 P key data s =
     (let attr = \<lparr>key_type = KEY_TYPE_HMAC, key_bits = NUKI_KEY_LEN * 8,
                  key_usage = [USAGE_SIGN_MESSAGE], key_alg = ALG_HMAC_SHA_256\<rparr>;
          (status, key_id, s) = psa_import_key P attr key s
      in if status \<noteq> PSA_SUCCESS then (Inl (- EIO), s)
         else
           let (status, out, s) = psa_mac_compute P key_id ALG_HMAC_SHA_256 data 32 s;
               s = psa_destroy_key P key_id s
           in if status \<noteq> PSA_SUCCESS \<or> length out \<noteq> 32 then (Inl (- EIO), s)
              else (Inr out, s))"

section \<open>Documented behaviour of PSA Crypto\<close>

record x25519_hmac =
  x_public :: "bytes \<Rightarrow> bytes"
  x_agree :: "bytes \<Rightarrow> bytes \<Rightarrow> bytes"
  x_hmac :: "bytes \<Rightarrow> bytes \<Rightarrow> bytes"

definition psa_spec :: "'s psa \<Rightarrow> ('s \<Rightarrow> nat \<Rightarrow> bytes option) \<Rightarrow> x25519_hmac \<Rightarrow> bool" where
  "psa_spec P kv X \<longleftrightarrow>
     (\<forall>s st s'. psa_crypto_init P s = (st, s') \<longrightarrow> kv s' = kv s) \<and>
     (\<forall>a s st k s'. psa_generate_key P a s = (st, k, s') \<longrightarrow>
        (if st = PSA_SUCCESS then kv s k = None \<and> (\<exists>v. kv s' = (kv s)(k := Some v)) else kv s' = kv s)) \<and>
     (\<forall>a v s st k s'. psa_import_key P a v s = (st, k, s') \<longrightarrow>
        (if st = PSA_SUCCESS then kv s k = None \<and> kv s' = (kv s)(k := Some v) else kv s' = kv s)) \<and>
     (\<forall>k n s st out s'. psa_export_key P k n s = (st, out, s') \<longrightarrow>
        kv s' = kv s \<and> (st = PSA_SUCCESS \<longrightarrow> kv s k = Some out)) \<and>
     (\<forall>k n s st out s'. psa_export_public_key P k n s = (st, out, s') \<longrightarrow>
        kv s' = kv s \<and> (st = PSA_SUCCESS \<longrightarrow> (\<exists>v. kv s k = Some v \<and> out = x_public X v))) \<and>
     (\<forall>k peer n s st out s'. psa_raw_key_agreement P ALG_ECDH k peer n s = (st, out, s') \<longrightarrow>
        kv s' = kv s \<and> (st = PSA_SUCCESS \<longrightarrow> (\<exists>v. kv s k = Some v \<and> out = x_agree X v peer))) \<and>
     (\<forall>k d n s st out s'. psa_mac_compute P k ALG_HMAC_SHA_256 d n s = (st, out, s') \<longrightarrow>
        kv s' = kv s \<and> (st = PSA_SUCCESS \<longrightarrow> (\<exists>v. kv s k = Some v \<and> out = x_hmac X v d))) \<and>
     (\<forall>k s. kv (psa_destroy_key P k s) \<in> {kv s, (kv s)(k := None)})"

definition psa_destroys :: "'s psa \<Rightarrow> ('s \<Rightarrow> nat \<Rightarrow> bytes option) \<Rightarrow> bool" where
  "psa_destroys P kv \<longleftrightarrow> (\<forall>k s. kv (psa_destroy_key P k s) = (kv s)(k := None))"

text \<open>What every operation keeps of the slots: none is lost or changed, and none is left over unless a destruction fails.\<close>

definition slots_kept :: "'s psa \<Rightarrow> ('s \<Rightarrow> nat \<Rightarrow> bytes option) \<Rightarrow> 's \<Rightarrow> 's \<Rightarrow> bool" where
  "slots_kept P kv s s' \<longleftrightarrow> kv s \<subseteq>\<^sub>m kv s' \<and> (psa_destroys P kv \<longrightarrow> kv s' = kv s)"

text \<open>The law of the Diffie-Hellman function.\<close>

definition x25519_commutes :: "x25519_hmac \<Rightarrow> bool" where
  "x25519_commutes X \<longleftrightarrow> (\<forall>a b. x_agree X a (x_public X b) = x_agree X b (x_public X a))"

lemma psa_spec_rules:
  assumes "psa_spec P kv X"
  shows psa_init: "psa_crypto_init P s = (st, s') \<Longrightarrow> kv s' = kv s"
    and psa_generate: "psa_generate_key P a s = (0, k, s') \<Longrightarrow> kv s k = None \<and> (\<exists>v. kv s' = (kv s)(k := Some v))"
    and psa_generate_fail: "psa_generate_key P a s = (st, k, s') \<Longrightarrow> st \<noteq> 0 \<Longrightarrow> kv s' = kv s"
    and psa_import: "psa_import_key P a v s = (0, k, s') \<Longrightarrow> kv s k = None \<and> kv s' = (kv s)(k := Some v)"
    and psa_import_fail: "psa_import_key P a v s = (st, k, s') \<Longrightarrow> st \<noteq> 0 \<Longrightarrow> kv s' = kv s"
    and psa_export: "psa_export_key P k n s = (st, out, s') \<Longrightarrow> kv s' = kv s \<and> (st = 0 \<longrightarrow> kv s k = Some out)"
    and psa_public: "psa_export_public_key P k n s = (st, out, s') \<Longrightarrow>
      kv s' = kv s \<and> (st = 0 \<longrightarrow> (\<exists>v. kv s k = Some v \<and> out = x_public X v))"
    and psa_agree: "psa_raw_key_agreement P ALG_ECDH k peer n s = (st, out, s') \<Longrightarrow>
      kv s' = kv s \<and> (st = 0 \<longrightarrow> (\<exists>v. kv s k = Some v \<and> out = x_agree X v peer))"
    and psa_mac: "psa_mac_compute P k ALG_HMAC_SHA_256 d n s = (st, out, s') \<Longrightarrow>
      kv s' = kv s \<and> (st = 0 \<longrightarrow> (\<exists>v. kv s k = Some v \<and> out = x_hmac X v d))"
    and psa_destroy: "kv (psa_destroy_key P k s) \<in> {kv s, (kv s)(k := None)}"
proof -
  note d = assms [unfolded psa_spec_def]
  note c1 = conjunct1 [OF d] and d1 = conjunct2 [OF d]
  note c2 = conjunct1 [OF d1] and d2 = conjunct2 [OF d1]
  note c3 = conjunct1 [OF d2] and d3 = conjunct2 [OF d2]
  note c4 = conjunct1 [OF d3] and d4 = conjunct2 [OF d3]
  note c5 = conjunct1 [OF d4] and d5 = conjunct2 [OF d4]
  note c6 = conjunct1 [OF d5] and d6 = conjunct2 [OF d5]
  note c7 = conjunct1 [OF d6] and c8 = conjunct2 [OF d6]
  show "psa_crypto_init P s = (st, s') \<Longrightarrow> kv s' = kv s" using c1 by blast
  show "psa_generate_key P a s = (0, k, s') \<Longrightarrow> kv s k = None \<and> (\<exists>v. kv s' = (kv s)(k := Some v))"
    using c2 by (metis (no_types, lifting))
  show "psa_generate_key P a s = (st, k, s') \<Longrightarrow> st \<noteq> 0 \<Longrightarrow> kv s' = kv s" using c2 by (metis (no_types, lifting))
  show "psa_import_key P a v s = (0, k, s') \<Longrightarrow> kv s k = None \<and> kv s' = (kv s)(k := Some v)" using c3 by (metis (no_types, lifting))
  show "psa_import_key P a v s = (st, k, s') \<Longrightarrow> st \<noteq> 0 \<Longrightarrow> kv s' = kv s" using c3 by (metis (no_types, lifting))
  show "psa_export_key P k n s = (st, out, s') \<Longrightarrow> kv s' = kv s \<and> (st = 0 \<longrightarrow> kv s k = Some out)" using c4 by blast
  show "psa_export_public_key P k n s = (st, out, s') \<Longrightarrow>
      kv s' = kv s \<and> (st = 0 \<longrightarrow> (\<exists>v. kv s k = Some v \<and> out = x_public X v))" using c5 by blast
  show "psa_raw_key_agreement P ALG_ECDH k peer n s = (st, out, s') \<Longrightarrow>
      kv s' = kv s \<and> (st = 0 \<longrightarrow> (\<exists>v. kv s k = Some v \<and> out = x_agree X v peer))" using c6 by blast
  show "psa_mac_compute P k ALG_HMAC_SHA_256 d n s = (st, out, s') \<Longrightarrow>
      kv s' = kv s \<and> (st = 0 \<longrightarrow> (\<exists>v. kv s k = Some v \<and> out = x_hmac X v d))" using c7 by blast
  show "kv (psa_destroy_key P k s) \<in> {kv s, (kv s)(k := None)}" using c8 by blast
qed

lemma slot_restored [simp]: "m k = None \<Longrightarrow> (m(k := Some v))(k := None) = m"
  by auto

section \<open>Slots and results\<close>

lemma slots_kept_same: "kv s' = kv s \<Longrightarrow> slots_kept P kv s s'"
  by (simp add: slots_kept_def)

lemma slots_kept_destroy:
  assumes "psa_spec P kv X" "kv s k = None" "kv s1 = (kv s)(k := Some v)"
  shows "slots_kept P kv s (psa_destroy_key P k s1)"
proof -
  have r: "(kv s1)(k := None) = kv s" using assms(2,3) by auto
  then have "kv (psa_destroy_key P k s1) = kv s1 \<or> kv (psa_destroy_key P k s1) = kv s" using psa_destroy [OF assms(1), of k s1] by auto
  moreover have "kv s \<subseteq>\<^sub>m kv s1" using assms(2,3) by (auto simp: map_le_def)
  ultimately show ?thesis unfolding slots_kept_def psa_destroys_def using r by (metis map_le_refl)
qed

lemma keypair_result:
  assumes P: "psa_spec P kv X" and r: "nuki_crypto_keypair P s = (r, s')"
  shows "slots_kept P kv s s' \<and> (case r of Inl e \<Rightarrow> e = - EIO
     | Inr (pub, priv) \<Rightarrow> pub = x_public X priv \<and> length pub = 32 \<and> length priv = 32)"
proof -
  let ?a = "\<lparr>key_type = ECC_KEY_PAIR_MONTGOMERY, key_bits = 255, key_usage = [USAGE_DERIVE, USAGE_EXPORT], key_alg = ALG_ECDH\<rparr>"
  obtain st k s1 where g: "psa_generate_key P ?a s = (st, k, s1)" by (metis prod_cases3)
  show ?thesis
  proof (cases "st = 0")
    case False
    then show ?thesis using r g psa_generate_fail [OF P g] by (auto simp: slots_kept_same nuki_crypto_keypair_def)
  next
    case True
    obtain v where kv: "kv s k = None" "kv s1 = (kv s)(k := Some v)" using psa_generate [OF P] g True by blast
    obtain st2 priv s2 where e: "psa_export_key P k 32 s1 = (st2, priv, s2)" by (metis prod_cases3)
    obtain st3 pub s3 where p: "psa_export_public_key P k 32 s2 = (st3, pub, s3)" by (metis prod_cases3)
    note ee = psa_export [OF P e] and pp = psa_public [OF P p]
    show ?thesis
      using r g True e p ee pp kv slots_kept_destroy [where kv = kv, OF P]
      by (auto simp: nuki_crypto_keypair_def Let_def split: if_splits)
  qed
qed

lemma dh1_result:
  assumes P: "psa_spec P kv X" and r: "nuki_crypto_dh1 P priv pub s = (r, s')"
  shows "slots_kept P kv s s' \<and> (case r of Inl e \<Rightarrow> e = - EIO | Inr out \<Rightarrow> out = x_agree X priv pub \<and> length out = 32)"
proof -
  let ?a = "\<lparr>key_type = ECC_KEY_PAIR_MONTGOMERY, key_bits = 255, key_usage = [USAGE_DERIVE], key_alg = ALG_ECDH\<rparr>"
  obtain st k s1 where g: "psa_import_key P ?a priv s = (st, k, s1)" by (metis prod_cases3)
  show ?thesis
  proof (cases "st = 0")
    case False
    then show ?thesis using r g psa_import_fail [OF P g] by (auto simp: slots_kept_same nuki_crypto_dh1_def)
  next
    case True
    have kv: "kv s k = None" "kv s1 = (kv s)(k := Some priv)" using psa_import [OF P] g True by blast+
    obtain st2 out s2 where e: "psa_raw_key_agreement P ALG_ECDH k pub 32 s1 = (st2, out, s2)" by (metis prod_cases3)
    show ?thesis
      using r g True e psa_agree [OF P e] kv slots_kept_destroy [where kv = kv, OF P]
      by (auto simp: nuki_crypto_dh1_def Let_def split: if_splits)
  qed
qed

lemma h1_result:
  assumes P: "psa_spec P kv X" and r: "nuki_crypto_h1 P key data s = (r, s')"
  shows "slots_kept P kv s s' \<and> (case r of Inl e \<Rightarrow> e = - EIO | Inr out \<Rightarrow> out = x_hmac X key data \<and> length out = 32)"
proof -
  let ?a = "\<lparr>key_type = KEY_TYPE_HMAC, key_bits = 32 * 8, key_usage = [USAGE_SIGN_MESSAGE], key_alg = ALG_HMAC_SHA_256\<rparr>"
  obtain st k s1 where g: "psa_import_key P ?a key s = (st, k, s1)" by (metis prod_cases3)
  show ?thesis
  proof (cases "st = 0")
    case False
    then show ?thesis using r g psa_import_fail [OF P g] by (auto simp: slots_kept_same nuki_crypto_h1_def)
  next
    case True
    have kv: "kv s k = None" "kv s1 = (kv s)(k := Some key)" using psa_import [OF P] g True by blast+
    obtain st2 out s2 where e: "psa_mac_compute P k ALG_HMAC_SHA_256 data 32 s1 = (st2, out, s2)" by (metis prod_cases3)
    show ?thesis
      using r g True e psa_mac [OF P e] kv slots_kept_destroy [where kv = kv, OF P]
      by (auto simp: nuki_crypto_h1_def Let_def split: if_splits)
  qed
qed

lemma init_result:
  assumes "psa_spec P kv X" "nuki_crypto_init P s = (rc, s')"
  shows "slots_kept P kv s s' \<and> (rc = 0 \<or> rc = - EIO)"
  using assms psa_init [OF assms(1)] by (auto simp: nuki_crypto_init_def slots_kept_same split: prod.splits if_splits)

section \<open>An instance of the interface\<close>

text \<open>Key slots as a finite list, with functions that satisfy the laws; used to show that the hypotheses can hold.\<close>

definition demo_crypto :: x25519_hmac where
  "demo_crypto =
     \<lparr>x_public = (\<lambda>v. v), x_agree = (\<lambda>a b. take 32 (xor_bytes a b @ replicate 32 0)),
      x_hmac = (\<lambda>k d. take 32 (xor_bytes k d @ replicate 32 0))\<rparr>"

definition demo_psa :: "(bytes option list) psa" where
  "demo_psa =
     \<lparr>psa_crypto_init = (\<lambda>s. (0, s)),
      psa_generate_key = (\<lambda>a s. (0, length s, s @ [Some (replicate 32 9)])),
      psa_import_key = (\<lambda>a v s. (0, length s, s @ [Some v])),
      psa_export_key = (\<lambda>k n s. case (if k < length s then s ! k else None) of None \<Rightarrow> (-136, [], s) | Some v \<Rightarrow> (0, v, s)),
      psa_export_public_key = (\<lambda>k n s. case (if k < length s then s ! k else None) of None \<Rightarrow> (-136, [], s) | Some v \<Rightarrow> (0, v, s)),
      psa_raw_key_agreement = (\<lambda>a k p n s. case (if k < length s then s ! k else None) of None \<Rightarrow> (-136, [], s)
         | Some v \<Rightarrow> (0, x_agree demo_crypto v p, s)),
      psa_mac_compute = (\<lambda>k a d n s. case (if k < length s then s ! k else None) of None \<Rightarrow> (-136, [], s)
         | Some v \<Rightarrow> (0, x_hmac demo_crypto v d, s)),
      psa_destroy_key = (\<lambda>k s. s[k := None])\<rparr>"

definition demo_kv :: "bytes option list \<Rightarrow> nat \<Rightarrow> bytes option" where
  "demo_kv s k = (if k < length s then s ! k else None)"

lemma xor_bytes_commute: "xor_bytes xs ys = xor_bytes ys xs"
  by (rule nth_equalityI) (simp_all add: xor_bytes_nth xor.commute)

lemma demo_psa_destroys: "psa_destroys demo_psa demo_kv"
  by (auto simp: psa_destroys_def demo_psa_def demo_kv_def fun_eq_iff)

lemma demo_psa_ok [simp]: "psa_spec demo_psa demo_kv demo_crypto"
  by (auto simp: psa_spec_def demo_psa_def demo_kv_def fun_eq_iff nth_append demo_crypto_def
      split: option.splits if_splits)

section \<open>Properties\<close>

text \<open>
  The PSA wrappers leak no key slot and report every failure: on each path, successful or not,
  the key store after key generation, key agreement or HMAC is the one before, unless PSA Crypto fails to destroy a key; the only error
  is \<open>-EIO\<close>, and a successful result has 32 bytes and is the public key of the returned
  private key, the X25519 agreement, or the HMAC of the data.
\<close>

theorem psa_wrappers_sound:
  assumes "psa_spec P kv X"
  shows "(case nuki_crypto_keypair P s of (r, s') \<Rightarrow> slots_kept P kv s s' \<and>
            (case r of Inl e \<Rightarrow> e = - EIO
             | Inr (pub, priv) \<Rightarrow> pub = x_public X priv \<and> length pub = 32 \<and> length priv = 32)) \<and>
         (case nuki_crypto_dh1 P priv pub s of (r, s') \<Rightarrow> slots_kept P kv s s' \<and>
            (case r of Inl e \<Rightarrow> e = - EIO | Inr out \<Rightarrow> out = x_agree X priv pub \<and> length out = 32)) \<and>
         (case nuki_crypto_h1 P key data s of (r, s') \<Rightarrow> slots_kept P kv s s' \<and>
            (case r of Inl e \<Rightarrow> e = - EIO | Inr out \<Rightarrow> out = x_hmac X key data \<and> length out = 32)) \<and>
         (case nuki_crypto_init P s of (rc, s') \<Rightarrow> slots_kept P kv s s' \<and> (rc = 0 \<or> rc = - EIO))"
  using keypair_result [OF assms] dh1_result [OF assms] h1_result [OF assms] init_result [OF assms]
  by (intro conjI; clarsimp split: prod.split simp del: split_paired_All)

theorem psa_wrappers_sound_witness:
  "slots_kept demo_psa demo_kv [] (snd (nuki_crypto_keypair demo_psa []))"
  using psa_wrappers_sound [OF demo_psa_ok, of "[]" "[]" "[]" "[]" "[]", THEN conjunct1]
  by (simp only: case_prod_unfold)

text \<open>
  Key agreement: when two parties generate key pairs with \<open>nuki_crypto_keypair\<close>, exchange the public
  keys and both run \<open>nuki_crypto_dh1\<close> and \<open>nuki_crypto_kdf1\<close> successfully, they hold the same 32-byte
  shared key.
\<close>

theorem shared_key_agreement:
  assumes "psa_spec P kv X" "psa_spec P' kv' X" "x25519_commutes X"
    and "nuki_crypto_keypair P s = (Inr (pubA, privA), s1)" "nuki_crypto_keypair P' t = (Inr (pubB, privB), t1)"
    and "nuki_crypto_dh1 P privA pubB s2 = (Inr dhA, s3)" "nuki_crypto_dh1 P' privB pubA t2 = (Inr dhB, t3)"
  shows "nuki_crypto_kdf1 dhA = nuki_crypto_kdf1 dhB \<and> length (nuki_crypto_kdf1 dhA) = 32"
proof -
  have "pubA = x_public X privA" "pubB = x_public X privB"
    using keypair_result [OF assms(1,4)] keypair_result [OF assms(2,5)] by simp_all
  moreover have dh: "dhA = x_agree X privA pubB" "dhB = x_agree X privB pubA" "length dhA = 32"
    using dh1_result [OF assms(1,6)] dh1_result [OF assms(2,7)] by auto
  ultimately have "dhA = dhB" using assms(3) unfolding x25519_commutes_def by metis
  then show ?thesis using dh(3) by (simp add: nuki_crypto_kdf1_def core_hsalsa20_spec len_simps)
qed

theorem shared_key_agreement_witness:
  "\<exists>pubA privA pubB privB dhA dhB.
     nuki_crypto_keypair demo_psa [] = (Inr (pubA, privA), [None]) \<and>
     nuki_crypto_keypair demo_psa [None] = (Inr (pubB, privB), [None, None]) \<and>
     fst (nuki_crypto_dh1 demo_psa privA pubB []) = Inr dhA \<and> fst (nuki_crypto_dh1 demo_psa privB pubA []) = Inr dhB \<and>
     nuki_crypto_kdf1 dhA = nuki_crypto_kdf1 dhB"
proof -
  let ?k = "replicate 32 9 :: bytes" and ?d = "take 32 (xor_bytes (replicate 32 9) (replicate 32 9) @ replicate 32 0) :: bytes"
  have k: "nuki_crypto_keypair demo_psa [] = (Inr (?k, ?k), [None])"
    "nuki_crypto_keypair demo_psa [None] = (Inr (?k, ?k), [None, None])"
    by (simp_all add: nuki_crypto_keypair_def demo_psa_def Let_def)
  have d: "nuki_crypto_dh1 demo_psa ?k ?k [] = (Inr ?d, [None])"
    by (simp add: nuki_crypto_dh1_def demo_psa_def demo_crypto_def Let_def)
  have c: "x25519_commutes demo_crypto"
    by (simp add: x25519_commutes_def demo_crypto_def xor_bytes_commute min.commute)
  show ?thesis
    using shared_key_agreement [OF demo_psa_ok demo_psa_ok c k(1,2) d d] k d by auto
qed

end
