(* ===== verification/Nuki_Storage.thy ===== *)
theory Nuki_Storage
  imports Nuki_Prelude
begin

text \<open>
  \<open>src/src/nuki_storage.c\<close> and \<open>nuki_storage.h\<close>: the pairing record in RAM and its persistence through
  Zephyr's settings subsystem.

  The settings subsystem is not part of the repository: it is the record argument \<open>settings\<close> over an
  abstract flash state, and \<open>settings_ok\<close> states the documented behaviour through the value that the
  flash holds under a name.
\<close>

section \<open>The code\<close>

record nuki_pairing_data =
  addr :: bytes
  auth_id :: u32
  app_id :: u32
  shared_key :: bytes
  lock_uuid :: bytes

text \<open>\<open>sizeof(struct nuki_pairing_data)\<close>: 7 address bytes, one byte of padding, 4 + 4 + 32 + 16.\<close>

abbreviation PAIRING_SIZE :: nat where "PAIRING_SIZE \<equiv> 64"

text \<open>The zero-filled record (\<open>memset\<close>, and the initial value of the static variable).\<close>

definition pairing_zero :: nuki_pairing_data where
  "pairing_zero = \<lparr>addr = replicate 7 0, auth_id = 0, app_id = 0, shared_key = replicate 32 0, lock_uuid = replicate 16 0\<rparr>"

record storage =
  pairing :: nuki_pairing_data
  have_pairing :: bool

definition storage_boot :: storage where
  "storage_boot = \<lparr>pairing = pairing_zero, have_pairing = False\<rparr>"

record 'f settings =
  settings_save_one :: "string \<Rightarrow> nuki_pairing_data \<Rightarrow> 'f \<Rightarrow> int \<times> 'f"
  settings_delete :: "string \<Rightarrow> 'f \<Rightarrow> int \<times> 'f"
  settings_name_steq :: "string \<Rightarrow> string \<Rightarrow> bool"

text \<open>\<open>read_cb\<close> gives the number of bytes read or a negative error, and the record after the read.\<close>

definition nuki_settings_set ::
    "'f settings \<Rightarrow> string \<Rightarrow> nat \<Rightarrow> (nuki_pairing_data \<Rightarrow> int \<times> nuki_pairing_data) \<Rightarrow> storage \<Rightarrow> int \<times> storage" where
  "nuki_settings_set S name len read_cb st =
     (if settings_name_steq S name ''pairing'' \<and> len = PAIRING_SIZE then
        let (rc, p) = read_cb (pairing st);
            st = st\<lparr>pairing := p\<rparr>
        in if rc < 0 then (rc, st) else (0, st\<lparr>have_pairing := True\<rparr>)
      else (- ENOENT, st))"

definition nuki_storage_has_pairing :: "storage \<Rightarrow> bool" where
  "nuki_storage_has_pairing st = have_pairing st"

definition nuki_storage_get_pairing :: "storage \<Rightarrow> nuki_pairing_data option" where
  "nuki_storage_get_pairing st = (if have_pairing st then Some (pairing st) else None)"

definition nuki_storage_save_pairing ::
    "'f settings \<Rightarrow> nuki_pairing_data \<Rightarrow> storage \<Rightarrow> 'f \<Rightarrow> int \<times> storage \<times> 'f" where
  "nuki_storage_save_pairing S data st flash =
     (let st = st\<lparr>pairing := data, have_pairing := True\<rparr>;
          (rc, flash) = settings_save_one S ''nuki/pairing'' (pairing st) flash
      in (rc, st, flash))"

definition nuki_storage_clear_pairing :: "'f settings \<Rightarrow> storage \<Rightarrow> 'f \<Rightarrow> int \<times> storage \<times> 'f" where
  "nuki_storage_clear_pairing S st flash =
     (let st = st\<lparr>have_pairing := False, pairing := pairing_zero\<rparr>;
          (rc, flash) = settings_delete S ''nuki/pairing'' flash
      in (rc, st, flash))"

section \<open>Documented behaviour of the settings subsystem\<close>

text \<open>
  \<open>stored\<close> is the value kept in flash under a name. At boot the subsystem calls the handler of the
  subtree \<open>nuki\<close> with the rest of the name for each stored value. Nothing is promised about a write that fails, except that it
  concerns this name only and invents no data: afterwards the old value, the new one or none may be there.
\<close>

definition settings_ok :: "'f settings \<Rightarrow> ('f \<Rightarrow> string \<Rightarrow> nuki_pairing_data option) \<Rightarrow> bool" where
  "settings_ok S stored \<longleftrightarrow>
     (\<forall>n d f rc f'. settings_save_one S n d f = (rc, f') \<longrightarrow>
        (if rc = 0 then stored f' = (stored f)(n := Some d)
         else \<exists>v\<in>{stored f n, Some d, None}. stored f' = (stored f)(n := v))) \<and>
     (\<forall>n f rc f'. settings_delete S n f = (rc, f') \<longrightarrow>
        (if rc = 0 then stored f' = (stored f)(n := None)
         else \<exists>v\<in>{stored f n, None}. stored f' = (stored f)(n := v))) \<and>
     settings_name_steq S ''pairing'' ''pairing''"

definition settings_load :: "'f settings \<Rightarrow> ('f \<Rightarrow> string \<Rightarrow> nuki_pairing_data option) \<Rightarrow> 'f \<Rightarrow> storage" where
  "settings_load S stored flash =
     (case stored flash ''nuki/pairing'' of
        None \<Rightarrow> storage_boot
      | Some d \<Rightarrow> snd (nuki_settings_set S ''pairing'' PAIRING_SIZE (\<lambda>_. (int PAIRING_SIZE, d)) storage_boot))"

lemma settings_load_get:
  "settings_ok S stored \<Longrightarrow> nuki_storage_get_pairing (settings_load S stored flash) = stored flash ''nuki/pairing''"
  by (simp add: settings_load_def nuki_settings_set_def settings_ok_def nuki_storage_get_pairing_def storage_boot_def split: option.split)

text \<open>What saving a pairing leaves in RAM and in flash.\<close>

lemma save_pairing_effect:
  assumes "settings_ok S stored" "nuki_storage_save_pairing S data st flash = (rc, st', flash')"
  shows "st' = \<lparr>pairing = data, have_pairing = True\<rparr>" "rc = 0 \<Longrightarrow> stored flash' = (stored flash)(''nuki/pairing'' := Some data)"
    "\<exists>v\<in>{stored flash ''nuki/pairing'', Some data, None}. stored flash' = (stored flash)(''nuki/pairing'' := v)"
proof -
  obtain f' where f: "settings_save_one S ''nuki/pairing'' data flash = (rc, f')" "flash' = f'" "st' = st\<lparr>pairing := data, have_pairing := True\<rparr>"
    using assms(2) by (auto simp: nuki_storage_save_pairing_def Let_def split: prod.splits)
  have "if rc = 0 then stored f' = (stored flash)(''nuki/pairing'' := Some data)
      else \<exists>v\<in>{stored flash ''nuki/pairing'', Some data, None}. stored f' = (stored flash)(''nuki/pairing'' := v)"
    using assms(1) f(1) unfolding settings_ok_def by blast
  then show "rc = 0 \<Longrightarrow> stored flash' = (stored flash)(''nuki/pairing'' := Some data)"
    "\<exists>v\<in>{stored flash ''nuki/pairing'', Some data, None}. stored flash' = (stored flash)(''nuki/pairing'' := v)"
    using f(2) by (auto split: if_splits)
  show "st' = \<lparr>pairing = data, have_pairing = True\<rparr>" using f(3) by simp
qed

lemma clear_pairing_effect:
  assumes "settings_ok S stored" "nuki_storage_clear_pairing S st flash = (rc, st', flash')"
  shows "\<not> have_pairing st'" "rc = 0 \<Longrightarrow> stored flash' = (stored flash)(''nuki/pairing'' := None)"
    "\<exists>v\<in>{stored flash ''nuki/pairing'', None}. stored flash' = (stored flash)(''nuki/pairing'' := v)"
proof -
  obtain f' where f: "settings_delete S ''nuki/pairing'' flash = (rc, f')" "flash' = f'" "\<not> have_pairing st'"
    using assms(2) by (auto simp: nuki_storage_clear_pairing_def Let_def split: prod.splits)
  have "if rc = 0 then stored f' = (stored flash)(''nuki/pairing'' := None)
      else \<exists>v\<in>{stored flash ''nuki/pairing'', None}. stored f' = (stored flash)(''nuki/pairing'' := v)"
    using assms(1) f(1) unfolding settings_ok_def by blast
  then show "rc = 0 \<Longrightarrow> stored flash' = (stored flash)(''nuki/pairing'' := None)"
    "\<exists>v\<in>{stored flash ''nuki/pairing'', None}. stored flash' = (stored flash)(''nuki/pairing'' := v)"
    using f(2) by (auto split: if_splits)
  show "\<not> have_pairing st'" by (rule f(3))
qed

definition demo_settings :: "((string \<times> nuki_pairing_data) list) settings" where
  "demo_settings =
     \<lparr>settings_save_one = (\<lambda>n d f. (0, (n, d) # f)),
      settings_delete = (\<lambda>n f. (0, filter (\<lambda>(m, _). m \<noteq> n) f)),
      settings_name_steq = (=)\<rparr>"

lemma demo_settings_ok: "settings_ok demo_settings map_of"
proof -
  have "map_of (filter (\<lambda>(m, _). m \<noteq> n) f) = (map_of f)(n := None)" for n and f :: "(string \<times> nuki_pairing_data) list"
    by (induction f) (auto simp: fun_eq_iff)
  then show ?thesis by (auto simp: settings_ok_def demo_settings_def)
qed

section \<open>Properties\<close>

text \<open>
  A pairing that was saved successfully survives a reboot: after the settings subsystem reloads, the
  stored pairing is the saved one; after a successful clear there is none. After a failed one the subsystem reloads what was there before, the new
  value or nothing. A value of the wrong
  size or under another name is refused with \<open>-ENOENT\<close> and changes nothing.
\<close>

theorem pairing_survives_reboot:
  assumes "settings_ok S stored"
  shows "(case nuki_storage_save_pairing S data st flash of (rc, st', flash') \<Rightarrow>
            nuki_storage_get_pairing st' = Some data \<and>
            (if rc = 0 then nuki_storage_get_pairing (settings_load S stored flash') = Some data
             else nuki_storage_get_pairing (settings_load S stored flash') \<in>
                    {nuki_storage_get_pairing (settings_load S stored flash), Some data, None})) \<and>
         (case nuki_storage_clear_pairing S st flash of (rc, st', flash') \<Rightarrow>
            nuki_storage_get_pairing st' = None \<and>
            (if rc = 0 then nuki_storage_get_pairing (settings_load S stored flash') = None
             else nuki_storage_get_pairing (settings_load S stored flash') \<in>
                    {nuki_storage_get_pairing (settings_load S stored flash), None})) \<and>
         (if len \<noteq> PAIRING_SIZE then nuki_settings_set S name len rd st = (- ENOENT, st) else True)"
proof -
  note load = settings_load_get [OF assms]
  obtain rc st' flash' where sv: "nuki_storage_save_pairing S data st flash = (rc, st', flash')" by (metis prod_cases3)
  note S = save_pairing_effect [OF assms sv]
  obtain rc2 st2 flash2 where cl: "nuki_storage_clear_pairing S st flash = (rc2, st2, flash2)" by (metis prod_cases3)
  note C = clear_pairing_effect [OF assms cl]
  have "nuki_storage_get_pairing st' = Some data" "nuki_storage_get_pairing st2 = None"
    using S(1) C(1) by (simp_all add: nuki_storage_get_pairing_def)
  moreover have "if len \<noteq> PAIRING_SIZE then nuki_settings_set S name len rd st = (- ENOENT, st) else True"
    by (simp add: nuki_settings_set_def)
  moreover have "rc = 0 \<Longrightarrow> stored flash' ''nuki/pairing'' = Some data" "rc2 = 0 \<Longrightarrow> stored flash2 ''nuki/pairing'' = None"
    using S(2) C(2) by simp_all
  moreover have "stored flash' ''nuki/pairing'' \<in> {stored flash ''nuki/pairing'', Some data, None}"
    "stored flash2 ''nuki/pairing'' \<in> {stored flash ''nuki/pairing'', None}"
    using S(3) C(3) by force+
  ultimately show ?thesis unfolding sv cl load prod.case by simp
qed

theorem pairing_survives_reboot_witness:
  "nuki_storage_get_pairing (settings_load demo_settings map_of
     (snd (snd (nuki_storage_save_pairing demo_settings (pairing_zero\<lparr>auth_id := 5\<rparr>) storage_boot [])))) =
   Some (pairing_zero\<lparr>auth_id := 5\<rparr>)"
  using pairing_survives_reboot [OF demo_settings_ok, where data = "pairing_zero\<lparr>auth_id := 5\<rparr>" and st = storage_boot and flash = "[]" and len = 64]
  by (auto simp: nuki_storage_save_pairing_def demo_settings_def Let_def)

end
