(* ===== verification/Nuki_Op.thy ===== *)
theory Nuki_Op
  imports Nuki_Prelude
begin

text \<open>
  Sequencing of fallible operations. The C functions of the handshake return at the first nonzero error
  code; \<open>op_bind\<close> is that early return, with the state threaded through. The rules of this
  theory carry the proofs about such sequences: inversion of a successful run, and propagation of a
  relation between the states before and after, for every exit.
\<close>

type_synonym ('s, 'a) op = "'s \<Rightarrow> (int + 'a) \<times> 's"

definition op_return :: "'a \<Rightarrow> ('s, 'a) op" where
  "op_return x s = (Inr x, s)"

definition op_fail :: "int \<Rightarrow> ('s, 'a) op" where
  "op_fail e s = (Inl e, s)"

definition op_bind :: "('s, 'a) op \<Rightarrow> ('a \<Rightarrow> ('s, 'b) op) \<Rightarrow> ('s, 'b) op" where
  "op_bind m f s = (case m s of (Inl e, s') \<Rightarrow> (Inl e, s') | (Inr x, s') \<Rightarrow> f x s')"

text \<open>A C function that returns an error code: nonzero is failure.\<close>

definition op_rc :: "('s \<Rightarrow> int \<times> 's) \<Rightarrow> ('s, unit) op" where
  "op_rc m s = (case m s of (rc, s') \<Rightarrow> (if rc \<noteq> 0 then Inl rc else Inr (), s'))"

text \<open>A C function that cannot fail.\<close>

definition op_get :: "('s \<Rightarrow> 'a \<times> 's) \<Rightarrow> ('s, 'a) op" where
  "op_get m s = (case m s of (x, s') \<Rightarrow> (Inr x, s'))"

definition op_guard :: "bool \<Rightarrow> int \<Rightarrow> ('s, unit) op" where
  "op_guard ok e = (if ok then op_return () else op_fail e)"

text \<open>Operations on one part of a paired state.\<close>

definition on_fst :: "('a, 'x) op \<Rightarrow> ('a \<times> 'b, 'x) op" where
  "on_fst m s = (case m (fst s) of (r, a) \<Rightarrow> (r, (a, snd s)))"

definition on_snd :: "('b, 'x) op \<Rightarrow> ('a \<times> 'b, 'x) op" where
  "on_snd m s = (case m (snd s) of (r, b) \<Rightarrow> (r, (fst s, b)))"

section \<open>Success\<close>

lemma op_bind_Inr:
  "op_bind m f s = (Inr y, s') \<longleftrightarrow> (\<exists>x s1. m s = (Inr x, s1) \<and> f x s1 = (Inr y, s'))"
  by (auto simp: op_bind_def split: prod.splits sum.splits)

lemma op_bind_run [simp]: "m s = (Inr x, s1) \<Longrightarrow> op_bind m f s = f x s1"
  by (simp add: op_bind_def)

lemma op_guard_Inr [simp]: "op_guard ok e s = (Inr u, s') \<longleftrightarrow> ok \<and> s' = s"
  by (auto simp: op_guard_def op_return_def op_fail_def)

lemma op_return_Inr [simp]: "op_return x s = (Inr y, s') \<longleftrightarrow> y = x \<and> s' = s"
  by (auto simp: op_return_def)

lemma op_rc_Inr: "op_rc m s = (Inr u, s') \<longleftrightarrow> m s = (0, s')"
  by (auto simp: op_rc_def split: prod.splits if_splits)

lemma op_get_Inr: "op_get m s = (Inr x, s') \<longleftrightarrow> m s = (x, s')"
  by (auto simp: op_get_def split: prod.splits)

lemma on_fst_Inr: "on_fst m s = (Inr x, s') \<longleftrightarrow> m (fst s) = (Inr x, fst s') \<and> snd s' = snd s"
  by (cases s') (auto simp: on_fst_def split: prod.splits)

lemma on_snd_Inr: "on_snd m s = (Inr x, s') \<longleftrightarrow> m (snd s) = (Inr x, snd s') \<and> fst s' = fst s"
  by (cases s') (auto simp: on_snd_def split: prod.splits)

lemmas op_success = op_bind_Inr op_rc_Inr op_get_Inr on_fst_Inr on_snd_Inr

section \<open>Every exit\<close>

text \<open>The operation relates its input to its output state by \<open>R\<close>, and fails only with errors in \<open>E\<close>.\<close>

definition op_keeps :: "('s \<Rightarrow> 's \<Rightarrow> bool) \<Rightarrow> int set \<Rightarrow> ('s, 'a) op \<Rightarrow> bool" where
  "op_keeps R E m \<longleftrightarrow> (\<forall>s r s'. m s = (r, s') \<longrightarrow> R s s' \<and> (\<forall>e. r = Inl e \<longrightarrow> e \<in> E))"

lemma op_keepsD:
  "op_keeps R E m \<Longrightarrow> m s = (r, s') \<Longrightarrow> R s s'"
  "op_keeps R E m \<Longrightarrow> m s = (Inl e, s') \<Longrightarrow> e \<in> E"
  by (auto simp: op_keeps_def)

lemma op_keeps_return: "reflp R \<Longrightarrow> op_keeps R E (op_return x)"
  by (auto simp: op_keeps_def op_return_def dest: reflpD)

lemma op_keeps_guard: "reflp R \<Longrightarrow> e \<in> E \<Longrightarrow> op_keeps R E (op_guard ok e)"
  by (auto simp: op_keeps_def op_guard_def op_return_def op_fail_def dest: reflpD)

lemma op_keeps_bind:
  assumes "transp R" "op_keeps R E m" "\<And>x. op_keeps R E (f x)"
  shows "op_keeps R E (op_bind m f)"
  unfolding op_keeps_def
proof (intro allI impI)
  fix s r s' assume r: "op_bind m f s = (r, s')"
  obtain x s1 where m: "m s = (x, s1)" by fastforce
  have R1: "R s s1" using op_keepsD(1) [OF assms(2) m] .
  show "R s s' \<and> (\<forall>e. r = Inl e \<longrightarrow> e \<in> E)"
  proof (cases x)
    case (Inl e)
    then show ?thesis using r m R1 op_keepsD(2) [OF assms(2)] by (auto simp: op_bind_def)
  next
    case (Inr y)
    then have "f y s1 = (r, s')" using r m by (simp add: op_bind_def)
    then show ?thesis
      using op_keepsD [OF assms(3) [of y]] transpD [OF assms(1) R1] by blast
  qed
qed

lemma op_keeps_rc:
  "(\<And>s rc s'. m s = (rc, s') \<Longrightarrow> R s s' \<and> (rc \<noteq> 0 \<longrightarrow> rc \<in> E)) \<Longrightarrow> op_keeps R E (op_rc m)"
  by (auto simp: op_keeps_def op_rc_def split: prod.splits if_splits)

lemma op_keeps_get: "(\<And>s x s'. m s = (x, s') \<Longrightarrow> R s s') \<Longrightarrow> op_keeps R E (op_get m)"
  by (auto simp: op_keeps_def op_get_def split: prod.splits)

lemma op_keeps_on_fst:
  "op_keeps R E m \<Longrightarrow> reflp Q \<Longrightarrow> op_keeps (\<lambda>s s'. R (fst s) (fst s') \<and> Q (snd s) (snd s')) E (on_fst m)"
  by (fastforce simp: op_keeps_def on_fst_def dest: reflpD split: prod.splits)

lemma op_keeps_on_snd:
  "op_keeps Q E m \<Longrightarrow> reflp R \<Longrightarrow> op_keeps (\<lambda>s s'. R (fst s) (fst s') \<and> Q (snd s) (snd s')) E (on_snd m)"
  by (fastforce simp: op_keeps_def on_snd_def dest: reflpD split: prod.splits)

lemma op_keeps_case_prod: "(\<And>a b. op_keeps R E (f a b)) \<Longrightarrow> op_keeps R E (case_prod f x)"
  by (cases x) simp

section \<open>Results\<close>

text \<open>As \<open>op_keeps\<close>, with a condition on the result that the rest of the sequence may use.\<close>

definition op_yields :: "('s \<Rightarrow> 's \<Rightarrow> bool) \<Rightarrow> ('s, 'a) op \<Rightarrow> ('a \<Rightarrow> bool) \<Rightarrow> bool" where
  "op_yields R m Q \<longleftrightarrow> (\<forall>s r s'. m s = (r, s') \<longrightarrow> R s s' \<and> (\<forall>x. r = Inr x \<longrightarrow> Q x))"

lemma op_yieldsI:
  "(\<And>s r s'. m s = (r, s') \<Longrightarrow> R s s') \<Longrightarrow> (\<And>s x s'. m s = (Inr x, s') \<Longrightarrow> Q x) \<Longrightarrow> op_yields R m Q"
  by (auto simp: op_yields_def)

lemma op_yieldsD: "op_yields R m Q \<Longrightarrow> m s = (r, s') \<Longrightarrow> R s s'"
  by (simp add: op_yields_def)

lemma op_yields_bind:
  assumes "transp R" "op_yields R m Q" "\<And>x. Q x \<Longrightarrow> op_yields R (f x) Q'"
  shows "op_yields R (op_bind m f) Q'"
  unfolding op_yields_def
proof (intro allI impI)
  fix s r s' assume r: "op_bind m f s = (r, s')"
  obtain x s1 where m: "m s = (x, s1)" by fastforce
  have 1: "R s s1" "x = Inr y \<Longrightarrow> Q y" for y using assms(2) m by (auto simp: op_yields_def)
  show "R s s' \<and> (\<forall>x. r = Inr x \<longrightarrow> Q' x)"
  proof (cases x)
    case (Inl e)
    then show ?thesis using r m 1 by (auto simp: op_bind_def)
  next
    case (Inr y)
    then have "f y s1 = (r, s')" using r m by (simp add: op_bind_def)
    then show ?thesis
      using assms(3) [OF 1(2) [OF Inr]] transpD [OF assms(1) 1(1)] by (auto simp: op_yields_def)
  qed
qed

lemma op_yields_return: "reflp R \<Longrightarrow> op_yields R (op_return x) (\<lambda>_. True)"
  by (auto simp: op_yields_def op_return_def dest: reflpD)

lemma op_yields_guard: "reflp R \<Longrightarrow> op_yields R (op_guard ok e) (\<lambda>_. True)"
  by (auto simp: op_yields_def op_guard_def op_return_def op_fail_def dest: reflpD)

lemma op_yields_case_prod: "(\<And>a b. x = (a, b) \<Longrightarrow> op_yields R (f a b) Q) \<Longrightarrow> op_yields R (case_prod f x) Q"
  by (cases x) simp

end
