(* ===== verification/Nuki_Pairing.thy ===== *)
theory Nuki_Pairing
  imports Nuki_Transport Nuki_Psa Nuki_Storage Nuki_Op
begin

text \<open>
  \<open>src/src/nuki_pairing.c\<close>: the "Authorize App" handshake over the unencrypted GDIO characteristic. The
  state of the handshake is the transport world together with the state of PSA Crypto; each step
  is an operation that returns at the first error, as the C code does.

  The lemmas: what \<open>recv_plain\<close> accepts and how it fails, that no exit of the handshake leaks
  a key slot, that a finished handshake sent exactly the five messages of the protocol and checked
  the lock's authenticator under the derived key, and that it does finish with a lock that follows
  the protocol.
\<close>

section \<open>The code\<close>

abbreviation RECV_TIMEOUT :: nat where "RECV_TIMEOUT \<equiv> 15"

definition NUKI_APP_NAME :: bytes where
  "NUKI_APP_NAME = map of_char ''NRF52840 Central''"

definition send_plain :: "byteorder \<Rightarrow> u16 \<Rightarrow> bytes \<Rightarrow> io \<Rightarrow> int \<times> io" where
  "send_plain B cmd payload s =
     (case nuki_frame_build_plain B NUKI_FRAME_MAX_LEN cmd payload of
        None \<Rightarrow> (- EINVAL, s)
      | Some frame \<Rightarrow> nuki_transport_write frame s)"

definition recv_plain :: "byteorder \<Rightarrow> u16 \<Rightarrow> nat \<Rightarrow> io \<Rightarrow> (int + bytes) \<times> io" where
  "recv_plain B expect_cmd payload_len s =
     (let (err, s) = nuki_transport_wait_min 2 RECV_TIMEOUT s
      in if err \<noteq> 0 then (Inl err, s)
         else
           let cmd = sys_get_le16 B (nuki_transport_peek s 2);
               frame_len = (if cmd = NUKI_CMD_ERROR_REPORT then 2 + 3 + 2
                            else if cmd = NUKI_CMD_STATUS then 2 + 1 + 2
                            else 2 + payload_len + 2);
               (err, s) = nuki_transport_wait_min frame_len RECV_TIMEOUT s
           in if err \<noteq> 0 then (Inl err, s)
              else
                let frame = nuki_transport_peek s frame_len;
                    s = nuki_transport_reset s
                in case nuki_frame_parse_plain B frame of
                     Inl err \<Rightarrow> (Inl err, s)
                   | Inr (cmd, payload) \<Rightarrow>
                       if cmd = NUKI_CMD_ERROR_REPORT \<and> length payload = 3 then (Inl (- EIO), s)
                       else if cmd = NUKI_CMD_STATUS \<and> length payload = 1 \<and> expect_cmd \<noteq> NUKI_CMD_STATUS
                       then (Inl (- EBADMSG), s)
                       else if cmd \<noteq> expect_cmd \<or> length payload \<noteq> payload_len then (Inl (- EBADMSG), s)
                       else (Inr payload, s))"

text \<open>The 69 bytes of the AuthorizationData body (the name of line 199 and lines 202 to 208).\<close>

definition auth_data_body :: "byteorder \<Rightarrow> u32 \<Rightarrow> bytes \<Rightarrow> bytes" where
  "auth_data_body B app nonce_abf =
     (let name = memcpy_at 0 (take (min (length NUKI_APP_NAME) NUKI_NAME_LEN) NUKI_APP_NAME) (replicate NUKI_NAME_LEN 0)
      in [NUKI_ID_TYPE_APP] @ sys_put_le32 B app @ name @ nonce_abf)"

text \<open>The end of the handshake: the confirmation of the AuthorizationId, the final status and the result.\<close>

definition pairing_confirm ::
    "byteorder \<Rightarrow> 's psa \<Rightarrow> bytes \<Rightarrow> u32 \<Rightarrow> bytes \<Rightarrow> (io \<times> 's, nuki_pairing_data) op" where
  "pairing_confirm B P key app auth_id_payload =
     (let auth_id = sys_get_le32 B (drop 32 auth_id_payload);
          lock_uuid = take 16 (drop 36 auth_id_payload);
          nonce_k2 = take 32 (drop 52 auth_id_payload) in
     op_bind (on_snd (nuki_crypto_h1 P key (sys_put_le32 B auth_id @ nonce_k2))) (\<lambda>authenticator.
     op_bind (on_fst (op_rc (send_plain B NUKI_CMD_AUTH_ID_CONFIRMATION (authenticator @ sys_put_le32 B auth_id)))) (\<lambda>_.
     op_bind (on_fst (recv_plain B NUKI_CMD_STATUS 1)) (\<lambda>status_payload.
     op_bind (op_guard (status_payload ! 0 = NUKI_STATUS_COMPLETE) (- EBADMSG)) (\<lambda>_.
     op_return (pairing_zero\<lparr>auth_id := auth_id, app_id := app, shared_key := key, lock_uuid := lock_uuid\<rparr>))))))"

definition nuki_pairing_run :: "byteorder \<Rightarrow> 's psa \<Rightarrow> (io \<times> 's, nuki_pairing_data) op" where
  "nuki_pairing_run B P =
     op_bind (on_snd (op_rc (nuki_crypto_init P))) (\<lambda>_.
     op_bind (on_fst (op_rc (send_plain B NUKI_CMD_REQUEST_DATA (sys_put_le16 B NUKI_CMD_PUBLIC_KEY)))) (\<lambda>_.
     op_bind (on_fst (recv_plain B NUKI_CMD_PUBLIC_KEY NUKI_KEY_LEN)) (\<lambda>sl_pub.
     op_bind (on_snd (nuki_crypto_keypair P)) (\<lambda>(cl_pub, cl_priv).
     op_bind (on_fst (op_rc (send_plain B NUKI_CMD_PUBLIC_KEY cl_pub))) (\<lambda>_.
     op_bind (on_snd (nuki_crypto_dh1 P cl_priv sl_pub)) (\<lambda>dh_result.
     let shared_key = nuki_crypto_kdf1 dh_result in
     op_bind (on_fst (recv_plain B NUKI_CMD_CHALLENGE 32)) (\<lambda>challenge.
     op_bind (on_snd (nuki_crypto_h1 P shared_key (cl_pub @ sl_pub @ challenge))) (\<lambda>authenticator.
     op_bind (on_fst (op_rc (send_plain B NUKI_CMD_AUTH_AUTHENTICATOR authenticator))) (\<lambda>_.
     op_bind (on_fst (recv_plain B NUKI_CMD_CHALLENGE 32)) (\<lambda>challenge.
     op_bind (on_fst (op_get (sys_rand_get 4))) (\<lambda>app_id_bytes.
     op_bind (on_fst (op_get (sys_rand_get 32))) (\<lambda>nonce_abf.
     let app_id = of_nat (le_val app_id_bytes); body = auth_data_body B app_id nonce_abf in
     op_bind (on_snd (nuki_crypto_h1 P shared_key (body @ challenge))) (\<lambda>authenticator.
     op_bind (on_fst (op_rc (send_plain B NUKI_CMD_AUTH_DATA (authenticator @ body)))) (\<lambda>_.
     op_bind (on_fst (recv_plain B NUKI_CMD_AUTH_ID (32 + 4 + 16 + 32))) (\<lambda>auth_id_payload.
     op_bind (on_snd (nuki_crypto_h1 P shared_key (drop 32 auth_id_payload @ nonce_abf))) (\<lambda>expected_authenticator.
     op_bind (op_guard (expected_authenticator = take 32 auth_id_payload) (- EBADMSG)) (\<lambda>_.
     pairing_confirm B P shared_key app_id auth_id_payload)))))))))))))))))"

lemmas pairing_run_defs = nuki_pairing_run_def pairing_confirm_def

section \<open>Plain messages\<close>

definition plain_frame :: "u16 \<Rightarrow> bytes \<Rightarrow> bytes" where
  "plain_frame cmd p = (le16 cmd @ p) @ le16 (nuki_crc16 (le16 cmd @ p))"

lemma plain_frame_length [simp]: "length (plain_frame cmd p) = 4 + length p"
  by (simp add: plain_frame_def)

lemma build_plain_frame:
  "byteorder_ok B \<Longrightarrow> nuki_frame_build_plain B n cmd p = (if 4 + length p \<le> n then Some (plain_frame cmd p) else None)"
  by (simp add: build_plain_eq plain_frame_def)

lemma parse_plain_frame: "byteorder_ok B \<Longrightarrow> nuki_frame_parse_plain B (plain_frame cmd p) = Inr (cmd, p)"
  using plain.parse_build [of "4 + length p" cmd p "plain_frame cmd p"]
  by (simp add: frame_functions_le [of B] build_plain_frame)

lemma parse_plain_Inr:
  "byteorder_ok B \<Longrightarrow> nuki_frame_parse_plain B f = Inr (cmd, p) \<Longrightarrow> f = plain_frame cmd p"
  using plain.build_parse [of f cmd p "length f"]
  by (simp add: frame_functions_le [of B] build_plain_frame split: if_splits)

lemma send_plain_write:
  "byteorder_ok B \<Longrightarrow> length p \<le> 156 \<Longrightarrow> send_plain B cmd p s = nuki_transport_write (plain_frame cmd p) s"
  by (simp add: send_plain_def build_plain_frame)

lemma recv_plain_rx:
  assumes "recv_plain B c n s = (r, s')"
  shows "rx_step s s'"
proof -
  obtain rc1 s1 where w1: "nuki_transport_wait_min 2 RECV_TIMEOUT s = (rc1, s1)" by fastforce
  define l where "l = (let cmd = sys_get_le16 B (nuki_transport_peek s1 2) in
     if cmd = NUKI_CMD_ERROR_REPORT then 2 + 3 + 2 else if cmd = NUKI_CMD_STATUS then 2 + 1 + 2 else 2 + n + 2)"
  obtain rc2 s2 where w2: "nuki_transport_wait_min l RECV_TIMEOUT s1 = (rc2, s2)" by fastforce
  have "s' \<in> {s1, s2, nuki_transport_reset s2}"
    using assms w2 unfolding l_def
    by (auto simp: recv_plain_def w1 Let_def split: if_splits sum.splits prod.splits)
  then show ?thesis
    using wait_min_rx [OF w1] rx_step_trans [OF wait_min_rx [OF w1] wait_min_rx [OF w2]] rx_step_reset by auto
qed

lemma recv_plain_step:
  assumes w1: "wait_min_loop 2 (tr s) (inbound s) = (0, t1, e1)"
    and l: "l = (if sys_get_le16 B (take 2 (rx_buf t1)) = NUKI_CMD_ERROR_REPORT then 7
                 else if sys_get_le16 B (take 2 (rx_buf t1)) = NUKI_CMD_STATUS then 5 else 4 + n)"
    and w2: "wait_min_loop l t1 e1 = (0, t2, e2)"
  shows "recv_plain B c n s =
     (case nuki_frame_parse_plain B (take l (rx_buf t2)) of
        Inl err \<Rightarrow> Inl err
      | Inr (cmd, p) \<Rightarrow>
          if cmd = NUKI_CMD_ERROR_REPORT \<and> length p = 3 then Inl (- EIO)
          else if cmd = NUKI_CMD_STATUS \<and> length p = 1 \<and> c \<noteq> NUKI_CMD_STATUS then Inl (- EBADMSG)
          else if cmd \<noteq> c \<or> length p \<noteq> n then Inl (- EBADMSG) else Inr p,
      s\<lparr>tr := t2\<lparr>rx_len := 0\<rparr>, inbound := e2, blocked := blocked s + 30\<rparr>)"
proof -
  have l': "(if sys_get_le16 B (nuki_transport_peek (s\<lparr>tr := t1, inbound := e1, blocked := blocked s + 15\<rparr>) 2) = NUKI_CMD_ERROR_REPORT then 2 + 3 + 2
     else if sys_get_le16 B (nuki_transport_peek (s\<lparr>tr := t1, inbound := e1, blocked := blocked s + 15\<rparr>) 2) = NUKI_CMD_STATUS then 2 + 1 + 2
     else 2 + n + 2) = l" by (simp add: l nuki_transport_peek_def)
  have w2': "nuki_transport_wait_min l RECV_TIMEOUT (s\<lparr>tr := t1, inbound := e1, blocked := blocked s + 15\<rparr>) = (0, s\<lparr>tr := t2, inbound := e2, blocked := blocked s + 30\<rparr>)"
    using w2 by (simp add: nuki_transport_wait_min_def)
  have w1': "nuki_transport_wait_min 2 RECV_TIMEOUT s = (0, s\<lparr>tr := t1, inbound := e1, blocked := blocked s + 15\<rparr>)"
    using w1 by (simp add: nuki_transport_wait_min_def)
  show ?thesis
    unfolding recv_plain_def w1' Let_def prod.case l' w2'
    by (simp add: nuki_transport_peek_def nuki_transport_reset_def split: sum.split)
qed

lemma take2_plain_frame: "take 2 (plain_frame cmd p) = le16 cmd"
  by (simp add: plain_frame_def)

lemma get_le16_cmd: "byteorder_ok B \<Longrightarrow> sys_get_le16 B (le16 cmd) = cmd"
  by (simp add: byteorder_ok_def)

text \<open>The expected message is received, in any fragmentation.\<close>

lemma recv_plain_message:
  assumes B: "byteorder_ok B" and c: "c \<noteq> NUKI_CMD_ERROR_REPORT" "c = NUKI_CMD_STATUS \<longrightarrow> length p = 1"
    and len: "length p \<le> 156" and s: "io_idle s" "delivers (plain_frame c p # ms) (inbound s)"
  obtains s' where "recv_plain B c (length p) s = (Inr p, s')" "io_idle s'" "delivers ms (inbound s')" "same_output s s'"
proof -
  let ?w = "plain_frame c p"
  have lw: "length ?w = 4 + length p" and l256: "length ?w \<le> NUKI_WIRE_MAX_LEN" using len by simp_all
  obtain rest where a: "awaits ?w rest (tr s) (inbound s)" and rest: "delivers ms rest"
    using delivers_awaits [OF s(2)] s(1) by (auto simp: io_idle_def)
  obtain t1 e1 where w1: "wait_min_loop 2 (tr s) (inbound s) = (0, t1, e1)" "awaits ?w rest t1 e1" "2 \<le> rx_len t1"
    using wait_awaits [OF a _ l256, of 2] lw by auto
  obtain t2 e2 where w2: "wait_min_loop (length ?w) t1 e1 = (0, t2, e2)" "awaits ?w rest t2 e2" "length ?w \<le> rx_len t2"
    using wait_awaits [OF w1(2) _ l256, of "length ?w"] by auto
  have len2: "rx_len t2 = length ?w" using awaits_bounded [OF w2(2)] w2(3) by simp
  have "take 2 (rx_buf t1) = le16 c" using awaits_contents [OF w1(2,3)] take2_plain_frame by simp
  then have g: "sys_get_le16 B (take 2 (rx_buf t1)) = c" using get_le16_cmd [OF B] by simp
  have l: "length ?w = (if sys_get_le16 B (take 2 (rx_buf t1)) = NUKI_CMD_ERROR_REPORT then 7
                 else if sys_get_le16 B (take 2 (rx_buf t1)) = NUKI_CMD_STATUS then 5 else 4 + length p)"
    using c lw unfolding g by simp
  have p2: "take (length ?w) (rx_buf t2) = ?w" using awaits_contents [OF w2(2,3)] by simp
  let ?s = "s\<lparr>tr := t2\<lparr>rx_len := 0\<rparr>, inbound := e2, blocked := blocked s + 30\<rparr>"
  have "recv_plain B c (length p) s = (Inr p, ?s)"
    using recv_plain_step [OF w1(1) l w2(1), of c] c unfolding p2 parse_plain_frame [OF B] by simp
  moreover have "io_idle ?s" using w2(2) by (simp add: io_idle_def awaits_def tr_ok_def)
  moreover have "delivers ms (inbound ?s)" using awaits_done [OF w2(2) len2 rest] by simp
  moreover have "same_output s ?s" by (simp add: same_output_def)
  ultimately show thesis using that by blast
qed

text \<open>What is returned was received, with a valid checksum and the expected command and length.\<close>

lemma recv_plain_success:
  assumes B: "byteorder_ok B" and ok: "tr_ok (tr s)" and r: "recv_plain B c n s = (Inr p, s')"
  shows "length p = n \<and> received s s' (plain_frame c p) \<and> io_idle s'"
proof -
  obtain rc1 t1 e1 where w1: "wait_min_loop 2 (tr s) (inbound s) = (rc1, t1, e1)" by (metis prod_cases3)
  define l where "l = (if sys_get_le16 B (take 2 (rx_buf t1)) = NUKI_CMD_ERROR_REPORT then 7
                 else if sys_get_le16 B (take 2 (rx_buf t1)) = NUKI_CMD_STATUS then 5 else 4 + n)"
  obtain rc2 t2 e2 where w2: "wait_min_loop l t1 e1 = (rc2, t2, e2)" by (metis prod_cases3)
  have r1: "rc1 = 0" using r by (simp add: recv_plain_def nuki_transport_wait_min_def w1 split: if_splits)
  have l': "(if sys_get_le16 B (nuki_transport_peek (s\<lparr>tr := t1, inbound := e1, blocked := blocked s + 15\<rparr>) 2) = NUKI_CMD_ERROR_REPORT then 2 + 3 + 2
     else if sys_get_le16 B (nuki_transport_peek (s\<lparr>tr := t1, inbound := e1, blocked := blocked s + 15\<rparr>) 2) = NUKI_CMD_STATUS then 2 + 1 + 2
     else 2 + n + 2) = l" by (simp add: l_def nuki_transport_peek_def)
  have "rc2 = 0"
    using r unfolding recv_plain_def nuki_transport_wait_min_def w1 r1 Let_def prod.case l'
    by (auto simp: w2 split: if_splits)
  note step = recv_plain_step [OF w1 [unfolded r1] l_def w2 [unfolded this], of c]
  obtain cmd q where q: "nuki_frame_parse_plain B (take l (rx_buf t2)) = Inr (cmd, q)"
    using r step by (auto split: sum.splits)
  have cq: "cmd = c" "q = p" "length p = n" "s' = s\<lparr>tr := t2\<lparr>rx_len := 0\<rparr>, inbound := e2, blocked := blocked s + 30\<rparr>"
    using r step q by (auto split: if_splits)
  have w: "take l (rx_buf t2) = plain_frame c p" using parse_plain_Inr [OF B q] cq by simp
  have l2: "l = 2 + (l - 2)" by (simp add: l_def)
  obtain used where u: "inbound s = used @ e2" "tr_ok t2" "l \<le> rx_len t2"
    "tr_contents t2 = take NUKI_WIRE_MAX_LEN (tr_contents (tr s) @ event_bytes used)"
    using two_waits [OF ok w1 [unfolded r1], of "l - 2" t2 e2] w2 \<open>rc2 = 0\<close> l2 by auto
  have lw: "length (plain_frame c p) = l" using w u by (metis length_take min.absorb2 order_trans tr_ok_def)
  have "plain_frame c p = take l (tr_contents t2)" using w u(3) by (simp add: tr_contents_def min_def)
  then have "fronts (tr_contents (tr s)) used (plain_frame c p)" unfolding fronts_def lw u(4) [symmetric] .
  moreover have "inbound s = used @ inbound s'" using u(1) cq(4) by simp
  ultimately have "received s s' (plain_frame c p)" unfolding received_def by blast
  then show ?thesis using cq u by (simp add: io_idle_def tr_ok_def)
qed

text \<open>A silent or failing lock: the errors a receive can return.\<close>

lemma recv_plain_error:
  assumes B: "byteorder_ok B" and ok: "tr_ok (tr s)" and r: "recv_plain B c n s = (Inl e, s')"
  shows "e \<in> {- EAGAIN, - EBADMSG, - EIO}"
proof -
  obtain rc1 t1 e1 where w1: "wait_min_loop 2 (tr s) (inbound s) = (rc1, t1, e1)" by (metis prod_cases3)
  note q1 = wait_min_loop_result [OF ok w1]
  define l where "l = (if sys_get_le16 B (take 2 (rx_buf t1)) = NUKI_CMD_ERROR_REPORT then 7
                 else if sys_get_le16 B (take 2 (rx_buf t1)) = NUKI_CMD_STATUS then 5 else 4 + n)"
  obtain rc2 t2 e2 where w2: "wait_min_loop l t1 e1 = (rc2, t2, e2)" by (metis prod_cases3)
  note q2 = wait_min_loop_result [OF conjunct1 [OF q1] w2]
  have l': "(if sys_get_le16 B (nuki_transport_peek (s\<lparr>tr := t1, inbound := e1, blocked := blocked s + 15\<rparr>) 2) = NUKI_CMD_ERROR_REPORT then 2 + 3 + 2
     else if sys_get_le16 B (nuki_transport_peek (s\<lparr>tr := t1, inbound := e1, blocked := blocked s + 15\<rparr>) 2) = NUKI_CMD_STATUS then 2 + 1 + 2
     else 2 + n + 2) = l" by (simp add: l_def nuki_transport_peek_def)
  consider "rc1 \<noteq> 0" | "rc1 = 0" "rc2 \<noteq> 0" | "rc1 = 0" "rc2 = 0" by blast
  then show ?thesis
  proof cases
    case 1
    then show ?thesis using r q1 by (auto simp: recv_plain_def nuki_transport_wait_min_def w1)
  next
    case 2
    then have "e = rc2"
      using r unfolding recv_plain_def nuki_transport_wait_min_def w1 2(1) Let_def prod.case l'
      by (auto simp: w2)
    then show ?thesis using q2 2 by auto
  next
    case 3
    have "4 \<le> length (take l (rx_buf t2))" using q2 3 by (simp add: l_def tr_ok_def)
    then have "e' = - EBADMSG" if "nuki_frame_parse_plain B (take l (rx_buf t2)) = Inl e'" for e'
      using that by (simp add: parse_plain_eq [OF B] split: if_splits)
    then show ?thesis
      using r recv_plain_step [OF w1 [unfolded 3(1)] l_def w2 [unfolded 3(2)], of c]
      by (auto split: sum.splits if_splits)
  qed
qed

section \<open>The handshake\<close>

lemma pairing_keeps_slots:
  assumes P: "psa_spec P kv X"
  shows "op_keeps (\<lambda>s s'. slots_kept P kv (snd s) (snd s')) UNIV (nuki_pairing_run B P)"
proof -
  let ?R = "\<lambda>s s' :: io \<times> 'a. slots_kept P kv (snd s) (snd s')"
  have t: "transp ?R" and rf: "reflp ?R" by (auto simp: transp_def reflp_def slots_kept_def intro: map_le_trans)
  have io: "op_keeps ?R UNIV (on_fst m)" for m :: "(io, 'x) op"
    by (auto simp: op_keeps_def on_fst_def slots_kept_same split: prod.splits)
  have ps: "op_keeps ?R UNIV (on_snd m)" if "\<And>p r p'. m p = (r, p') \<Longrightarrow> slots_kept P kv p p'" for m :: "('a, 'x) op"
    using that by (auto simp: op_keeps_def on_snd_def split: prod.splits)
  have i: "op_keeps ?R UNIV (on_snd (op_rc (nuki_crypto_init P)))"
    by (rule ps) (auto simp: op_rc_def dest: init_result [OF P] split: prod.splits)
  have k: "op_keeps ?R UNIV (on_snd (nuki_crypto_keypair P))"
    by (rule ps) (auto dest: keypair_result [OF P])
  have d: "op_keeps ?R UNIV (on_snd (nuki_crypto_dh1 P a b))" for a b
    by (rule ps) (auto dest: dh1_result [OF P])
  have h: "op_keeps ?R UNIV (on_snd (nuki_crypto_h1 P a b))" for a b
    by (rule ps) (auto dest: h1_result [OF P])
  show ?thesis
    unfolding pairing_run_defs Let_def
    by (intro op_keeps_bind [OF t] op_keeps_case_prod op_keeps_return [OF rf] op_keeps_guard [OF rf] io i k d h UNIV_I)
qed

lemma pairing_steps:
  assumes "nuki_pairing_run B P (s, ps) = (Inr d, (s', ps'))"
  obtains p1 s1 s2 sl_pub p2 cl_pub cl_priv s3 p3 dh s4 c1 p4 a1 s5 s6 c2 ab s7 nabf s8 p5 a2 s9 s10 aip p6 p7 a3 s11 st where
    "nuki_crypto_init P ps = (0, p1)"
    "send_plain B NUKI_CMD_REQUEST_DATA (sys_put_le16 B NUKI_CMD_PUBLIC_KEY) s = (0, s1)"
    "recv_plain B NUKI_CMD_PUBLIC_KEY 32 s1 = (Inr sl_pub, s2)"
    "nuki_crypto_keypair P p1 = (Inr (cl_pub, cl_priv), p2)"
    "send_plain B NUKI_CMD_PUBLIC_KEY cl_pub s2 = (0, s3)"
    "nuki_crypto_dh1 P cl_priv sl_pub p2 = (Inr dh, p3)"
    "recv_plain B NUKI_CMD_CHALLENGE 32 s3 = (Inr c1, s4)"
    "nuki_crypto_h1 P (nuki_crypto_kdf1 dh) (cl_pub @ sl_pub @ c1) p3 = (Inr a1, p4)"
    "send_plain B NUKI_CMD_AUTH_AUTHENTICATOR a1 s4 = (0, s5)"
    "recv_plain B NUKI_CMD_CHALLENGE 32 s5 = (Inr c2, s6)"
    "sys_rand_get 4 s6 = (ab, s7)" "sys_rand_get 32 s7 = (nabf, s8)"
    "nuki_crypto_h1 P (nuki_crypto_kdf1 dh) (auth_data_body B (of_nat (le_val ab)) nabf @ c2) p4 = (Inr a2, p5)"
    "send_plain B NUKI_CMD_AUTH_DATA (a2 @ auth_data_body B (of_nat (le_val ab)) nabf) s8 = (0, s9)"
    "recv_plain B NUKI_CMD_AUTH_ID 84 s9 = (Inr aip, s10)"
    "nuki_crypto_h1 P (nuki_crypto_kdf1 dh) (drop 32 aip @ nabf) p5 = (Inr (take 32 aip), p6)"
    "nuki_crypto_h1 P (nuki_crypto_kdf1 dh) (sys_put_le32 B (sys_get_le32 B (drop 32 aip)) @ take 32 (drop 52 aip)) p6 = (Inr a3, p7)"
    "send_plain B NUKI_CMD_AUTH_ID_CONFIRMATION (a3 @ sys_put_le32 B (sys_get_le32 B (drop 32 aip))) s10 = (0, s11)"
    "recv_plain B NUKI_CMD_STATUS 1 s11 = (Inr st, s')" "st ! 0 = NUKI_STATUS_COMPLETE"
    "d = pairing_zero\<lparr>auth_id := sys_get_le32 B (drop 32 aip), app_id := of_nat (le_val ab),
          shared_key := nuki_crypto_kdf1 dh, lock_uuid := take 16 (drop 36 aip)\<rparr>"
  using assms unfolding pairing_run_defs Let_def
  by (clarsimp simp: op_success split: prod.splits)

text \<open>The bytes that the events bring, after \<open>c\<close>, begin with a checksummed message.\<close>

definition got_plain :: "bytes \<Rightarrow> wait_event list \<Rightarrow> u16 \<Rightarrow> bytes \<Rightarrow> bool" where
  "got_plain c evs cmd p \<longleftrightarrow> fronts c evs (plain_frame cmd p)"

lemma send_plain_step:
  assumes "byteorder_ok B" "length p \<le> 156" "send_plain B cmd p s = (rc, s')"
  shows "sent s' = sent s @ [plain_frame cmd p]" "tr_ok (tr s') = tr_ok (tr s)" "inbound s' = inbound s"
    "io_idle s' = io_idle s" "tr_contents (tr s') = tr_contents (tr s)" "rnd s' = rnd s" "rnd_pos s' = rnd_pos s"
  using transport_write_effect [of "plain_frame cmd p" s rc s'] assms send_plain_write [OF assms(1,2)]
  by (simp_all add: tr_ok_def tr_contents_def io_idle_def)

lemma recv_plain_got:
  assumes "byteorder_ok B" "tr_ok (tr s)" "recv_plain B c n s = (Inr p, s')"
  obtains e where "length p = n" "inbound s = e @ inbound s'" "got_plain (tr_contents (tr s)) e c p"
    "sent s' = sent s" "io_idle s'" "tr_ok (tr s')" "rnd s' = rnd s" "rnd_pos s' = rnd_pos s"
  using recv_plain_success [OF assms] recv_plain_rx [OF assms(3)]
  by (auto simp: rx_step_def same_output_def io_idle_def received_def got_plain_def)

text \<open>One round of the handshake: a message is sent and answered.\<close>

lemma plain_round:
  assumes B: "byteorder_ok B" "length q \<le> 156" and ok: "tr_ok (tr s)"
    and st: "send_plain B cmd q s = (0, s1)" "recv_plain B c n s1 = (Inr p, s')"
  obtains e where "length p = n" "inbound s = e @ inbound s'" "got_plain (tr_contents (tr s)) e c p"
    "sent s' = sent s @ [plain_frame cmd q]" "io_idle s'" "tr_ok (tr s')" "tr_contents (tr s') = []" "rnd s' = rnd s" "rnd_pos s' = rnd_pos s"
proof -
  note S = send_plain_step [OF B st(1)]
  have "tr_ok (tr s1)" using S(2) ok by simp
  from recv_plain_got [OF B(1) this st(2)] obtain e where "length p = n" "inbound s1 = e @ inbound s'"
    "got_plain (tr_contents (tr s1)) e c p" "sent s' = sent s1" "io_idle s'" "tr_ok (tr s')" "rnd s' = rnd s1" "rnd_pos s' = rnd_pos s1" .
  then show thesis using that [of e] S(1,3,5-7) io_idle_contents by simp
qed

lemma rand_step:
  "sys_rand_get n s = (b, s') \<Longrightarrow> sent s' = sent s \<and> tr s' = tr s \<and> inbound s' = inbound s \<and> rnd s' = rnd s \<and>
   rnd_pos s' = rnd_pos s + n \<and> b = map (rnd s) [rnd_pos s..<rnd_pos s + n]"
  by (auto simp: sys_rand_get_def)

lemma auth_data_body_length: "byteorder_ok B \<Longrightarrow> length n = 32 \<Longrightarrow> length (auth_data_body B app n) = 69"
  by (simp add: auth_data_body_def byteorder_ok_def NUKI_APP_NAME_def)

lemma auth_id_split:
  assumes "byteorder_ok B" "length aip = 84"
  shows "drop 32 aip = le32 (sys_get_le32 B (drop 32 aip)) @ take 16 (drop 36 aip) @ take 32 (drop 52 aip)"
proof -
  have "le32 (sys_get_le32 B (drop 32 aip)) = take 4 (drop 32 aip)"
    using assms le32_val [of "take 4 (drop 32 aip)"] by (simp add: byteorder_ok_def)
  moreover have "drop 32 aip = take 4 (drop 32 aip) @ take 16 (drop 36 aip) @ drop 52 aip"
    using append_take_drop_id [of 4 "drop 32 aip"] append_take_drop_id [of 16 "drop 36 aip"] by simp
  ultimately show ?thesis using assms(2) by simp
qed

lemma split_form:
  "take 32 xs = f (drop 32 xs @ n) \<Longrightarrow> drop 32 xs = x @ y @ z \<Longrightarrow> xs = f (x @ y @ z @ n) @ x @ y @ z"
  using append_take_drop_id [of 32 xs] by simp

lemma pairing_finished:
  assumes B: "byteorder_ok B" and P: "psa_spec P kv X" and ok: "tr_ok (tr s)"
    and r: "nuki_pairing_run B P (s, ps) = (Inr d, (s', ps'))"
  shows "\<exists>pub priv p2 sl_pub c1 c2 nk e1 e2 e3 e4 e5.
     let sk = shared_key d; aid = le32 (auth_id d);
         nabf = map (rnd s) [rnd_pos s + 4..<rnd_pos s + 36]; body = auth_data_body B (app_id d) nabf
     in nuki_crypto_keypair P (snd (nuki_crypto_init P ps)) = (Inr (pub, priv), p2) \<and> pub = x_public X priv \<and>
        sk = nuki_crypto_kdf1 (x_agree X priv sl_pub) \<and> app_id d = of_nat (le_val (map (rnd s) [rnd_pos s..<rnd_pos s + 4])) \<and>
        length c1 = 32 \<and> length c2 = 32 \<and> length nk = 32 \<and> length (lock_uuid d) = 16 \<and>
        sent s' = sent s @
          [plain_frame NUKI_CMD_REQUEST_DATA (le16 NUKI_CMD_PUBLIC_KEY), plain_frame NUKI_CMD_PUBLIC_KEY pub,
           plain_frame NUKI_CMD_AUTH_AUTHENTICATOR (x_hmac X sk (pub @ sl_pub @ c1)),
           plain_frame NUKI_CMD_AUTH_DATA (x_hmac X sk (body @ c2) @ body),
           plain_frame NUKI_CMD_AUTH_ID_CONFIRMATION (x_hmac X sk (aid @ nk) @ aid)] \<and>
        inbound s = e1 @ e2 @ e3 @ e4 @ e5 @ inbound s' \<and>
        got_plain (tr_contents (tr s)) e1 NUKI_CMD_PUBLIC_KEY sl_pub \<and> got_plain [] e2 NUKI_CMD_CHALLENGE c1 \<and>
        got_plain [] e3 NUKI_CMD_CHALLENGE c2 \<and>
        got_plain [] e4 NUKI_CMD_AUTH_ID (x_hmac X sk (aid @ lock_uuid d @ nk @ nabf) @ aid @ lock_uuid d @ nk) \<and>
        got_plain [] e5 NUKI_CMD_STATUS [NUKI_STATUS_COMPLETE]"
  using r
proof (rule pairing_steps)
  fix p1 s1 s2 sl_pub p2 cl_pub cl_priv s3 p3 dh s4 c1 p4 a1 s5 s6 c2 ab s7 nabf s8 p5 a2 s9 s10 aip p6 p7 a3 s11 st
  let ?sk = "nuki_crypto_kdf1 dh" and ?body = "auth_data_body B (of_nat (le_val ab)) nabf"
  let ?aid = "sys_get_le32 B (drop 32 aip)" and ?nk = "take 32 (drop 52 aip)"
  assume st: "send_plain B NUKI_CMD_REQUEST_DATA (sys_put_le16 B NUKI_CMD_PUBLIC_KEY) s = (0, s1)"
    "recv_plain B NUKI_CMD_PUBLIC_KEY 32 s1 = (Inr sl_pub, s2)"
    "send_plain B NUKI_CMD_PUBLIC_KEY cl_pub s2 = (0, s3)"
    "recv_plain B NUKI_CMD_CHALLENGE 32 s3 = (Inr c1, s4)"
    "send_plain B NUKI_CMD_AUTH_AUTHENTICATOR a1 s4 = (0, s5)"
    "recv_plain B NUKI_CMD_CHALLENGE 32 s5 = (Inr c2, s6)"
    "send_plain B NUKI_CMD_AUTH_DATA (a2 @ ?body) s8 = (0, s9)"
    "recv_plain B NUKI_CMD_AUTH_ID 84 s9 = (Inr aip, s10)"
    "send_plain B NUKI_CMD_AUTH_ID_CONFIRMATION (a3 @ sys_put_le32 B ?aid) s10 = (0, s11)"
    "recv_plain B NUKI_CMD_STATUS 1 s11 = (Inr st, s')" and st0: "st ! 0 = NUKI_STATUS_COMPLETE"
  assume ini: "nuki_crypto_init P ps = (0, p1)"
  assume rd: "sys_rand_get 4 s6 = (ab, s7)" "sys_rand_get 32 s7 = (nabf, s8)"
  assume kp: "nuki_crypto_keypair P p1 = (Inr (cl_pub, cl_priv), p2)"
    and dh: "nuki_crypto_dh1 P cl_priv sl_pub p2 = (Inr dh, p3)"
    and h1: "nuki_crypto_h1 P ?sk (cl_pub @ sl_pub @ c1) p3 = (Inr a1, p4)"
    and h2: "nuki_crypto_h1 P ?sk (?body @ c2) p4 = (Inr a2, p5)"
    and h3: "nuki_crypto_h1 P ?sk (drop 32 aip @ nabf) p5 = (Inr (take 32 aip), p6)"
    and h4: "nuki_crypto_h1 P ?sk (sys_put_le32 B ?aid @ ?nk) p6 = (Inr a3, p7)"
  assume d: "d = pairing_zero\<lparr>auth_id := ?aid, app_id := of_nat (le_val ab), shared_key := ?sk, lock_uuid := take 16 (drop 36 aip)\<rparr>"
  note fb = frame_bytes [OF B]
  have kp': "cl_pub = x_public X cl_priv" "length cl_pub = 32" using keypair_result [OF P kp] by auto
  have dh': "dh = x_agree X cl_priv sl_pub" using dh1_result [OF P dh] by simp
  have a: "a1 = x_hmac X ?sk (cl_pub @ sl_pub @ c1)" "length a1 = 32" "a2 = x_hmac X ?sk (?body @ c2)" "length a2 = 32"
    "take 32 aip = x_hmac X ?sk (drop 32 aip @ nabf)" "a3 = x_hmac X ?sk (le32 ?aid @ ?nk)" "length a3 = 32"
    using h1_result [OF P h1] h1_result [OF P h2] h1_result [OF P h3] h1_result [OF P h4] by (auto simp: fb)
  note r4 = rand_step [OF rd(1)] and r32 = rand_step [OF rd(2)]
  have n32: "length nabf = 32" using r32 by simp
  have bl: "length ?body = 69" using auth_data_body_length [OF B n32] .
  have L: "length (sys_put_le16 B NUKI_CMD_PUBLIC_KEY) \<le> 156" "length cl_pub \<le> 156" "length a1 \<le> 156"
    "length (a2 @ ?body) \<le> 156" "length (a3 @ sys_put_le32 B ?aid) \<le> 156"
    using kp' a bl by (simp_all add: fb)
  obtain e1 where R1: "length sl_pub = 32" "inbound s = e1 @ inbound s2"
    "got_plain (tr_contents (tr s)) e1 NUKI_CMD_PUBLIC_KEY sl_pub"
    "sent s2 = sent s @ [plain_frame NUKI_CMD_REQUEST_DATA (sys_put_le16 B NUKI_CMD_PUBLIC_KEY)]"
    "tr_ok (tr s2)" "tr_contents (tr s2) = []" "rnd s2 = rnd s" "rnd_pos s2 = rnd_pos s"
    using plain_round [OF B L(1) ok st(1,2)] .
  obtain e2 where R2: "length c1 = 32" "inbound s2 = e2 @ inbound s4" "got_plain (tr_contents (tr s2)) e2 NUKI_CMD_CHALLENGE c1"
    "sent s4 = sent s2 @ [plain_frame NUKI_CMD_PUBLIC_KEY cl_pub]" "tr_ok (tr s4)" "tr_contents (tr s4) = []"
    "rnd s4 = rnd s2" "rnd_pos s4 = rnd_pos s2"
    using plain_round [OF B L(2) R1(5) st(3,4)] .
  obtain e3 where R3: "length c2 = 32" "inbound s4 = e3 @ inbound s6" "got_plain (tr_contents (tr s4)) e3 NUKI_CMD_CHALLENGE c2"
    "sent s6 = sent s4 @ [plain_frame NUKI_CMD_AUTH_AUTHENTICATOR a1]" "tr_ok (tr s6)" "tr_contents (tr s6) = []"
    "rnd s6 = rnd s4" "rnd_pos s6 = rnd_pos s4"
    using plain_round [OF B L(3) R2(5) st(5,6)] .
  have s8: "tr s8 = tr s6" "inbound s8 = inbound s6" "sent s8 = sent s6" using r4 r32 by simp_all
  have k8: "tr_ok (tr s8)" using R3(5) s8 by simp
  obtain e4 where R4: "length aip = 84" "inbound s8 = e4 @ inbound s10" "got_plain (tr_contents (tr s8)) e4 NUKI_CMD_AUTH_ID aip"
    "sent s10 = sent s8 @ [plain_frame NUKI_CMD_AUTH_DATA (a2 @ ?body)]" "tr_ok (tr s10)" "tr_contents (tr s10) = []"
    using plain_round [OF B L(4) k8 st(7,8)] .
  obtain e5 where R5: "length st = 1" "inbound s10 = e5 @ inbound s'" "got_plain (tr_contents (tr s10)) e5 NUKI_CMD_STATUS st"
    "sent s' = sent s10 @ [plain_frame NUKI_CMD_AUTH_ID_CONFIRMATION (a3 @ sys_put_le32 B ?aid)]"
    using plain_round [OF B L(5) R4(5) st(9,10)] .
  note sp = auth_id_split [OF B R4(1)]
  have aip: "aip = x_hmac X ?sk (le32 ?aid @ take 16 (drop 36 aip) @ ?nk @ nabf) @ le32 ?aid @ take 16 (drop 36 aip) @ ?nk"
    by (rule split_form [where f = "x_hmac X ?sk", OF a(5) sp])
  have st1: "st = [NUKI_STATUS_COMPLETE]" using R5(1) st0 by (cases st) auto
  have G: "got_plain [] e2 NUKI_CMD_CHALLENGE c1" "got_plain [] e3 NUKI_CMD_CHALLENGE c2"
    "got_plain [] e4 NUKI_CMD_AUTH_ID aip" "got_plain [] e5 NUKI_CMD_STATUS [NUKI_STATUS_COMPLETE]"
    using R1(6) R2(3,6) R3(3,6) R4(3,6) R5(3) s8 st1 by simp_all
  have inb: "inbound s = e1 @ e2 @ e3 @ e4 @ e5 @ inbound s'" using R1(2) R2(2) R3(2) R4(2) R5(2) s8 by simp
  have G4: "got_plain [] e4 NUKI_CMD_AUTH_ID
      (x_hmac X ?sk (le32 ?aid @ take 16 (drop 36 aip) @ ?nk @ nabf) @ le32 ?aid @ take 16 (drop 36 aip) @ ?nk)"
    using G(3) by (simp only: aip [symmetric])
  have sent: "sent s' = sent s @ [plain_frame NUKI_CMD_REQUEST_DATA (le16 NUKI_CMD_PUBLIC_KEY),
      plain_frame NUKI_CMD_PUBLIC_KEY cl_pub, plain_frame NUKI_CMD_AUTH_AUTHENTICATOR a1,
      plain_frame NUKI_CMD_AUTH_DATA (a2 @ ?body), plain_frame NUKI_CMD_AUTH_ID_CONFIRMATION (a3 @ le32 ?aid)]"
    using R1(4) R2(4) R3(4) R4(4) R5(4) s8 by (simp add: fb)
  have fresh: "nabf = map (rnd s) [rnd_pos s + 4..<rnd_pos s + 36]" "ab = map (rnd s) [rnd_pos s..<rnd_pos s + 4]"
    using r4 r32 R1(7,8) R2(7,8) R3(7,8) by (simp_all add: add.commute [of 36] del: upt_rec_numeral)
  have key: "nuki_crypto_keypair P (snd (nuki_crypto_init P ps)) = (Inr (cl_pub, cl_priv), p2)" using kp ini by simp
  have ds: "shared_key d = ?sk" "auth_id d = ?aid" "app_id d = of_nat (le_val ab)" "lock_uuid d = take 16 (drop 36 aip)"
    by (simp_all add: d)
  have ln: "length ?nk = 32" "length (take 16 (drop 36 aip)) = 16" using R4(1) by simp_all
  have sk: "?sk = nuki_crypto_kdf1 (x_agree X cl_priv sl_pub)" using dh' by simp
  show ?thesis
    unfolding Let_def ds fresh(1) [symmetric]
    by (rule exI [of _ cl_pub], rule exI [of _ cl_priv], rule exI [of _ p2], rule exI [of _ sl_pub], rule exI [of _ c1], rule exI [of _ c2],
        rule exI [of _ ?nk], rule exI [of _ e1], rule exI [of _ e2], rule exI [of _ e3], rule exI [of _ e4], rule exI [of _ e5])
      (intro conjI key kp'(1) sk refl R2(1) R3(1) ln sent [unfolded a(1,3,6)] inb R1(3) G(1,2,4) G4, simp only: fresh(2))
qed

section \<open>What the handshake keeps of the transport\<close>

context io_relation
begin

lemma send_plain_rel: "send_plain B cmd p s = (rc, s') \<Longrightarrow> R s s'"
  by (auto simp: send_plain_def intro: refl_rel write_rel split: option.splits)

lemma recv_plain_rel:
  assumes "recv_plain B c n s = (r, s')"
  shows "R s s'"
proof -
  obtain e1 s1 where w1: "nuki_transport_wait_min 2 RECV_TIMEOUT s = (e1, s1)" by fastforce
  have "\<exists>m e2 s2. s' = s1 \<or> nuki_transport_wait_min m RECV_TIMEOUT s1 = (e2, s2) \<and> (s' = s2 \<or> s' = nuki_transport_reset s2)"
    using assms w1
    by (auto simp: recv_plain_def Let_def split: prod.splits if_splits sum.splits)
  then show ?thesis using wait_rel [OF w1] wait_rel reset_rel trans_rel by metis
qed

lemma pairing_run_rel:
  assumes "nuki_pairing_run B P (s, ps) = (r, (s', ps'))"
  shows "R s s'"
proof -
  let ?R = "\<lambda>s s' :: io \<times> 'a. R (fst s) (fst s')"
  have t: "transp ?R" and rf: "reflp ?R" by (auto simp: transp_def reflp_def intro: refl_rel trans_rel)
  have ps: "op_keeps ?R UNIV (on_snd m)" for m :: "('a, 'x) op"
    by (auto simp: op_keeps_def on_snd_def intro: refl_rel split: prod.splits)
  have io: "op_keeps ?R UNIV (on_fst m)" if "\<And>p r p'. m p = (r, p') \<Longrightarrow> R p p'" for m :: "(io, 'x) op"
    using that by (auto simp: op_keeps_def on_fst_def split: prod.splits)
  have send: "op_keeps ?R UNIV (on_fst (op_rc (send_plain B c p)))" for c p
    by (rule io) (auto simp: op_rc_def intro: send_plain_rel split: prod.splits if_splits)
  have rnd: "op_keeps ?R UNIV (on_fst (op_get (sys_rand_get n)))" for n
    by (rule io) (auto simp: op_get_def intro: rand_rel split: prod.splits)
  have recv: "op_keeps ?R UNIV (on_fst (recv_plain B c n))" for c n
    by (rule io) (rule recv_plain_rel)
  have "op_keeps ?R UNIV (nuki_pairing_run B P)"
    unfolding pairing_run_defs Let_def
    by (intro op_keeps_bind [OF t] op_keeps_case_prod op_keeps_return [OF rf] op_keeps_guard [OF rf]
        ps send rnd recv UNIV_I)
  from op_keepsD(1) [OF this assms] show ?thesis by simp
qed

end

section \<open>A lock that follows the protocol\<close>

text \<open>PSA Crypto without resource failures, with 32-byte results.\<close>

definition psa_works :: "'s psa \<Rightarrow> ('s \<Rightarrow> nat \<Rightarrow> bytes option) \<Rightarrow> x25519_hmac \<Rightarrow> bool" where
  "psa_works P kv X \<longleftrightarrow> psa_spec P kv X \<and>
     (\<forall>a v s. fst (psa_import_key P a v s) = PSA_SUCCESS) \<and>
     (\<forall>k p n s. kv s k \<noteq> None \<longrightarrow> fst (psa_raw_key_agreement P ALG_ECDH k p n s) = PSA_SUCCESS) \<and>
     (\<forall>k d n s. kv s k \<noteq> None \<longrightarrow> fst (psa_mac_compute P k ALG_HMAC_SHA_256 d n s) = PSA_SUCCESS) \<and>
     (\<forall>a b. length (x_agree X a b) = 32) \<and> (\<forall>k d. length (x_hmac X k d) = 32)"

lemma psa_worksD:
  assumes "psa_works P kv X"
  shows "psa_spec P kv X" "length (x_agree X a b) = 32" "length (x_hmac X k d) = 32"
  using assms by (simp_all add: psa_works_def)

lemma dh1_works:
  assumes W: "psa_works P kv X"
  shows "\<exists>s'. nuki_crypto_dh1 P priv pub s = (Inr (x_agree X priv pub), s')"
proof -
  note P = psa_worksD(1) [OF W]
  let ?a = "\<lparr>key_type = ECC_KEY_PAIR_MONTGOMERY, key_bits = 255, key_usage = [USAGE_DERIVE], key_alg = ALG_ECDH\<rparr>"
  obtain k s1 where g: "psa_import_key P ?a priv s = (0, k, s1)"
    using W unfolding psa_works_def by (metis prod.collapse)
  have kv: "kv s1 = (kv s)(k := Some priv)" using psa_import [OF P g] by blast
  then obtain out s2 where e: "psa_raw_key_agreement P ALG_ECDH k pub 32 s1 = (0, out, s2)"
    using W unfolding psa_works_def by (metis fun_upd_same option.distinct(1) prod.collapse)
  then have "out = x_agree X priv pub" using psa_agree [OF P e] kv by simp
  then show ?thesis using g e psa_worksD(2) [OF W] by (simp add: nuki_crypto_dh1_def Let_def)
qed

lemma h1_works:
  assumes W: "psa_works P kv X"
  shows "\<exists>s'. nuki_crypto_h1 P key data s = (Inr (x_hmac X key data), s')"
proof -
  note P = psa_worksD(1) [OF W]
  let ?a = "\<lparr>key_type = KEY_TYPE_HMAC, key_bits = 32 * 8, key_usage = [USAGE_SIGN_MESSAGE], key_alg = ALG_HMAC_SHA_256\<rparr>"
  obtain k s1 where g: "psa_import_key P ?a key s = (0, k, s1)"
    using W unfolding psa_works_def by (metis prod.collapse)
  have kv: "kv s1 = (kv s)(k := Some key)" using psa_import [OF P g] by blast
  then obtain out s2 where e: "psa_mac_compute P k ALG_HMAC_SHA_256 data 32 s1 = (0, out, s2)"
    using W unfolding psa_works_def by (metis fun_upd_same option.distinct(1) prod.collapse)
  then have "out = x_hmac X key data" using psa_mac [OF P e] kv by simp
  then show ?thesis using g e psa_worksD(3) [OF W] by (simp add: nuki_crypto_h1_def Let_def)
qed

lemma send_plain_ok:
  assumes "byteorder_ok B" "length p \<le> 156" "write_script s = o1 # os" "write_ok o1"
  obtains s' where "send_plain B cmd p s = (0, s')" "io_idle s' = io_idle s" "write_script s' = os"
    "inbound s' = inbound s" "rnd s' = rnd s" "rnd_pos s' = rnd_pos s"
proof -
  obtain rc s' where e: "nuki_transport_write (plain_frame cmd p) s = (rc, s')" by fastforce
  have "rc = 0" using e assms(3,4) by (auto simp: nuki_transport_write_def Let_def write_ok_def write_cb_def)
  then show thesis
    using that [of s'] e transport_write_effect [OF e] assms(3) send_plain_write [OF assms(1,2), of cmd s]
    by (auto simp: io_idle_def tr_ok_def)
qed

lemma exchange_ok:
  assumes B: "byteorder_ok B" and out: "length q \<le> 156" and w: "write_script s = o1 # os" "write_ok o1"
    and c: "c \<noteq> NUKI_CMD_ERROR_REPORT" "c = NUKI_CMD_STATUS \<longrightarrow> n = 1" and len: "length p = n" "n \<le> 156"
    and s: "io_idle s" "delivers (plain_frame c p # ms) (inbound s)"
  obtains s1 s2 where "send_plain B cmd q s = (0, s1)" "recv_plain B c n s1 = (Inr p, s2)" "io_idle s2"
    "delivers ms (inbound s2)" "write_script s2 = os" "rnd s2 = rnd s" "rnd_pos s2 = rnd_pos s"
proof -
  obtain s1 where S: "send_plain B cmd q s = (0, s1)" "io_idle s1 = io_idle s" "write_script s1 = os"
    "inbound s1 = inbound s" "rnd s1 = rnd s" "rnd_pos s1 = rnd_pos s"
    by (rule send_plain_ok [OF B out w])
  have c': "c = NUKI_CMD_STATUS \<longrightarrow> length p = 1" and l': "length p \<le> 156" using c(2) len by simp_all
  obtain s2 where "recv_plain B c (length p) s1 = (Inr p, s2)" "io_idle s2" "delivers ms (inbound s2)" "same_output s1 s2"
    by (rule recv_plain_message [OF B c(1) c' l' s(1) [folded S(2)] s(2) [folded S(4)]])
  then show thesis using that S len(1) by (simp add: same_output_def)
qed

lemma pairing_run_steps:
  assumes "nuki_crypto_init P ps = (0, p1)"
    "send_plain B NUKI_CMD_REQUEST_DATA (sys_put_le16 B NUKI_CMD_PUBLIC_KEY) s = (0, s1)"
    "recv_plain B NUKI_CMD_PUBLIC_KEY 32 s1 = (Inr sl_pub, s2)"
    "nuki_crypto_keypair P p1 = (Inr (cl_pub, cl_priv), p2)"
    "send_plain B NUKI_CMD_PUBLIC_KEY cl_pub s2 = (0, s3)"
    "nuki_crypto_dh1 P cl_priv sl_pub p2 = (Inr dh, p3)"
    "recv_plain B NUKI_CMD_CHALLENGE 32 s3 = (Inr c1, s4)"
    "nuki_crypto_h1 P (nuki_crypto_kdf1 dh) (cl_pub @ sl_pub @ c1) p3 = (Inr a1, p4)"
    "send_plain B NUKI_CMD_AUTH_AUTHENTICATOR a1 s4 = (0, s5)"
    "recv_plain B NUKI_CMD_CHALLENGE 32 s5 = (Inr c2, s6)"
    "sys_rand_get 4 s6 = (ab, s7)" "sys_rand_get 32 s7 = (nabf, s8)"
    "nuki_crypto_h1 P (nuki_crypto_kdf1 dh) (auth_data_body B (of_nat (le_val ab)) nabf @ c2) p4 = (Inr a2, p5)"
    "send_plain B NUKI_CMD_AUTH_DATA (a2 @ auth_data_body B (of_nat (le_val ab)) nabf) s8 = (0, s9)"
    "recv_plain B NUKI_CMD_AUTH_ID 84 s9 = (Inr aip, s10)"
    "nuki_crypto_h1 P (nuki_crypto_kdf1 dh) (drop 32 aip @ nabf) p5 = (Inr (take 32 aip), p6)"
    "nuki_crypto_h1 P (nuki_crypto_kdf1 dh) (sys_put_le32 B (sys_get_le32 B (drop 32 aip)) @ take 32 (drop 52 aip)) p6 = (Inr a3, p7)"
    "send_plain B NUKI_CMD_AUTH_ID_CONFIRMATION (a3 @ sys_put_le32 B (sys_get_le32 B (drop 32 aip))) s10 = (0, s11)"
    "recv_plain B NUKI_CMD_STATUS 1 s11 = (Inr st, s')" "st ! 0 = NUKI_STATUS_COMPLETE"
  shows "nuki_pairing_run B P (s, ps) =
     (Inr (pairing_zero\<lparr>auth_id := sys_get_le32 B (drop 32 aip), app_id := of_nat (le_val ab),
          shared_key := nuki_crypto_kdf1 dh, lock_uuid := take 16 (drop 36 aip)\<rparr>), (s', p7))"
  unfolding pairing_run_defs Let_def
  by (simp add: op_bind_def on_fst_def on_snd_def op_rc_def op_get_def op_guard_def op_return_def assms del: One_nat_def)

lemma pairing_with_honest_lock:
  assumes B: "byteorder_ok B" and W: "psa_works P kv X"
    and init: "nuki_crypto_init P ps = (0, p1)" and kp: "nuki_crypto_keypair P p1 = (Inr (pub, priv), p2)"
    and idle: "io_idle s" and ws: "write_script s = [o1, o2, o3, o4, o5] @ os"
    and wo: "write_ok o1" "write_ok o2" "write_ok o3" "write_ok o4" "write_ok o5"
    and sk: "sk = nuki_crypto_kdf1 (x_agree X priv sl_pub)"
    and nabf: "nabf = map (rnd s) [rnd_pos s + 4..<rnd_pos s + 36]"
    and len: "length sl_pub = 32" "length c1 = 32" "length c2 = 32" "length uuid = 16" "length nk = 32"
    and dl: "delivers [plain_frame NUKI_CMD_PUBLIC_KEY sl_pub, plain_frame NUKI_CMD_CHALLENGE c1, plain_frame NUKI_CMD_CHALLENGE c2,
        plain_frame NUKI_CMD_AUTH_ID (x_hmac X sk (le32 aid @ uuid @ nk @ nabf) @ le32 aid @ uuid @ nk),
        plain_frame NUKI_CMD_STATUS [NUKI_STATUS_COMPLETE]] (inbound s)"
  shows "\<exists>d s' ps'. nuki_pairing_run B P (s, ps) = (Inr d, (s', ps')) \<and> io_idle s' \<and>
      auth_id d = aid \<and> lock_uuid d = uuid \<and> shared_key d = sk"
proof -
  note fb = frame_bytes [OF B] and P = psa_worksD(1) [OF W] and hl = psa_worksD(3) [OF W]
  have pl: "length pub \<le> 156" using keypair_result [OF P kp] by auto
  let ?h = "x_hmac X sk" and ?done = "plain_frame NUKI_CMD_STATUS [NUKI_STATUS_COMPLETE]"
  define aip where "aip = ?h (le32 aid @ uuid @ nk @ nabf) @ le32 aid @ uuid @ nk"
  have sp: "take 32 aip = ?h (le32 aid @ uuid @ nk @ nabf)" "drop 32 aip = le32 aid @ uuid @ nk"
    "take 16 (drop 36 aip) = uuid" "take 32 (drop 52 aip) = nk" "length aip = 84"
    using hl len by (simp_all add: aip_def)
  have aid: "sys_get_le32 B (drop 32 aip) = aid" unfolding sp(2) using B by (simp add: byteorder_ok_def)
  have q: "length (le16 NUKI_CMD_PUBLIC_KEY) \<le> 156" "length (?h m) \<le> 156" "length (?h m @ le32 aid) \<le> 156" for m
    using hl by simp_all
  have ws1: "write_script s = o1 # [o2, o3, o4, o5] @ os" using ws by simp
  obtain s1 s2 where x1: "send_plain B NUKI_CMD_REQUEST_DATA (le16 NUKI_CMD_PUBLIC_KEY) s = (0, s1)"
    "recv_plain B NUKI_CMD_PUBLIC_KEY 32 s1 = (Inr sl_pub, s2)" "io_idle s2"
    "delivers [plain_frame NUKI_CMD_CHALLENGE c1, plain_frame NUKI_CMD_CHALLENGE c2, plain_frame NUKI_CMD_AUTH_ID aip, ?done] (inbound s2)"
    "write_script s2 = [o2, o3, o4, o5] @ os" "rnd s2 = rnd s" "rnd_pos s2 = rnd_pos s"
    by (rule exchange_ok [OF B q(1) ws1 wo(1) _ _ len(1) _ idle dl [folded aip_def]]) simp_all
  obtain p3 where dh: "nuki_crypto_dh1 P priv sl_pub p2 = (Inr (x_agree X priv sl_pub), p3)" using dh1_works [OF W] by blast
  have ws2: "write_script s2 = o2 # [o3, o4, o5] @ os" using x1 by simp
  obtain s3 s4 where x2: "send_plain B NUKI_CMD_PUBLIC_KEY pub s2 = (0, s3)" "recv_plain B NUKI_CMD_CHALLENGE 32 s3 = (Inr c1, s4)"
    "io_idle s4" "delivers [plain_frame NUKI_CMD_CHALLENGE c2, plain_frame NUKI_CMD_AUTH_ID aip, ?done] (inbound s4)"
    "write_script s4 = [o3, o4, o5] @ os" "rnd s4 = rnd s2" "rnd_pos s4 = rnd_pos s2"
    by (rule exchange_ok [OF B pl ws2 wo(2) _ _ len(2) _ x1(3,4)]) simp_all
  obtain p4 where h1: "nuki_crypto_h1 P sk (pub @ sl_pub @ c1) p3 = (Inr (?h (pub @ sl_pub @ c1)), p4)" using h1_works [OF W] by blast
  have ws4: "write_script s4 = o3 # [o4, o5] @ os" using x2 by simp
  obtain s5 s6 where x3: "send_plain B NUKI_CMD_AUTH_AUTHENTICATOR (?h (pub @ sl_pub @ c1)) s4 = (0, s5)"
    "recv_plain B NUKI_CMD_CHALLENGE 32 s5 = (Inr c2, s6)" "io_idle s6" "delivers [plain_frame NUKI_CMD_AUTH_ID aip, ?done] (inbound s6)"
    "write_script s6 = [o4, o5] @ os" "rnd s6 = rnd s4" "rnd_pos s6 = rnd_pos s4"
    by (rule exchange_ok [OF B q(2) ws4 wo(3) _ _ len(3) _ x2(3,4)]) simp_all
  define ab where "ab = map (rnd s) [rnd_pos s..<rnd_pos s + 4]"
  define s8 where "s8 = s6\<lparr>rnd_pos := rnd_pos s + 36\<rparr>"
  have rd: "sys_rand_get 4 s6 = (ab, s6\<lparr>rnd_pos := rnd_pos s + 4\<rparr>)"
    "sys_rand_get 32 (s6\<lparr>rnd_pos := rnd_pos s + 4\<rparr>) = (nabf, s8)"
    using x1(6,7) x2(6,7) x3(6,7) by (simp_all add: sys_rand_get_def ab_def nabf s8_def add.assoc)
  let ?body = "auth_data_body B (of_nat (le_val ab)) nabf"
  have l4: "length (?h (?body @ c2) @ ?body) \<le> 156" using hl auth_data_body_length [OF B] nabf by simp
  obtain p5 where h2: "nuki_crypto_h1 P sk (?body @ c2) p4 = (Inr (?h (?body @ c2)), p5)" using h1_works [OF W] by blast
  have s8: "write_script s8 = o4 # [o5] @ os" "io_idle s8" "delivers [plain_frame NUKI_CMD_AUTH_ID aip, ?done] (inbound s8)"
    using x3(3-5) by (simp_all add: s8_def io_idle_def del: delivers.simps)
  obtain s9 s10 where x4: "send_plain B NUKI_CMD_AUTH_DATA (?h (?body @ c2) @ ?body) s8 = (0, s9)"
    "recv_plain B NUKI_CMD_AUTH_ID 84 s9 = (Inr aip, s10)" "io_idle s10" "delivers [?done] (inbound s10)" "write_script s10 = [o5] @ os"
    by (rule exchange_ok [OF B l4 s8(1) wo(4) _ _ sp(5) _ s8(2,3)]) simp_all
  obtain p6 where h3: "nuki_crypto_h1 P sk (drop 32 aip @ nabf) p5 = (Inr (take 32 aip), p6)"
    using h1_works [OF W, of sk "drop 32 aip @ nabf" p5] unfolding sp by auto
  obtain p7 where h4: "nuki_crypto_h1 P sk (le32 aid @ nk) p6 = (Inr (?h (le32 aid @ nk)), p7)" using h1_works [OF W] by blast
  have one: "length [NUKI_STATUS_COMPLETE] = 1" by simp
  have ws10: "write_script s10 = o5 # os" using x4 by simp
  obtain s11 s12 where x5: "send_plain B NUKI_CMD_AUTH_ID_CONFIRMATION (?h (le32 aid @ nk) @ le32 aid) s10 = (0, s11)"
    "recv_plain B NUKI_CMD_STATUS 1 s11 = (Inr [NUKI_STATUS_COMPLETE], s12)" "io_idle s12"
    by (rule exchange_ok [OF B q(3) ws10 wo(5) _ _ one _ x4(3,4)]) (simp_all del: One_nat_def)
  have h4': "nuki_crypto_h1 P (nuki_crypto_kdf1 (x_agree X priv sl_pub))
      (sys_put_le32 B (sys_get_le32 B (drop 32 aip)) @ take 32 (drop 52 aip)) p6 = (Inr (?h (le32 aid @ nk)), p7)"
    and x5': "send_plain B NUKI_CMD_AUTH_ID_CONFIRMATION (?h (le32 aid @ nk) @ sys_put_le32 B (sys_get_le32 B (drop 32 aip))) s10 = (0, s11)"
    unfolding aid sp(4) fb using h4 x5(1) sk by simp_all
  have "nuki_pairing_run B P (s, ps) =
     (Inr (pairing_zero\<lparr>auth_id := sys_get_le32 B (drop 32 aip), app_id := of_nat (le_val ab),
          shared_key := nuki_crypto_kdf1 (x_agree X priv sl_pub), lock_uuid := take 16 (drop 36 aip)\<rparr>), (s12, p7))"
    by (rule pairing_run_steps [OF init x1(1) [folded fb(1)] x1(2) kp x2(1) dh x2(2) h1 [unfolded sk] x3(1) [unfolded sk] x3(2) rd
          h2 [unfolded sk] x4(1) [unfolded sk] x4(2) h3 [unfolded sk] h4' x5' x5(2)]) simp
  then show ?thesis using x5(3) aid sp sk by auto
qed

lemma demo_psa_works: "psa_works demo_psa demo_kv demo_crypto"
  unfolding psa_works_def
  by (intro conjI demo_psa_ok) (auto simp: demo_psa_def demo_kv_def demo_crypto_def split: option.splits if_splits)

lemma demo_keypair:
  "nuki_crypto_init demo_psa [] = (0, [])"
  "nuki_crypto_keypair demo_psa [] = (Inr (replicate 32 9, replicate 32 9), [None])"
  by (simp_all add: nuki_crypto_init_def nuki_crypto_keypair_def demo_psa_def Let_def)

text \<open>The answers of an example lock, and the transport on which they arrive.\<close>

definition demo_key :: bytes where
  "demo_key = nuki_crypto_kdf1 (x_agree demo_crypto (replicate 32 9) (replicate 32 1))"

definition demo_answers :: "bytes list" where
  "demo_answers =
     [plain_frame NUKI_CMD_PUBLIC_KEY (replicate 32 1), plain_frame NUKI_CMD_CHALLENGE (replicate 32 2),
      plain_frame NUKI_CMD_CHALLENGE (replicate 32 3),
      plain_frame NUKI_CMD_AUTH_ID (x_hmac demo_crypto demo_key (le32 77 @ replicate 16 4 @ replicate 32 5 @ map of_nat [4..<36])
        @ le32 77 @ replicate 16 4 @ replicate 32 5),
      plain_frame NUKI_CMD_STATUS [NUKI_STATUS_COMPLETE]]"

abbreviation demo_write :: write_outcome where
  "demo_write \<equiv> \<lparr>gatt_write_rc = 0, write_cb_err = Some 0, sem_take_rc = 0\<rparr>"

lemma demo_writes:
  "write_script (demo_io ws) = [demo_write, demo_write, demo_write, demo_write, demo_write] @ [demo_write, demo_write, demo_write]"
  "write_ok demo_write"
  by (simp_all add: write_ok_def numeral_eq_Suc)

lemma demo_nonce:
  "map of_nat [4..<36] = map (rnd (demo_io ws)) [rnd_pos (demo_io ws) + 4..<rnd_pos (demo_io ws) + 36]"
  by (simp add: demo_io_def del: upt_rec_numeral)

lemma demo_lengths:
  "length (replicate 32 1 :: bytes) = 32" "length (replicate 32 2 :: bytes) = 32" "length (replicate 32 3 :: bytes) = 32"
  "length (replicate 16 4 :: bytes) = 16" "length (replicate 32 5 :: bytes) = 32"
  by simp_all

section \<open>Properties\<close>

text \<open>
  C32: the handshake leaks no key slot: whatever the lock and the radio do, whichever calls of PSA Crypto fail, and at whichever step
  the handshake stops, the keys that were in the key store are still there, and if PSA Crypto destroys the keys it is told to, nothing else is left. (The code
  ignores the status of \<open>psa_destroy_key\<close>; when that fails, the slot stays.)
\<close>

theorem pairing_leaks_no_key:
  assumes "psa_spec P kv X" "nuki_pairing_run B P (s, ps) = (r, (s', ps'))"
  shows "kv ps \<subseteq>\<^sub>m kv ps' \<and> (psa_destroys P kv \<longrightarrow> kv ps' = kv ps)"
  using op_keepsD(1) [OF pairing_keeps_slots [OF assms(1)] assms(2)] by (simp add: slots_kept_def)

theorem pairing_leaks_no_key_witness:
  "\<exists>r s' ps'. nuki_pairing_run le_byteorder demo_psa (demo_io [], []) = (r, (s', ps')) \<and> demo_kv ps' = demo_kv []"
proof -
  obtain r s' ps' where e: "nuki_pairing_run le_byteorder demo_psa (demo_io [], []) = (r, (s', ps'))"
    by (metis prod_cases3)
  then show ?thesis using pairing_leaks_no_key [OF demo_psa_ok e] demo_psa_destroys by blast
qed

text \<open>
  C10: a handshake that reports success ran completely and authenticated the lock: exactly the five protocol
  messages were sent, in order, with the public key that \<open>nuki_crypto_keypair\<close> has just generated in this run, each authenticator being the HMAC
  under the shared key (derived from the private key of this pair and the lock's public key) of the prescribed fields; the application id and the nonce are the
  next 4 and the following 32 bytes of the random generator; the authorization id and lock id that are stored come from an
  AuthorizationId message whose authenticator was verified under that key and that nonce;
  and the lock confirmed with Status COMPLETE.
\<close>

theorem pairing_authenticated:
  assumes "byteorder_ok B" "psa_spec P kv X" "tr_ok (tr s)"
    and "nuki_pairing_run B P (s, ps) = (Inr d, (s', ps'))"
  shows "\<exists>pub priv p2 sl_pub c1 c2 nk e1 e2 e3 e4 e5.
     let sk = shared_key d; aid = le32 (auth_id d);
         nabf = map (rnd s) [rnd_pos s + 4..<rnd_pos s + 36]; body = auth_data_body B (app_id d) nabf
     in nuki_crypto_keypair P (snd (nuki_crypto_init P ps)) = (Inr (pub, priv), p2) \<and> pub = x_public X priv \<and>
        sk = nuki_crypto_kdf1 (x_agree X priv sl_pub) \<and> app_id d = of_nat (le_val (map (rnd s) [rnd_pos s..<rnd_pos s + 4])) \<and>
        length c1 = 32 \<and> length c2 = 32 \<and> length nk = 32 \<and> length (lock_uuid d) = 16 \<and>
        sent s' = sent s @
          [plain_frame NUKI_CMD_REQUEST_DATA (le16 NUKI_CMD_PUBLIC_KEY), plain_frame NUKI_CMD_PUBLIC_KEY pub,
           plain_frame NUKI_CMD_AUTH_AUTHENTICATOR (x_hmac X sk (pub @ sl_pub @ c1)),
           plain_frame NUKI_CMD_AUTH_DATA (x_hmac X sk (body @ c2) @ body),
           plain_frame NUKI_CMD_AUTH_ID_CONFIRMATION (x_hmac X sk (aid @ nk) @ aid)] \<and>
        inbound s = e1 @ e2 @ e3 @ e4 @ e5 @ inbound s' \<and>
        got_plain (tr_contents (tr s)) e1 NUKI_CMD_PUBLIC_KEY sl_pub \<and> got_plain [] e2 NUKI_CMD_CHALLENGE c1 \<and>
        got_plain [] e3 NUKI_CMD_CHALLENGE c2 \<and>
        got_plain [] e4 NUKI_CMD_AUTH_ID (x_hmac X sk (aid @ lock_uuid d @ nk @ nabf) @ aid @ lock_uuid d @ nk) \<and>
        got_plain [] e5 NUKI_CMD_STATUS [NUKI_STATUS_COMPLETE]"
  using assms by (rule pairing_finished)

theorem pairing_authenticated_witness:
  "\<exists>d s' ps'. nuki_pairing_run le_byteorder demo_psa (demo_io demo_answers, []) = (Inr d, (s', ps')) \<and>
     length (sent s') = 5 \<and> (\<exists>e. got_plain [] e NUKI_CMD_STATUS [NUKI_STATUS_COMPLETE] \<and>
       (\<exists>d. inbound (demo_io demo_answers) = d @ e @ inbound s'))"
proof -
  have dl: "delivers demo_answers (inbound (demo_io demo_answers))" by (rule demo_io_simps(4))
  obtain d s' ps' where r: "nuki_pairing_run le_byteorder demo_psa (demo_io demo_answers, []) = (Inr d, (s', ps'))"
    using pairing_with_honest_lock [OF le_byteorder_ok demo_psa_works demo_keypair demo_io_simps(1) demo_writes(1) demo_writes(2) demo_writes(2)
        demo_writes(2) demo_writes(2) demo_writes(2) demo_key_def demo_nonce demo_lengths dl [unfolded demo_answers_def]]
    unfolding demo_answers_def by blast
  from pairing_authenticated [OF le_byteorder_ok demo_psa_ok demo_io_simps(2) r]
  have "length (sent s') = 5 \<and> (\<exists>e. got_plain [] e NUKI_CMD_STATUS [NUKI_STATUS_COMPLETE] \<and>
       (\<exists>d. inbound (demo_io demo_answers) = d @ e @ inbound s'))"
    unfolding Let_def by (elim exE conjE, intro conjI) (simp, metis append_assoc)
  with r show ?thesis by blast
qed

text \<open>
  C26: the handshake finishes with a lock that follows the protocol: when the five writes go through and the lock's
  five answers arrive, each in any fragmentation, with an authenticator computed under the shared
  key, the result is success, with the lock's authorization id and identifier and the key that
  the lock derives too.
\<close>

theorem pairing_completes:
  assumes "byteorder_ok B" "psa_works P kv X"
    and "nuki_crypto_init P ps = (0, p1)" "nuki_crypto_keypair P p1 = (Inr (pub, priv), p2)"
    and "io_idle s" "write_script s = [o1, o2, o3, o4, o5] @ os"
    and "write_ok o1" "write_ok o2" "write_ok o3" "write_ok o4" "write_ok o5"
    and "sk = nuki_crypto_kdf1 (x_agree X priv sl_pub)"
    and "nabf = map (rnd s) [rnd_pos s + 4..<rnd_pos s + 36]"
    and "length sl_pub = 32" "length c1 = 32" "length c2 = 32" "length uuid = 16" "length nk = 32"
    and "delivers [plain_frame NUKI_CMD_PUBLIC_KEY sl_pub, plain_frame NUKI_CMD_CHALLENGE c1, plain_frame NUKI_CMD_CHALLENGE c2,
        plain_frame NUKI_CMD_AUTH_ID (x_hmac X sk (le32 aid @ uuid @ nk @ nabf) @ le32 aid @ uuid @ nk),
        plain_frame NUKI_CMD_STATUS [NUKI_STATUS_COMPLETE]] (inbound s)"
  shows "\<exists>d s' ps'. nuki_pairing_run B P (s, ps) = (Inr d, (s', ps')) \<and> io_idle s' \<and>
      auth_id d = aid \<and> lock_uuid d = uuid \<and> shared_key d = sk"
  using assms by (rule pairing_with_honest_lock)

theorem pairing_completes_witness:
  "\<exists>d s' ps'. nuki_pairing_run le_byteorder demo_psa (demo_io demo_answers, []) = (Inr d, (s', ps')) \<and> auth_id d = 77"
proof -
  have dl: "delivers demo_answers (inbound (demo_io demo_answers))" by (rule demo_io_simps(4))
  show ?thesis
    using pairing_completes [OF le_byteorder_ok demo_psa_works demo_keypair demo_io_simps(1) demo_writes(1) demo_writes(2) demo_writes(2)
        demo_writes(2) demo_writes(2) demo_writes(2) demo_key_def demo_nonce demo_lengths dl [unfolded demo_answers_def]]
    unfolding demo_answers_def by blast
qed

text \<open>
  Reception of one handshake message: a payload is returned only if it has the expected length and
  was received in a checksummed frame with the expected command; an error report is \<open>-EIO\<close>, any other
  message \<open>-EBADMSG\<close>, and a silent lock \<open>-EAGAIN\<close>; no other error is returned and nothing is sent.
\<close>

theorem recv_plain_outcome:
  assumes "byteorder_ok B" "tr_ok (tr s)" "recv_plain B c n s = (r, s')"
  shows "(case r of Inl e \<Rightarrow> e \<in> {- EAGAIN, - EBADMSG, - EIO}
          | Inr p \<Rightarrow> length p = n \<and> received s s' (plain_frame c p) \<and> io_idle s') \<and>
         (if inbound s = [] \<and> rx_len (tr s) < 2 then r = Inl (- EAGAIN) else True) \<and>
         sent s' = sent s \<and> tr_ok (tr s')"
proof -
  have "r = Inl (- EAGAIN)" if "inbound s = []" "rx_len (tr s) < 2"
    using assms(3) that by (simp add: recv_plain_def nuki_transport_wait_min_def wait_min_loop.simps)
  moreover have "sent s' = sent s" "tr_ok (tr s')"
    using recv_plain_rx [OF assms(3)] assms(2) by (simp_all add: rx_step_def same_output_def)
  ultimately show ?thesis
    using recv_plain_error [OF assms(1,2)] recv_plain_success [OF assms(1,2)] assms(3)
    by (auto split: sum.split)
qed

theorem recv_plain_outcome_witness:
  "fst (recv_plain le_byteorder NUKI_CMD_CHALLENGE 32 (demo_io [])) = Inl (- EAGAIN)"
proof -
  obtain r s' where e: "recv_plain le_byteorder NUKI_CMD_CHALLENGE 32 (demo_io []) = (r, s')" by fastforce
  show ?thesis
    using recv_plain_outcome [OF le_byteorder_ok demo_io_simps(2) e] e by (simp add: demo_io_def)
qed

end
