(* ===== verification/Nuki_App.thy ===== *)
theory Nuki_App
  imports Nuki_Scan Nuki_Command Nuki_Pairing "HOL-Library.Signed_Division"
begin

text \<open>
  \<open>src/src/nuki_app.c\<close>: connecting on demand, service discovery, the four operations on the lock,
  the cached state and the background poller.

  The Bluetooth host and the kernel are not part of the repository. The callbacks that the host invokes are the events
  \<open>bt_event\<close>, each with the results of the host calls that the callback makes; every call into the host
  is recorded in \<open>bt_log\<close>. While a thread waits for a semaphore, a given list of events happens; the wait
  succeeds if one of them gave the semaphore and times out otherwise. What an operation meets is the record
  \<open>env\<close>.

  The record \<open>app\<close> holds the static variables of the file. \<open>conn_refs\<close> is the balance of the references that the
  module and its transports take on the connection object and give back (an integer: giving back one too many makes it negative), \<open>air\<close> collects the messages written to the
  lock, \<open>waited\<close> adds up, in seconds, the timeouts that the code passes to its blocking calls; the wait for the mutex \<open>g_op_lock\<close>, which has no timeout, is not part
  of it (see \<open>Nuki_Time\<close>). This mutex makes each operation one step with respect to the other threads, \<open>g_cache_lock\<close>
  each access to the cache.
\<close>

section \<open>State\<close>

datatype bt_call =
  Scan_start | Scan_stop | Conn_create bytes | Disconnect nat | Dm_start nat bytes

record cache =
  g_state_poll_retries :: u8
  g_cached_state :: nuki_keyturner_state
  g_cache_valid :: bool
  g_cache_uptime_ms :: int

record app = cache +
  g_conn :: "nat option"
  g_gdio :: nuki_transport
  g_usdio :: nuki_transport
  g_gdio_ready :: bool
  g_usdio_ready :: bool
  g_need_gdio :: bool
  g_ready_sem :: nat
  g_connect_err :: int
  g_connecting :: bool
  g_disconnected_sem :: nat
  g_scan_timeout_work :: bool
  g_op_lock :: bool
  g_storage :: storage
  conn_refs :: int
  bt_log :: "bt_call list"
  air :: "bytes list"
  waited :: nat

text \<open>Record a call into the host.\<close>

definition host :: "bt_call \<Rightarrow> app \<Rightarrow> app" where
  "host c a = a\<lparr>bt_log := bt_log a @ [c]\<rparr>"

abbreviation k_sem_give :: "nat \<Rightarrow> nat" where
  "k_sem_give n \<equiv> min 1 (n + 1)"

section \<open>Callbacks\<close>

definition finish_connect_attempt :: "int \<Rightarrow> app \<Rightarrow> app" where
  "finish_connect_attempt err a =
     (if \<not> g_connecting a then a
      else a\<lparr>g_connecting := False, g_connect_err := err, g_scan_timeout_work := False,
             g_ready_sem := k_sem_give (g_ready_sem a)\<rparr>)"

text \<open>
  \<open>stop_rc\<close> and \<open>created\<close> are the results of \<open>bt_le_scan_stop\<close> and \<open>bt_conn_le_create\<close>: a non-zero error
  or zero with the new connection, on which the caller holds a reference.
\<close>

definition device_found ::
    "bt_lib \<Rightarrow> bytes \<Rightarrow> bt_data list \<Rightarrow> int \<Rightarrow> int \<Rightarrow> nat \<Rightarrow> app \<Rightarrow> app" where
  "device_found L address ad stop_rc create_rc conn a =
     (if g_conn a \<noteq> None then a
      else
        let match = (case nuki_storage_get_pairing (g_storage a) of
                       Some paired \<Rightarrow> bt_addr_le_cmp L address (addr paired) = 0
                     | None \<Rightarrow> ad_has_uuid L ad (nuki_keyturner_service_uuid L) \<or> ad_has_nuki_name ad)
        in if \<not> match then a
           else
             let a = host Scan_stop a
             in if stop_rc \<noteq> 0 then a
                else
                  let a = a\<lparr>g_scan_timeout_work := False\<rparr>;
                      a = host (Conn_create address) a
                  in if create_rc \<noteq> 0 then finish_connect_attempt create_rc a
                     else a\<lparr>g_conn := Some conn, conn_refs := conn_refs a + 1\<rparr>)"

definition scan_timeout_handler :: "app \<Rightarrow> app" where
  "scan_timeout_handler a =
     (let a = host Scan_stop (a\<lparr>g_scan_timeout_work := False\<rparr>)
      in finish_connect_attempt (- ETIMEDOUT) a)"

definition usdio_not_found :: "nat \<Rightarrow> app \<Rightarrow> app" where
  "usdio_not_found conn a = finish_connect_attempt (- ENOTSUP) (host (Disconnect conn) a)"

definition usdio_discovery_error :: "nat \<Rightarrow> app \<Rightarrow> app" where
  "usdio_discovery_error conn a = finish_connect_attempt (- EIO) (host (Disconnect conn) a)"

text \<open>\<open>rc\<close> is the result of \<open>bt_gatt_dm_start\<close>.\<close>

definition discover_keyturner_service :: "bt_lib \<Rightarrow> nat \<Rightarrow> int \<Rightarrow> app \<Rightarrow> app" where
  "discover_keyturner_service L conn rc a =
     (let a = host (Dm_start conn (nuki_keyturner_service_uuid L)) a
      in if rc \<noteq> 0 then finish_connect_attempt rc a else a)"

definition gdio_not_found :: "bt_lib \<Rightarrow> nat \<Rightarrow> int \<Rightarrow> app \<Rightarrow> app" where
  "gdio_not_found L conn rc a = discover_keyturner_service L conn rc a"

definition gdio_discovery_error :: "bt_lib \<Rightarrow> nat \<Rightarrow> int \<Rightarrow> app \<Rightarrow> app" where
  "gdio_discovery_error L conn rc a = discover_keyturner_service L conn rc a"

text \<open>
  \<open>dm\<close> gives for a UUID the characteristic that \<open>bt_gatt_dm_char_by_uuid\<close> finds, if any: its value
  handle and the handle of its CCC descriptor, if it has one; \<open>sub_rc\<close> is the result of subscribing.
\<close>

type_synonym gatt_dm = "bytes \<Rightarrow> (u16 \<times> u16 option) option"

definition gdio_discovered :: "bt_lib \<Rightarrow> nat \<Rightarrow> gatt_dm \<Rightarrow> int \<Rightarrow> int \<Rightarrow> app \<Rightarrow> app" where
  "gdio_discovered L conn dm sub_rc rc a =
     (let a = (case dm (nuki_pairing_gdio_uuid L) of
                 None \<Rightarrow> a
               | Some (value_handle, ccc) \<Rightarrow>
                   let (err, t, refs) = nuki_transport_init conn value_handle
                                          (case ccc of Some h \<Rightarrow> h | None \<Rightarrow> 0) sub_rc (conn_refs a);
                       a = a\<lparr>g_gdio := t, conn_refs := refs\<rparr>
                   in if err = 0 then a\<lparr>g_gdio_ready := True\<rparr> else a)
      in discover_keyturner_service L conn rc a)"

definition usdio_discovered :: "bt_lib \<Rightarrow> nat \<Rightarrow> gatt_dm \<Rightarrow> int \<Rightarrow> app \<Rightarrow> app" where
  "usdio_discovered L conn dm sub_rc a =
     (case dm (nuki_keyturner_usdio_uuid L) of
        None \<Rightarrow> finish_connect_attempt (- ENOTSUP) a
      | Some (value_handle, ccc) \<Rightarrow>
          let (err, t, refs) = nuki_transport_init conn value_handle
                                 (case ccc of Some h \<Rightarrow> h | None \<Rightarrow> 0) sub_rc (conn_refs a);
              a = a\<lparr>g_usdio := t, conn_refs := refs\<rparr>
          in if err \<noteq> 0 then finish_connect_attempt err a
             else finish_connect_attempt 0 (a\<lparr>g_usdio_ready := True\<rparr>))"

definition start_discovery :: "bt_lib \<Rightarrow> nat \<Rightarrow> int \<Rightarrow> app \<Rightarrow> app" where
  "start_discovery L conn rc a =
     (if \<not> g_need_gdio a then discover_keyturner_service L conn rc a
      else
        let a = host (Dm_start conn (nuki_pairing_service_uuid L)) a
        in if rc \<noteq> 0 then finish_connect_attempt rc a else a)"

definition connected :: "bt_lib \<Rightarrow> nat \<Rightarrow> u8 \<Rightarrow> int \<Rightarrow> app \<Rightarrow> app" where
  "connected L conn err rc a =
     (if err \<noteq> 0 then finish_connect_attempt (- EIO) (a\<lparr>conn_refs := conn_refs a - 1, g_conn := None\<rparr>)
      else if Some conn \<noteq> g_conn a then a
      else start_discovery L conn rc a)"

definition disconnected :: "nat \<Rightarrow> app \<Rightarrow> app" where
  "disconnected conn a =
     (if Some conn \<noteq> g_conn a then a
      else
        let a = (if g_gdio_ready a
                 then let (t, refs) = nuki_transport_release (g_gdio a) (conn_refs a)
                      in a\<lparr>g_gdio := t, conn_refs := refs, g_gdio_ready := False\<rparr>
                 else a);
            a = (if g_usdio_ready a
                 then let (t, refs) = nuki_transport_release (g_usdio a) (conn_refs a)
                      in a\<lparr>g_usdio := t, conn_refs := refs, g_usdio_ready := False\<rparr>
                 else a);
            a = a\<lparr>conn_refs := conn_refs a - 1, g_conn := None\<rparr>;
            a = finish_connect_attempt (- ENOTCONN) a
        in a\<lparr>g_disconnected_sem := k_sem_give (g_disconnected_sem a)\<rparr>)"

text \<open>The tables with which the callbacks are registered; the arguments are completed with the results of the host calls.\<close>

record bt_gatt_dm_cb =
  completed :: "nat \<Rightarrow> gatt_dm \<Rightarrow> int \<Rightarrow> int \<Rightarrow> app \<Rightarrow> app"
  service_not_found :: "nat \<Rightarrow> int \<Rightarrow> app \<Rightarrow> app"
  error_found :: "nat \<Rightarrow> int \<Rightarrow> app \<Rightarrow> app"

definition usdio_dm_cb :: "bt_lib \<Rightarrow> bt_gatt_dm_cb" where
  [simp]: "usdio_dm_cb L = \<lparr>completed = (\<lambda>conn dm sub_rc _. usdio_discovered L conn dm sub_rc),
                           service_not_found = (\<lambda>conn _. usdio_not_found conn),
                           error_found = (\<lambda>conn _. usdio_discovery_error conn)\<rparr>"

definition gdio_dm_cb :: "bt_lib \<Rightarrow> bt_gatt_dm_cb" where
  [simp]: "gdio_dm_cb L = \<lparr>completed = gdio_discovered L, service_not_found = gdio_not_found L,
                          error_found = gdio_discovery_error L\<rparr>"

record bt_conn_cb =
  cb_connected :: "nat \<Rightarrow> u8 \<Rightarrow> int \<Rightarrow> app \<Rightarrow> app"
  cb_disconnected :: "nat \<Rightarrow> app \<Rightarrow> app"

definition conn_callbacks :: "bt_lib \<Rightarrow> bt_conn_cb" where
  [simp]: "conn_callbacks L = \<lparr>cb_connected = connected L, cb_disconnected = disconnected\<rparr>"

text \<open>The callbacks with their arguments and the results of the host calls they make.\<close>

datatype bt_event =
  Device_found bytes "bt_data list" int int nat
| Scan_timeout
| Connected nat u8 int
| Disconnected nat
| Gdio_not_found nat int
| Gdio_discovery_error nat int
| Gdio_discovered nat gatt_dm int int
| Usdio_not_found nat
| Usdio_discovery_error nat
| Usdio_discovered nat gatt_dm int

fun bt_handle :: "bt_lib \<Rightarrow> bt_event \<Rightarrow> app \<Rightarrow> app" where
  "bt_handle L (Device_found address ad stop_rc create_rc conn) a = device_found L address ad stop_rc create_rc conn a"
| "bt_handle L Scan_timeout a = scan_timeout_handler a"
| "bt_handle L (Connected conn err rc) a = cb_connected (conn_callbacks L) conn err rc a"
| "bt_handle L (Disconnected conn) a = cb_disconnected (conn_callbacks L) conn a"
| "bt_handle L (Gdio_not_found conn rc) a = service_not_found (gdio_dm_cb L) conn rc a"
| "bt_handle L (Gdio_discovery_error conn rc) a = error_found (gdio_dm_cb L) conn rc a"
| "bt_handle L (Gdio_discovered conn dm sub_rc rc) a = completed (gdio_dm_cb L) conn dm sub_rc rc a"
| "bt_handle L (Usdio_not_found conn) a = service_not_found (usdio_dm_cb L) conn 0 a"
| "bt_handle L (Usdio_discovery_error conn) a = error_found (usdio_dm_cb L) conn 0 a"
| "bt_handle L (Usdio_discovered conn dm sub_rc) a = completed (usdio_dm_cb L) conn dm sub_rc 0 a"

abbreviation bt_handles :: "bt_lib \<Rightarrow> bt_event list \<Rightarrow> app \<Rightarrow> app" where
  "bt_handles L evs a \<equiv> fold (bt_handle L) evs a"

section \<open>Connect on demand\<close>

text \<open>
  What one operation meets: the result of \<open>bt_le_scan_start\<close>, the events up to the return of the wait for
  the connection, what the lock and the radio do during the command (see \<open>io\<close>), the connection events
  that happen meanwhile and during the wait for the disconnection, and the uptime at the end.
\<close>

record env =
  scan_rc :: int
  connect_events :: "bt_event list"
  lock_inbound :: "wait_event list"
  lock_writes :: "write_outcome list"
  lock_rand :: "nat \<Rightarrow> u8"
  op_events :: "bt_event list"
  disconnect_events :: "bt_event list"
  uptime :: int

abbreviation SCAN_TIMEOUT :: nat where "SCAN_TIMEOUT \<equiv> 15"
abbreviation CONNECT_TIMEOUT :: nat where "CONNECT_TIMEOUT \<equiv> 20"
abbreviation DISCONNECT_TIMEOUT :: nat where "DISCONNECT_TIMEOUT \<equiv> 5"

definition connect_to_lock :: "bt_lib \<Rightarrow> bool \<Rightarrow> env \<Rightarrow> app \<Rightarrow> int \<times> app" where
  "connect_to_lock L need_gdio E a =
     (let a = a\<lparr>g_ready_sem := 0, g_connect_err := 0, g_need_gdio := need_gdio, g_connecting := True\<rparr>;
          a = host Scan_start a;
          err = scan_rc E
      in if err \<noteq> 0 then (err, a)
         else
           let a = a\<lparr>g_scan_timeout_work := True, waited := waited a + CONNECT_TIMEOUT\<rparr>;
               a = bt_handles L (connect_events E) a
           in if g_ready_sem a = 0 then
                let a = a\<lparr>g_connecting := False\<rparr>;
                    a = host Scan_stop a;
                    a = (case g_conn a of Some conn \<Rightarrow> host (Disconnect conn) a | None \<Rightarrow> a)
                in (- ETIMEDOUT, a)
              else (g_connect_err a, a\<lparr>g_ready_sem := 0\<rparr>))"

definition disconnect_from_lock :: "bt_lib \<Rightarrow> env \<Rightarrow> app \<Rightarrow> app" where
  "disconnect_from_lock L E a =
     (case g_conn a of
        None \<Rightarrow> a
      | Some conn \<Rightarrow>
          let a = a\<lparr>g_disconnected_sem := 0, waited := waited a + DISCONNECT_TIMEOUT\<rparr>;
              a = host (Disconnect conn) a;
              a = bt_handles L (disconnect_events E) a
          in a\<lparr>g_disconnected_sem := 0\<rparr>)"

section \<open>The operations\<close>

text \<open>The transport handed to a command, and its state afterwards.\<close>

definition session_io :: "env \<Rightarrow> nuki_transport \<Rightarrow> io" where
  "session_io E t = \<lparr>tr = t, inbound = lock_inbound E, write_script = lock_writes E, sent = [],
                    rnd = lock_rand E, rnd_pos = 0, blocked = 0\<rparr>"

definition usdio_session :: "bt_lib \<Rightarrow> env \<Rightarrow> io \<Rightarrow> app \<Rightarrow> app" where
  "usdio_session L E s a = bt_handles L (op_events E) (a\<lparr>g_usdio := tr s, air := air a @ sent s, waited := waited a + blocked s\<rparr>)"

definition gdio_session :: "bt_lib \<Rightarrow> env \<Rightarrow> io \<Rightarrow> app \<Rightarrow> app" where
  "gdio_session L E s a = bt_handles L (op_events E) (a\<lparr>g_gdio := tr s, air := air a @ sent s, waited := waited a + blocked s\<rparr>)"

definition pair_locked ::
    "bt_lib \<Rightarrow> byteorder \<Rightarrow> 's psa \<Rightarrow> 'f settings \<Rightarrow> env \<Rightarrow> app \<times> 's \<times> 'f \<Rightarrow> int \<times> app \<times> 's \<times> 'f" where
  "pair_locked L B P S E = (\<lambda>(a, ps, flash).
     let (err, a) = connect_to_lock L True E a
     in if err \<noteq> 0 then (err, a, ps, flash)
        else if \<not> g_gdio_ready a then (- ENOTSUP, disconnect_from_lock L E a, ps, flash)
        else
          let (r, s, ps) = nuki_pairing_run B P (session_io E (g_gdio a), ps);
              a = gdio_session L E s a;
              (err, a, flash) =
                (case r of
                   Inl err \<Rightarrow> (err, a, flash)
                 | Inr data \<Rightarrow>
                     let data = data\<lparr>addr := bt_conn_get_dst L (g_conn a)\<rparr>;
                         (err, st, flash) = nuki_storage_save_pairing S data (g_storage a) flash
                     in (err, a\<lparr>g_storage := st\<rparr>, flash))
          in (err, disconnect_from_lock L E a, ps, flash))"

definition get_state_locked ::
    "bt_lib \<Rightarrow> byteorder \<Rightarrow> env \<Rightarrow> app \<Rightarrow> (int + nuki_keyturner_state) \<times> app" where
  "get_state_locked L B E a =
     (case nuki_storage_get_pairing (g_storage a) of
        None \<Rightarrow> (Inl (- ENOENT), a)
      | Some p \<Rightarrow>
          let (err, a) = connect_to_lock L False E a
          in if err \<noteq> 0 then (Inl err, a)
             else
               let (r, s) = nuki_command_get_state B (auth_id p) (shared_key p) (session_io E (g_usdio a));
                   a = usdio_session L E s a
               in (r, disconnect_from_lock L E a))"

definition lock_action_locked :: "bt_lib \<Rightarrow> byteorder \<Rightarrow> u8 \<Rightarrow> env \<Rightarrow> app \<Rightarrow> int \<times> app" where
  "lock_action_locked L B action E a =
     (case nuki_storage_get_pairing (g_storage a) of
        None \<Rightarrow> (- ENOENT, a)
      | Some p \<Rightarrow>
          let (err, a) = connect_to_lock L False E a
          in if err \<noteq> 0 then (err, a)
             else
               let (err, state, s) = nuki_command_lock_action B (auth_id p) (app_id p) (shared_key p) action True
                                       (session_io E (g_usdio a));
                   a = usdio_session L E s a;
                   a = disconnect_from_lock L E a;
                   a = (case state of
                          Some st \<Rightarrow>
                            if err = 0 then a\<lparr>g_cached_state := st, g_cache_valid := True, g_cache_uptime_ms := uptime E\<rparr>
                            else a
                        | None \<Rightarrow> a)
               in (err, a))"

definition calibrate_locked :: "bt_lib \<Rightarrow> byteorder \<Rightarrow> u16 \<Rightarrow> env \<Rightarrow> app \<Rightarrow> int \<times> app" where
  "calibrate_locked L B security_pin E a =
     (case nuki_storage_get_pairing (g_storage a) of
        None \<Rightarrow> (- ENOENT, a)
      | Some p \<Rightarrow>
          let (err, a) = connect_to_lock L False E a
          in if err \<noteq> 0 then (err, a)
             else
               let (err, s) = nuki_command_calibrate B (auth_id p) (shared_key p) security_pin
                                (session_io E (g_usdio a));
                   a = usdio_session L E s a
               in (err, disconnect_from_lock L E a))"

definition nuki_app_pair ::
    "bt_lib \<Rightarrow> byteorder \<Rightarrow> 's psa \<Rightarrow> 'f settings \<Rightarrow> env \<Rightarrow> app \<times> 's \<times> 'f \<Rightarrow> int \<times> app \<times> 's \<times> 'f" where
  "nuki_app_pair L B P S E = (\<lambda>(a, ps, flash).
     let (err, a, ps, flash) = pair_locked L B P S E (a\<lparr>g_op_lock := True\<rparr>, ps, flash)
     in (err, a\<lparr>g_op_lock := False\<rparr>, ps, flash))"

definition nuki_app_get_state ::
    "bt_lib \<Rightarrow> byteorder \<Rightarrow> env \<Rightarrow> app \<Rightarrow> (int + nuki_keyturner_state) \<times> app" where
  "nuki_app_get_state L B E a =
     (let (r, a) = get_state_locked L B E (a\<lparr>g_op_lock := True\<rparr>) in (r, a\<lparr>g_op_lock := False\<rparr>))"

definition nuki_app_lock_action :: "bt_lib \<Rightarrow> byteorder \<Rightarrow> u8 \<Rightarrow> env \<Rightarrow> app \<Rightarrow> int \<times> app" where
  "nuki_app_lock_action L B action E a =
     (let (err, a) = lock_action_locked L B action E (a\<lparr>g_op_lock := True\<rparr>) in (err, a\<lparr>g_op_lock := False\<rparr>))"

definition nuki_app_calibrate :: "bt_lib \<Rightarrow> byteorder \<Rightarrow> u16 \<Rightarrow> env \<Rightarrow> app \<Rightarrow> int \<times> app" where
  "nuki_app_calibrate L B security_pin E a =
     (let (err, a) = calibrate_locked L B security_pin E (a\<lparr>g_op_lock := True\<rparr>) in (err, a\<lparr>g_op_lock := False\<rparr>))"

section \<open>Status, cache and poller\<close>

definition nuki_app_is_connected :: "app \<Rightarrow> bool" where
  "nuki_app_is_connected a = (g_conn a \<noteq> None)"

definition nuki_app_is_ready :: "app \<Rightarrow> bool" where
  "nuki_app_is_ready a = (g_conn a \<noteq> None \<and> g_usdio_ready a)"

definition nuki_app_is_paired :: "app \<Rightarrow> bool" where
  "nuki_app_is_paired a = (nuki_storage_get_pairing (g_storage a) \<noteq> None)"

text \<open>\<open>now\<close> is \<open>k_uptime_get()\<close>, a 64-bit signed number of milliseconds; \<open>/\<close> truncates, the cast keeps 32 bits.\<close>

definition nuki_app_get_cached_state :: "int \<Rightarrow> app \<Rightarrow> int + (nuki_keyturner_state \<times> 32 word)" where
  "nuki_app_get_cached_state now a =
     (if g_cache_valid a
      then Inr (g_cached_state a, word_of_int ((now - g_cache_uptime_ms a) sdiv 1000))
      else Inl (- ENODATA))"

abbreviation STATE_POLL_INTERVAL_SEC :: nat where "STATE_POLL_INTERVAL_SEC \<equiv> 15 * 60"
abbreviation STATE_POLL_RETRY_SEC :: nat where "STATE_POLL_RETRY_SEC \<equiv> 3"
abbreviation STATE_POLL_MAX_RETRIES :: u8 where "STATE_POLL_MAX_RETRIES \<equiv> 3"

text \<open>
  One iteration of the poller's loop; the result is the number of seconds it then sleeps. The cache is written after \<open>g_op_lock\<close> is
  released, but the poller is a cooperative thread (\<open>K_PRIO_COOP\<close>, line 608), so that no other thread runs between the release and the write
  unless it waits for a reader of the cache, and the query and the write are one step here.
\<close>

definition state_poll_round :: "bt_lib \<Rightarrow> byteorder \<Rightarrow> env \<Rightarrow> app \<Rightarrow> nat \<times> app" where
  "state_poll_round L B E a =
     (let next = STATE_POLL_INTERVAL_SEC
      in if nuki_app_is_paired a then
           let (r, a) = nuki_app_get_state L B E a
           in case r of
                Inr state \<Rightarrow>
                  (next, a\<lparr>g_cached_state := state, g_cache_valid := True, g_cache_uptime_ms := uptime E,
                           g_state_poll_retries := 0\<rparr>)
              | Inl err \<Rightarrow>
                  if g_state_poll_retries a < STATE_POLL_MAX_RETRIES
                  then (STATE_POLL_RETRY_SEC, a\<lparr>g_state_poll_retries := g_state_poll_retries a + 1\<rparr>)
                  else (next, a\<lparr>g_state_poll_retries := 0\<rparr>)
         else (next, a))"

text \<open>
  The thread over a list of iterations; before each, the other threads act on the state. The result
  lists the seconds slept after each iteration.
\<close>

fun state_poll_thread_fn ::
    "bt_lib \<Rightarrow> byteorder \<Rightarrow> ((app \<Rightarrow> app) \<times> env) list \<Rightarrow> app \<Rightarrow> nat list \<times> app" where
  "state_poll_thread_fn L B [] a = ([], a)"
| "state_poll_thread_fn L B ((others, E) # rounds) a =
     (let (next, a) = state_poll_round L B E (others a);
          (sleeps, a) = state_poll_thread_fn L B rounds a
      in (next # sleeps, a))"

text \<open>\<open>nuki_app_init\<close> initialises the kernel objects; the other variables keep their static initial value, zero.\<close>

definition keyturner_zero :: nuki_keyturner_state where
  "keyturner_zero = \<lparr>nuki_state = 0, lock_state = 0, trigger = 0, year = 0, month = 0, day = 0, hour = 0,
     minute = 0, second = 0, timezone_offset_min = 0, critical_battery = False, battery_percent = 0,
     door_sensor_state = 0\<rparr>"

definition transport_zero :: nuki_transport where
  "transport_zero = \<lparr>t_conn = None, t_value_handle = 0, t_ccc_handle = 0, rx_buf = replicate NUKI_WIRE_MAX_LEN 0,
     rx_len = 0, write_err = 0\<rparr>"

definition app_boot :: "storage \<Rightarrow> app" where
  "app_boot st =
     \<lparr>g_state_poll_retries = 0, g_cached_state = keyturner_zero, g_cache_valid = False, g_cache_uptime_ms = 0,
      g_conn = None, g_gdio = transport_zero, g_usdio = transport_zero, g_gdio_ready = False,
      g_usdio_ready = False, g_need_gdio = False, g_ready_sem = 0, g_connect_err = 0, g_connecting = False,
      g_disconnected_sem = 0, g_scan_timeout_work = False, g_op_lock = False, g_storage = st, conn_refs = 0,
      bt_log = [], air = [], waited = 0\<rparr>"

definition nuki_app_init :: "app \<Rightarrow> int \<times> app" where
  "nuki_app_init a =
     (0, a\<lparr>g_ready_sem := 0, g_disconnected_sem := 0, g_op_lock := False, g_scan_timeout_work := False\<rparr>)"

end
