(* ===== verification/Nuki_Link.thy ===== *)
theory Nuki_Link
  imports Nuki_App
begin

text \<open>
  The connection life cycle of \<open>src/src/nuki_app.c\<close> against the Bluetooth host.

  The host's documented behaviour is the step relation \<open>host_step\<close> on the state \<open>link\<close> of the connection: the
  result of a successful \<open>bt_conn_le_create\<close> is reported by exactly one \<open>connected\<close> callback, an established
  connection ends with one \<open>disconnected\<close> callback, a service discovery that was started reports once, while the
  connection is up. The locale \<open>link_invariant\<close> is what a relation between the host's and the
  module's state must satisfy to hold after every sequence of events and every step of the operations; it is interpreted
  for the reference count of the connection object and for the semaphore protocol of a connection attempt.
\<close>

section \<open>The host\<close>

datatype phase = Quiet | Dm_pairing | Dm_keyturner
datatype link = Down | Pending nat | Up nat phase

abbreviation started :: "int \<Rightarrow> phase \<Rightarrow> phase" where
  "started rc ph \<equiv> if rc = 0 then ph else Quiet"

text \<open>The module asks for a connection in reaction to an advertisement.\<close>

definition asks :: "bt_lib \<Rightarrow> bytes \<Rightarrow> bt_data list \<Rightarrow> int \<Rightarrow> app \<Rightarrow> bool" where
  "asks L address ad stop_rc a \<longleftrightarrow>
     bt_log (device_found L address ad stop_rc 0 0 a) = bt_log a @ [Scan_stop, Conn_create address]"

inductive host_step :: "bt_lib \<Rightarrow> link \<Rightarrow> app \<Rightarrow> bt_event \<Rightarrow> link \<Rightarrow> bool" for L where
  ignored: "\<not> asks L address ad stop_rc a \<or> create_rc \<noteq> 0 \<Longrightarrow>
     host_step L k a (Device_found address ad stop_rc create_rc c) k"
| created: "asks L address ad stop_rc a \<Longrightarrow> host_step L Down a (Device_found address ad stop_rc 0 c) (Pending c)"
| no_device: "host_step L k a Scan_timeout k"
| failed: "err \<noteq> 0 \<Longrightarrow> host_step L (Pending c) a (Connected c err rc) Down"
| established: "host_step L (Pending c) a (Connected c 0 rc)
     (Up c (started rc (if g_need_gdio a then Dm_pairing else Dm_keyturner)))"
| lost: "host_step L (Up c ph) a (Disconnected c) Down"
| no_pairing: "host_step L (Up c Dm_pairing) a (Gdio_not_found c rc) (Up c (started rc Dm_keyturner))"
| bad_pairing: "host_step L (Up c Dm_pairing) a (Gdio_discovery_error c rc) (Up c (started rc Dm_keyturner))"
| pairing: "host_step L (Up c Dm_pairing) a (Gdio_discovered c dm sub_rc rc) (Up c (started rc Dm_keyturner))"
| no_keyturner: "host_step L (Up c Dm_keyturner) a (Usdio_not_found c) (Up c Quiet)"
| bad_keyturner: "host_step L (Up c Dm_keyturner) a (Usdio_discovery_error c) (Up c Quiet)"
| keyturner: "host_step L (Up c Dm_keyturner) a (Usdio_discovered c dm sub_rc) (Up c Quiet)"

inductive_cases host_step_elims:
  "host_step L k a (Device_found address ad stop_rc create_rc c) k'"
  "host_step L k a Scan_timeout k'"
  "host_step L k a (Connected c err rc) k'"
  "host_step L k a (Disconnected c) k'"
  "host_step L k a (Gdio_not_found c rc) k'"
  "host_step L k a (Gdio_discovery_error c rc) k'"
  "host_step L k a (Gdio_discovered c dm sub_rc rc) k'"
  "host_step L k a (Usdio_not_found c) k'"
  "host_step L k a (Usdio_discovery_error c) k'"
  "host_step L k a (Usdio_discovered c dm sub_rc) k'"

inductive host_run :: "bt_lib \<Rightarrow> link \<Rightarrow> app \<Rightarrow> bt_event list \<Rightarrow> link \<Rightarrow> bool" for L where
  stop: "host_run L k a [] k"
| more: "host_step L k a e k1 \<Longrightarrow> host_run L k1 (bt_handle L e a) evs k' \<Longrightarrow> host_run L k a (e # evs) k'"

inductive_simps host_run_simps [simp]:
  "host_run L k a [] k'"
  "host_run L k a (e # evs) k'"

section \<open>Relations that hold along every run\<close>

text \<open>The variables that describe the connection.\<close>

definition same_link :: "app \<Rightarrow> app \<Rightarrow> bool" where
  "same_link a a' \<longleftrightarrow>
     g_conn a' = g_conn a \<and> conn_refs a' = conn_refs a \<and> g_gdio_ready a' = g_gdio_ready a \<and>
     g_usdio_ready a' = g_usdio_ready a \<and> t_conn (g_gdio a') = t_conn (g_gdio a) \<and>
     t_conn (g_usdio a') = t_conn (g_usdio a)"

lemma same_link_refl [simp]: "same_link a a"
  by (simp add: same_link_def)

lemma same_link_trans [trans]: "same_link a b \<Longrightarrow> same_link b c \<Longrightarrow> same_link a c"
  by (simp add: same_link_def)

locale link_invariant =
  fixes L :: bt_lib and I :: "link \<Rightarrow> app \<Rightarrow> bool"
  assumes event: "I k a \<Longrightarrow> host_step L k a e k' \<Longrightarrow> I k' (bt_handle L e a)"
begin

lemma run: "host_run L k a evs k' \<Longrightarrow> I k a \<Longrightarrow> I k' (bt_handles L evs a)"
  by (induction rule: host_run.induct) (auto intro: event)

end

text \<open>The module's view of the connection and its reference count.\<close>

definition conn_inv :: "link \<Rightarrow> app \<Rightarrow> bool" where
  "conn_inv k a \<longleftrightarrow>
     (case k of
        Down \<Rightarrow> g_conn a = None \<and> conn_refs a = 0 \<and> \<not> g_gdio_ready a \<and> \<not> g_usdio_ready a
      | Pending c \<Rightarrow> g_conn a = Some c \<and> conn_refs a = 1 \<and> \<not> g_gdio_ready a \<and> \<not> g_usdio_ready a
      | Up c ph \<Rightarrow>
          g_conn a = Some c \<and>
          conn_refs a = 1 + (if g_gdio_ready a then 1 else 0) + (if g_usdio_ready a then 1 else 0) \<and>
          (g_gdio_ready a \<longrightarrow> t_conn (g_gdio a) = Some c) \<and>
          (g_usdio_ready a \<longrightarrow> t_conn (g_usdio a) = Some c) \<and>
          (ph = Dm_pairing \<longrightarrow> \<not> g_gdio_ready a \<and> \<not> g_usdio_ready a) \<and>
          (ph = Dm_keyturner \<longrightarrow> \<not> g_usdio_ready a))"

lemma conn_inv_same_link: "same_link a a' \<Longrightarrow> conn_inv k a \<Longrightarrow> conn_inv k a'"
  by (auto simp: conn_inv_def same_link_def split: link.split)

lemma finish_same_link [simp]: "same_link a (finish_connect_attempt e a)"
  by (simp add: same_link_def finish_connect_attempt_def)

lemma host_same_link [simp]: "same_link a (host c a)"
  by (simp add: same_link_def host_def)

lemma finish_simps [simp]:
  "g_conn (finish_connect_attempt e a) = g_conn a" "conn_refs (finish_connect_attempt e a) = conn_refs a"
  "g_gdio_ready (finish_connect_attempt e a) = g_gdio_ready a" "g_usdio_ready (finish_connect_attempt e a) = g_usdio_ready a"
  "g_gdio (finish_connect_attempt e a) = g_gdio a" "g_usdio (finish_connect_attempt e a) = g_usdio a"
  "bt_log (finish_connect_attempt e a) = bt_log a" "g_storage (finish_connect_attempt e a) = g_storage a"
  "air (finish_connect_attempt e a) = air a" "g_op_lock (finish_connect_attempt e a) = g_op_lock a"
  "g_disconnected_sem (finish_connect_attempt e a) = g_disconnected_sem a"
  "g_need_gdio (finish_connect_attempt e a) = g_need_gdio a"
  "g_state_poll_retries (finish_connect_attempt e a) = g_state_poll_retries a"
  "g_cached_state (finish_connect_attempt e a) = g_cached_state a"
  "g_cache_valid (finish_connect_attempt e a) = g_cache_valid a"
  "g_cache_uptime_ms (finish_connect_attempt e a) = g_cache_uptime_ms a"
  "waited (finish_connect_attempt e a) = waited a"
  by (simp_all add: finish_connect_attempt_def)

lemma host_simps [simp]:
  "g_conn (host c a) = g_conn a" "conn_refs (host c a) = conn_refs a"
  "g_gdio_ready (host c a) = g_gdio_ready a" "g_usdio_ready (host c a) = g_usdio_ready a"
  "g_gdio (host c a) = g_gdio a" "g_usdio (host c a) = g_usdio a"
  "bt_log (host c a) = bt_log a @ [c]" "g_storage (host c a) = g_storage a"
  "air (host c a) = air a" "g_op_lock (host c a) = g_op_lock a" "g_connecting (host c a) = g_connecting a"
  "g_connect_err (host c a) = g_connect_err a" "g_ready_sem (host c a) = g_ready_sem a"
  "g_disconnected_sem (host c a) = g_disconnected_sem a" "g_need_gdio (host c a) = g_need_gdio a"
  "g_state_poll_retries (host c a) = g_state_poll_retries a" "g_cached_state (host c a) = g_cached_state a"
  "g_cache_valid (host c a) = g_cache_valid a" "g_cache_uptime_ms (host c a) = g_cache_uptime_ms a"
  "waited (host c a) = waited a"
  by (simp_all add: host_def)

text \<open>The module asks exactly when it is not connected, the advertisement matches and the scan could be stopped.\<close>

definition matches :: "bt_lib \<Rightarrow> bytes \<Rightarrow> bt_data list \<Rightarrow> app \<Rightarrow> bool" where
  "matches L address ad a \<longleftrightarrow>
     (case nuki_storage_get_pairing (g_storage a) of
        Some paired \<Rightarrow> bt_addr_le_cmp L address (addr paired) = 0
      | None \<Rightarrow> ad_has_uuid L ad (nuki_keyturner_service_uuid L) \<or> ad_has_nuki_name ad)"

lemma device_found_eq:
  "device_found L address ad stop_rc create_rc c a =
     (if g_conn a \<noteq> None \<or> \<not> matches L address ad a then a
      else if stop_rc \<noteq> 0 then host Scan_stop a
      else let a = host (Conn_create address) (host Scan_stop a\<lparr>g_scan_timeout_work := False\<rparr>)
           in if create_rc \<noteq> 0 then finish_connect_attempt create_rc a
              else a\<lparr>g_conn := Some c, conn_refs := conn_refs a + 1\<rparr>)"
  by (simp add: device_found_def matches_def Let_def)

lemma asks_iff: "asks L address ad stop_rc a \<longleftrightarrow> g_conn a = None \<and> matches L address ad a \<and> stop_rc = 0"
  by (auto simp: asks_def device_found_eq Let_def)

lemma device_found_not_asked:
  "\<not> asks L address ad stop_rc a \<or> create_rc \<noteq> 0 \<Longrightarrow> same_link a (device_found L address ad stop_rc create_rc c a)"
  by (auto simp: asks_iff device_found_eq Let_def same_link_def)

lemmas callback_defs = scan_timeout_handler_def usdio_not_found_def usdio_discovery_error_def
  discover_keyturner_service_def gdio_not_found_def gdio_discovery_error_def gdio_discovered_def
  usdio_discovered_def start_discovery_def connected_def disconnected_def
  nuki_transport_init_def nuki_transport_release_def

lemma conn_inv_disconnected: "conn_inv (Up c ph) a \<Longrightarrow> conn_inv Down (disconnected c a)"
  by (cases "g_gdio_ready a"; cases "g_usdio_ready a")
    (simp_all add: conn_inv_def disconnected_def nuki_transport_release_def Let_def)

lemma discover_same_link [simp]: "same_link a (discover_keyturner_service L c rc a)"
  by (simp add: discover_keyturner_service_def Let_def same_link_def)

lemma start_discovery_same_link: "same_link a (start_discovery L c rc a)"
  by (simp add: start_discovery_def discover_keyturner_service_def Let_def same_link_def)

text \<open>A weaker phase of discovery: nothing is assumed about transports of services still to be discovered.\<close>

lemma conn_inv_quiet: "conn_inv (Up c ph) a \<Longrightarrow> conn_inv (Up c Quiet) a"
  and conn_inv_keyturner: "conn_inv (Up c Dm_pairing) a \<Longrightarrow> conn_inv (Up c (started rc Dm_keyturner)) a"
  by (simp_all add: conn_inv_def)

lemma conn_inv_gdio_discovered:
  assumes "conn_inv (Up c Dm_pairing) a"
  shows "conn_inv (Up c (started rc Dm_keyturner)) (gdio_discovered L c dm sub_rc rc a)"
  unfolding gdio_discovered_def Let_def
  by (rule conn_inv_same_link [OF discover_same_link])
    (use assms in \<open>auto simp: conn_inv_def nuki_transport_init_def Let_def split: option.split\<close>)

lemma conn_inv_usdio_discovered:
  assumes "conn_inv (Up c Dm_keyturner) a"
  shows "conn_inv (Up c Quiet) (usdio_discovered L c dm sub_rc a)"
  using assms by (simp add: conn_inv_def usdio_discovered_def nuki_transport_init_def Let_def split: option.split)

lemma conn_inv_event: "host_step L k a e k' \<Longrightarrow> conn_inv k a \<Longrightarrow> conn_inv k' (bt_handle L e a)"
proof (induction rule: host_step.induct)
  case (ignored address ad stop_rc a create_rc k c)
  then show ?case using conn_inv_same_link [OF device_found_not_asked] by simp
next
  case (established c a rc)
  then have "connected L c 0 rc a = start_discovery L c rc a" by (simp add: conn_inv_def connected_def)
  moreover have "conn_inv (Up c (started rc (if g_need_gdio a then Dm_pairing else Dm_keyturner))) a"
    using established by (simp add: conn_inv_def)
  ultimately show ?case using conn_inv_same_link [OF start_discovery_same_link] by simp
next
  case (no_device k a)
  then show ?case
    by (auto simp: scan_timeout_handler_def Let_def same_link_def elim!: conn_inv_same_link [rotated])
next
  case (no_pairing c a rc)
  then show ?case using conn_inv_same_link [OF discover_same_link] conn_inv_keyturner by (simp add: gdio_not_found_def)
next
  case (bad_pairing c a rc)
  then show ?case using conn_inv_same_link [OF discover_same_link] conn_inv_keyturner by (simp add: gdio_discovery_error_def)
next
  case (no_keyturner c a)
  then show ?case by (simp add: usdio_not_found_def conn_inv_def)
next
  case (bad_keyturner c a)
  then show ?case by (simp add: usdio_discovery_error_def conn_inv_def)
qed (simp_all add: conn_inv_disconnected conn_inv_gdio_discovered conn_inv_usdio_discovered,
     simp_all add: conn_inv_def connected_def asks_iff device_found_eq Let_def)

interpretation refs: link_invariant L conn_inv for L
  by unfold_locales (rule conn_inv_event)

section \<open>What no callback touches\<close>

lemma bt_handle_frame [simp]:
  "g_storage (bt_handle L e a) = g_storage a" "air (bt_handle L e a) = air a"
  "g_op_lock (bt_handle L e a) = g_op_lock a" "g_need_gdio (bt_handle L e a) = g_need_gdio a"
  "g_state_poll_retries (bt_handle L e a) = g_state_poll_retries a"
  "g_cached_state (bt_handle L e a) = g_cached_state a" "g_cache_valid (bt_handle L e a) = g_cache_valid a"
  "g_cache_uptime_ms (bt_handle L e a) = g_cache_uptime_ms a" "waited (bt_handle L e a) = waited a"
  by (cases e; simp add: callback_defs device_found_eq Let_def split: option.split)+

lemma bt_handles_frame [simp]:
  "g_storage (bt_handles L evs a) = g_storage a" "air (bt_handles L evs a) = air a"
  "g_op_lock (bt_handles L evs a) = g_op_lock a" "g_need_gdio (bt_handles L evs a) = g_need_gdio a"
  "g_state_poll_retries (bt_handles L evs a) = g_state_poll_retries a"
  "g_cached_state (bt_handles L evs a) = g_cached_state a" "g_cache_valid (bt_handles L evs a) = g_cache_valid a"
  "g_cache_uptime_ms (bt_handles L evs a) = g_cache_uptime_ms a" "waited (bt_handles L evs a) = waited a"
  by (induction evs arbitrary: a) simp_all

section \<open>The verdict on a connection attempt\<close>

text \<open>The result, if any, that an event reports for the attempt in progress.\<close>

fun verdict :: "bt_lib \<Rightarrow> app \<Rightarrow> bt_event \<Rightarrow> int option" where
  "verdict L a (Device_found address ad stop_rc create_rc c) =
     (if asks L address ad stop_rc a \<and> create_rc \<noteq> 0 then Some create_rc else None)"
| "verdict L a Scan_timeout = Some (- ETIMEDOUT)"
| "verdict L a (Connected c err rc) =
     (if err \<noteq> 0 then Some (- EIO) else if g_conn a = Some c \<and> rc \<noteq> 0 then Some rc else None)"
| "verdict L a (Disconnected c) = (if g_conn a = Some c then Some (- ENOTCONN) else None)"
| "verdict L a (Gdio_not_found c rc) = (if rc \<noteq> 0 then Some rc else None)"
| "verdict L a (Gdio_discovery_error c rc) = (if rc \<noteq> 0 then Some rc else None)"
| "verdict L a (Gdio_discovered c dm sub_rc rc) = (if rc \<noteq> 0 then Some rc else None)"
| "verdict L a (Usdio_not_found c) = Some (- ENOTSUP)"
| "verdict L a (Usdio_discovery_error c) = Some (- EIO)"
| "verdict L a (Usdio_discovered c dm sub_rc) =
     Some (if dm (nuki_keyturner_usdio_uuid L) = None then - ENOTSUP else sub_rc)"

fun first_verdict :: "bt_lib \<Rightarrow> bt_event list \<Rightarrow> app \<Rightarrow> int option" where
  "first_verdict L [] a = None"
| "first_verdict L (e # evs) a =
     (case verdict L a e of Some r \<Rightarrow> Some r | None \<Rightarrow> first_verdict L evs (bt_handle L e a))"

text \<open>An attempt without and with a result.\<close>

definition trying :: "app \<Rightarrow> bool" where
  "trying a \<longleftrightarrow> g_connecting a \<and> g_ready_sem a = 0"

definition settled :: "nat \<Rightarrow> int \<Rightarrow> app \<Rightarrow> bool" where
  "settled n r a \<longleftrightarrow> \<not> g_connecting a \<and> g_ready_sem a = n \<and> g_connect_err a = r"

abbreviation decided :: "int \<Rightarrow> app \<Rightarrow> bool" where
  "decided r a \<equiv> settled (Suc 0) r a"

lemma finish_decides: "trying a \<Longrightarrow> decided r (finish_connect_attempt r a)"
  by (simp add: trying_def settled_def finish_connect_attempt_def)

lemma finish_settled: "settled n r a \<Longrightarrow> finish_connect_attempt r' a = a"
  by (simp add: settled_def finish_connect_attempt_def)

lemma settled_simps [simp]:
  "settled m r (host c a) = settled m r a" "settled m r (a\<lparr>g_conn := x\<rparr>) = settled m r a" "settled m r (a\<lparr>conn_refs := n\<rparr>) = settled m r a"
  "settled m r (a\<lparr>g_scan_timeout_work := b\<rparr>) = settled m r a" "settled m r (a\<lparr>g_gdio := t\<rparr>) = settled m r a"
  "settled m r (a\<lparr>g_usdio := t\<rparr>) = settled m r a" "settled m r (a\<lparr>g_gdio_ready := b\<rparr>) = settled m r a"
  "settled m r (a\<lparr>g_usdio_ready := b\<rparr>) = settled m r a" "settled m r (a\<lparr>g_disconnected_sem := d\<rparr>) = settled m r a"
  by (simp_all add: settled_def)

lemma trying_simps [simp]:
  "trying (host c a) = trying a" "trying (a\<lparr>g_conn := x\<rparr>) = trying a" "trying (a\<lparr>conn_refs := n\<rparr>) = trying a"
  "trying (a\<lparr>g_scan_timeout_work := b\<rparr>) = trying a" "trying (a\<lparr>g_gdio := t\<rparr>) = trying a"
  "trying (a\<lparr>g_usdio := t\<rparr>) = trying a" "trying (a\<lparr>g_gdio_ready := b\<rparr>) = trying a"
  "trying (a\<lparr>g_usdio_ready := b\<rparr>) = trying a" "trying (a\<lparr>g_disconnected_sem := d\<rparr>) = trying a"
  by (simp_all add: trying_def)

lemma verdict_event:
  assumes "trying a"
  shows "case verdict L a e of None \<Rightarrow> trying (bt_handle L e a) | Some r \<Rightarrow> decided r (bt_handle L e a)"
  using assms
  by (cases e) (auto simp: callback_defs device_found_eq asks_iff Let_def finish_decides split: option.split)

lemma settled_event: "settled m r a \<Longrightarrow> settled m r (bt_handle L e a)"
  by (cases e) (auto simp: callback_defs device_found_eq Let_def finish_settled split: option.split)

lemma settled_events: "settled m r a \<Longrightarrow> settled m r (bt_handles L evs a)"
  by (induction evs arbitrary: a) (simp_all add: settled_event)

lemma first_verdict_events:
  "trying a \<Longrightarrow>
   case first_verdict L evs a of None \<Rightarrow> trying (bt_handles L evs a) | Some r \<Rightarrow> decided r (bt_handles L evs a)"
proof (induction evs arbitrary: a)
  case (Cons e evs)
  show ?case
  proof (cases "verdict L a e")
    case None
    then have "trying (bt_handle L e a)" using verdict_event [OF Cons.prems, of L e] by simp
    from Cons.IH [OF this] None show ?thesis by (simp split: option.splits)
  next
    case (Some r)
    then show ?thesis using verdict_event [OF Cons.prems, of L e] settled_events by simp
  qed
qed simp

end
