(* ===== verification/Nuki_Session.thy ===== *)
theory Nuki_Session
  imports Nuki_Link
begin

text \<open>
  What the operations of \<open>src/src/nuki_app.c\<close> do as a whole: from the request to the released connection.
\<close>

section \<open>Connecting and disconnecting\<close>

text \<open>The states in which the events of a connection attempt and of a disconnection start to happen.\<close>

definition attempt :: "bool \<Rightarrow> app \<Rightarrow> app" where
  "attempt need_gdio a =
     host Scan_start (a\<lparr>g_ready_sem := 0, g_connect_err := 0, g_need_gdio := need_gdio, g_connecting := True\<rparr>)
       \<lparr>g_scan_timeout_work := True, waited := waited a + CONNECT_TIMEOUT\<rparr>"

definition disconnecting :: "app \<Rightarrow> app" where
  "disconnecting a = host (Disconnect (the (g_conn a))) (a\<lparr>g_disconnected_sem := 0, waited := waited a + DISCONNECT_TIMEOUT\<rparr>)"

lemma attempt_trying [simp]: "trying (attempt need a)"
  by (simp add: attempt_def trying_def)

lemma attempt_simps [simp]:
  "g_storage (attempt need a) = g_storage a" "air (attempt need a) = air a" "g_conn (attempt need a) = g_conn a"
  "g_op_lock (attempt need a) = g_op_lock a" "g_need_gdio (attempt need a) = need"
  "g_state_poll_retries (attempt need a) = g_state_poll_retries a" "g_cached_state (attempt need a) = g_cached_state a"
  "g_cache_valid (attempt need a) = g_cache_valid a" "g_cache_uptime_ms (attempt need a) = g_cache_uptime_ms a"
  "bt_log (attempt need a) = bt_log a @ [Scan_start]" "conn_refs (attempt need a) = conn_refs a"
  "g_gdio (attempt need a) = g_gdio a" "g_usdio (attempt need a) = g_usdio a"
  "g_gdio_ready (attempt need a) = g_gdio_ready a" "g_usdio_ready (attempt need a) = g_usdio_ready a"
  "waited (attempt need a) = waited a + CONNECT_TIMEOUT"
  by (simp_all add: attempt_def)

text \<open>The three ways in which the attempt ends.\<close>

lemma connect_to_lock_cases:
  obtains (no_scan) "scan_rc E \<noteq> 0"
      "connect_to_lock L need E a = (scan_rc E, (attempt need a)\<lparr>g_scan_timeout_work := g_scan_timeout_work a, waited := waited a\<rparr>)"
  | (verdict) r where "scan_rc E = 0" "first_verdict L (connect_events E) (attempt need a) = Some r"
      "decided r (bt_handles L (connect_events E) (attempt need a))"
      "connect_to_lock L need E a = (r, (bt_handles L (connect_events E) (attempt need a))\<lparr>g_ready_sem := 0\<rparr>)"
  | (timeout) "scan_rc E = 0" "first_verdict L (connect_events E) (attempt need a) = None"
      "trying (bt_handles L (connect_events E) (attempt need a))"
      "connect_to_lock L need E a =
         (- ETIMEDOUT, let a = host Scan_stop ((bt_handles L (connect_events E) (attempt need a))\<lparr>g_connecting := False\<rparr>)
                       in case g_conn a of Some c \<Rightarrow> host (Disconnect c) a | None \<Rightarrow> a)"
proof (cases "scan_rc E = 0")
  case False
  then show ?thesis by (intro no_scan) (simp_all add: connect_to_lock_def attempt_def host_def Let_def)
next
  case True
  let ?a = "bt_handles L (connect_events E) (attempt need a)"
  have eq: "connect_to_lock L need E a =
    (if g_ready_sem ?a = 0
     then (- ETIMEDOUT, let a = host Scan_stop (?a\<lparr>g_connecting := False\<rparr>)
                        in case g_conn a of Some c \<Rightarrow> host (Disconnect c) a | None \<Rightarrow> a)
     else (g_connect_err ?a, ?a\<lparr>g_ready_sem := 0\<rparr>))"
    using True by (simp add: connect_to_lock_def attempt_def Let_def)
  show ?thesis
  proof (cases "first_verdict L (connect_events E) (attempt need a)")
    case None
    then have "trying ?a" using first_verdict_events [OF attempt_trying, of L "connect_events E" need a] by simp
    then show ?thesis using True None eq by (intro timeout) (simp_all add: trying_def)
  next
    case (Some r)
    then have "decided r ?a" using first_verdict_events [OF attempt_trying, of L "connect_events E" need a] by simp
    then show ?thesis using True Some eq by (intro verdict) (simp_all add: settled_def)
  qed
qed

lemma connect_same_link:
  "if scan_rc E \<noteq> 0 then same_link a (snd (connect_to_lock L need E a))
   else same_link (bt_handles L (connect_events E) (attempt need a)) (snd (connect_to_lock L need E a))"
  by (cases rule: connect_to_lock_cases [of E L need a])
    (simp_all add: same_link_def Let_def split: option.split)

lemma attempt_same_link: "same_link a (attempt need a)"
  by (simp add: same_link_def)

lemma connect_conn_inv:
  assumes "conn_inv k a"
    and "if scan_rc E \<noteq> 0 then k' = k else host_run L k (attempt need a) (connect_events E) k'"
  shows "conn_inv k' (snd (connect_to_lock L need E a))"
  using assms connect_same_link [of E a L need] refs.run [of L k "attempt need a" "connect_events E" k']
    conn_inv_same_link [OF attempt_same_link assms(1), of need] conn_inv_same_link
  by (auto split: if_splits)

lemma disconnect_conn_inv:
  assumes "conn_inv k a"
    and "if g_conn a = None then k' = k else host_run L k (disconnecting a) (disconnect_events E) k'"
  shows "conn_inv k' (disconnect_from_lock L E a)"
proof (cases "g_conn a")
  case None
  then show ?thesis using assms by (simp add: disconnect_from_lock_def)
next
  case (Some c)
  let ?a = "bt_handles L (disconnect_events E) (disconnecting a)"
  have "conn_inv k (disconnecting a)"
    by (rule conn_inv_same_link [OF _ assms(1)]) (simp add: disconnecting_def same_link_def)
  then have "conn_inv k' ?a" using assms(2) Some refs.run by simp
  moreover have "disconnect_from_lock L E a = ?a\<lparr>g_disconnected_sem := 0\<rparr>"
    using Some by (simp add: disconnect_from_lock_def disconnecting_def Let_def)
  ultimately show ?thesis by (auto intro: conn_inv_same_link [rotated] simp: same_link_def)
qed

lemma usdio_conn_inv:
  assumes "conn_inv k a" "t_conn (tr s) = t_conn (g_usdio a)"
    and "host_run L k (a\<lparr>g_usdio := tr s, air := air a @ sent s, waited := waited a + blocked s\<rparr>) (op_events E) k'"
  shows "conn_inv k' (usdio_session L E s a)"
  unfolding usdio_session_def
  by (rule refs.run [OF assms(3)], rule conn_inv_same_link [OF _ assms(1)]) (use assms(2) in \<open>simp add: same_link_def\<close>)

lemma gdio_conn_inv:
  assumes "conn_inv k a" "t_conn (tr s) = t_conn (g_gdio a)"
    and "host_run L k (a\<lparr>g_gdio := tr s, air := air a @ sent s, waited := waited a + blocked s\<rparr>) (op_events E) k'"
  shows "conn_inv k' (gdio_session L E s a)"
  unfolding gdio_session_def
  by (rule refs.run [OF assms(3)], rule conn_inv_same_link [OF _ assms(1)]) (use assms(2) in \<open>simp add: same_link_def\<close>)

section \<open>Transports\<close>

lemma init_fields:
  "nuki_transport_init c vh ccc rc refs = (e, t, n) \<Longrightarrow> tr_ok t \<and> rx_len t = 0"
  by (auto simp: nuki_transport_init_def tr_ok_def Let_def split: if_splits)

lemma release_fields:
  "nuki_transport_release t refs = (t', n) \<Longrightarrow> tr_ok t' = tr_ok t \<and> rx_len t' = rx_len t"
  by (auto simp: nuki_transport_release_def tr_ok_def split: if_splits)

text \<open>A transport that a callback leaves is as it was, released, or new.\<close>

lemma bt_handle_transports:
  "tr_ok (g_gdio a) \<Longrightarrow> tr_ok (g_gdio (bt_handle L e a))"
  "tr_ok (g_usdio a) \<Longrightarrow> tr_ok (g_usdio (bt_handle L e a))"
  "rx_len (g_usdio a) = 0 \<Longrightarrow> rx_len (g_usdio (bt_handle L e a)) = 0"
  by (cases e; auto simp: scan_timeout_handler_def usdio_not_found_def usdio_discovery_error_def
      discover_keyturner_service_def gdio_not_found_def gdio_discovery_error_def gdio_discovered_def
      usdio_discovered_def start_discovery_def connected_def disconnected_def device_found_eq Let_def
      dest: init_fields release_fields split: option.split prod.split)+

lemma bt_handles_transports:
  "tr_ok (g_gdio a) \<Longrightarrow> tr_ok (g_gdio (bt_handles L evs a))"
  "tr_ok (g_usdio a) \<Longrightarrow> tr_ok (g_usdio (bt_handles L evs a))"
  "rx_len (g_usdio a) = 0 \<Longrightarrow> rx_len (g_usdio (bt_handles L evs a)) = 0"
  by (induction evs arbitrary: a) (simp_all add: bt_handle_transports)

text \<open>An attempt that succeeds ends with a newly initialised transport.\<close>

lemma verdict_success:
  assumes "verdict L a e = Some 0"
  shows "rx_len (g_usdio (bt_handle L e a)) = 0"
  using assms
  by (cases e) (auto simp: usdio_discovered_def nuki_transport_init_def Let_def split: if_splits)

lemma first_verdict_success:
  "first_verdict L evs a = Some 0 \<Longrightarrow> rx_len (g_usdio (bt_handles L evs a)) = 0"
proof (induction evs arbitrary: a)
  case (Cons e evs)
  then show ?case
    using verdict_success [of L a e] bt_handles_transports(3)
    by (cases "verdict L a e") auto
qed simp

lemma connect_success:
  assumes "connect_to_lock L need E a = (0, a')" "tr_ok (g_usdio a)"
  shows "tr_ok (g_usdio a') \<and> rx_len (g_usdio a') = 0"
proof (cases rule: connect_to_lock_cases [of E L need a])
  case (verdict r)
  then show ?thesis
    using assms first_verdict_success [of L "connect_events E" "attempt need a"]
      bt_handles_transports(2) [of "attempt need a" L "connect_events E"] by auto
qed (use assms in simp_all)

section \<open>What connecting and disconnecting leave alone\<close>

text \<open>The state after connecting is the one after the events, up to variables of the attempt.\<close>

lemma connect_state:
  assumes "connect_to_lock L need E a = (r, a')"
  obtains evs where "g_storage a' = g_storage (bt_handles L evs (attempt need a))"
    "air a' = air (bt_handles L evs (attempt need a))" "g_op_lock a' = g_op_lock (bt_handles L evs (attempt need a))"
    "cache.truncate a' = cache.truncate (bt_handles L evs (attempt need a))"
    "g_gdio a' = g_gdio (bt_handles L evs (attempt need a))" "g_usdio a' = g_usdio (bt_handles L evs (attempt need a))"
proof (cases rule: connect_to_lock_cases [of E L need a])
  case no_scan
  then show ?thesis using assms by (intro that [of "[]"]) (auto simp: cache.defs)
next
  case (verdict r)
  then show ?thesis using assms by (intro that [of "connect_events E"]) (auto simp: cache.defs)
next
  case timeout
  let ?a = "host Scan_stop ((bt_handles L (connect_events E) (attempt need a))\<lparr>g_connecting := False\<rparr>)"
  have "a' = (case g_conn ?a of Some c \<Rightarrow> host (Disconnect c) ?a | None \<Rightarrow> ?a)"
    using timeout(4) assms by (simp add: Let_def)
  then show ?thesis by (intro that [of "connect_events E"]) (simp_all add: cache.defs split: option.split)
qed

lemma connect_frame:
  assumes "connect_to_lock L need E a = (r, a')"
  shows "g_storage a' = g_storage a" "air a' = air a" "g_op_lock a' = g_op_lock a"
    "g_state_poll_retries a' = g_state_poll_retries a" "g_cached_state a' = g_cached_state a"
    "g_cache_valid a' = g_cache_valid a" "g_cache_uptime_ms a' = g_cache_uptime_ms a"
  by (rule connect_state [OF assms]; simp add: cache.defs)+

lemma connect_transports:
  assumes "connect_to_lock L need E a = (r, a')"
  shows "tr_ok (g_gdio a) \<Longrightarrow> tr_ok (g_gdio a')" "tr_ok (g_usdio a) \<Longrightarrow> tr_ok (g_usdio a')"
  using connect_state [OF assms] bt_handles_transports(1,2) [of "attempt need a"] by (metis attempt_simps(12,13))+

lemma disconnect_frame [simp]:
  "g_storage (disconnect_from_lock L E a) = g_storage a" "air (disconnect_from_lock L E a) = air a"
  "g_op_lock (disconnect_from_lock L E a) = g_op_lock a"
  "g_state_poll_retries (disconnect_from_lock L E a) = g_state_poll_retries a"
  "g_cached_state (disconnect_from_lock L E a) = g_cached_state a"
  "g_cache_valid (disconnect_from_lock L E a) = g_cache_valid a"
  "g_cache_uptime_ms (disconnect_from_lock L E a) = g_cache_uptime_ms a"
  by (simp_all add: disconnect_from_lock_def Let_def split: option.split)

lemma disconnect_transports:
  "tr_ok (g_gdio a) \<Longrightarrow> tr_ok (g_gdio (disconnect_from_lock L E a))"
  "tr_ok (g_usdio a) \<Longrightarrow> tr_ok (g_usdio (disconnect_from_lock L E a))"
  by (auto simp: disconnect_from_lock_def Let_def intro: bt_handles_transports split: option.split)

lemma usdio_session_frame [simp]:
  "g_storage (usdio_session L E s a) = g_storage a" "air (usdio_session L E s a) = air a @ sent s"
  "g_op_lock (usdio_session L E s a) = g_op_lock a"
  "g_state_poll_retries (usdio_session L E s a) = g_state_poll_retries a"
  "g_cached_state (usdio_session L E s a) = g_cached_state a"
  "g_cache_valid (usdio_session L E s a) = g_cache_valid a"
  "g_cache_uptime_ms (usdio_session L E s a) = g_cache_uptime_ms a"
  by (simp_all add: usdio_session_def)

lemma gdio_session_frame [simp]:
  "g_storage (gdio_session L E s a) = g_storage a" "air (gdio_session L E s a) = air a @ sent s"
  "g_op_lock (gdio_session L E s a) = g_op_lock a"
  "g_state_poll_retries (gdio_session L E s a) = g_state_poll_retries a"
  "g_cached_state (gdio_session L E s a) = g_cached_state a"
  "g_cache_valid (gdio_session L E s a) = g_cache_valid a"
  "g_cache_uptime_ms (gdio_session L E s a) = g_cache_uptime_ms a"
  by (simp_all add: gdio_session_def)

section \<open>The shape of an operation\<close>

lemma get_state_locked_cases:
  assumes "nuki_storage_get_pairing (g_storage a) = Some p" "get_state_locked L B E a = (r, a')"
  obtains (refused) e where "e \<noteq> 0" "r = Inl e" "connect_to_lock L False E a = (e, a')"
  | (served) a1 s where "connect_to_lock L False E a = (0, a1)"
      "nuki_command_get_state B (auth_id p) (shared_key p) (session_io E (g_usdio a1)) = (r, s)"
      "a' = disconnect_from_lock L E (usdio_session L E s a1)"
  using assms by (auto simp: get_state_locked_def Let_def split: prod.splits if_splits)

lemma calibrate_locked_cases:
  assumes "nuki_storage_get_pairing (g_storage a) = Some p" "calibrate_locked L B pin E a = (rc, a')"
  obtains (refused) "rc \<noteq> 0" "connect_to_lock L False E a = (rc, a')"
  | (served) a1 s where "connect_to_lock L False E a = (0, a1)"
      "nuki_command_calibrate B (auth_id p) (shared_key p) pin (session_io E (g_usdio a1)) = (rc, s)"
      "a' = disconnect_from_lock L E (usdio_session L E s a1)"
  using assms by (auto simp: calibrate_locked_def Let_def split: prod.splits if_splits)

text \<open>The cache after a lock action.\<close>

definition cache_action :: "int \<Rightarrow> nuki_keyturner_state option \<Rightarrow> int \<Rightarrow> app \<Rightarrow> app" where
  "cache_action rc cap now a =
     (case cap of
        Some st \<Rightarrow> if rc = 0 then a\<lparr>g_cached_state := st, g_cache_valid := True, g_cache_uptime_ms := now\<rparr> else a
      | None \<Rightarrow> a)"

lemma cache_action_frame [simp]:
  "g_storage (cache_action rc cap now a) = g_storage a" "air (cache_action rc cap now a) = air a"
  "g_gdio (cache_action rc cap now a) = g_gdio a" "g_usdio (cache_action rc cap now a) = g_usdio a"
  "g_state_poll_retries (cache_action rc cap now a) = g_state_poll_retries a"
  "g_conn (cache_action rc cap now a) = g_conn a" "conn_refs (cache_action rc cap now a) = conn_refs a"
  "g_gdio_ready (cache_action rc cap now a) = g_gdio_ready a" "g_usdio_ready (cache_action rc cap now a) = g_usdio_ready a"
  "g_op_lock (cache_action rc cap now a) = g_op_lock a" "bt_log (cache_action rc cap now a) = bt_log a"
  by (simp_all add: cache_action_def split: option.split)

lemma lock_action_locked_cases:
  assumes "nuki_storage_get_pairing (g_storage a) = Some p" "lock_action_locked L B action E a = (rc, a')"
  obtains (refused) "rc \<noteq> 0" "connect_to_lock L False E a = (rc, a')"
  | (served) a1 s cap where "connect_to_lock L False E a = (0, a1)"
      "nuki_command_lock_action B (auth_id p) (app_id p) (shared_key p) action True (session_io E (g_usdio a1)) = (rc, cap, s)"
      "a' = cache_action rc cap (uptime E) (disconnect_from_lock L E (usdio_session L E s a1))"
  using assms
  by (auto simp: lock_action_locked_def Let_def cache_action_def split: prod.splits if_splits option.splits)

lemma pair_locked_cases:
  assumes "pair_locked L B P S E (a, ps, flash) = (rc, a', ps', flash')"
  obtains (refused) "rc \<noteq> 0" "connect_to_lock L True E a = (rc, a')" "ps' = ps" "flash' = flash"
  | (unsupported) a1 where "connect_to_lock L True E a = (0, a1)" "rc = - ENOTSUP"
      "a' = disconnect_from_lock L E a1" "ps' = ps" "flash' = flash" "\<not> g_gdio_ready a1"
  | (failed) a1 s where "connect_to_lock L True E a = (0, a1)" "g_gdio_ready a1"
      "nuki_pairing_run B P (session_io E (g_gdio a1), ps) = (Inl rc, s, ps')"
      "a' = disconnect_from_lock L E (gdio_session L E s a1)" "flash' = flash"
  | (paired) a1 s d d' st where "connect_to_lock L True E a = (0, a1)" "g_gdio_ready a1"
      "nuki_pairing_run B P (session_io E (g_gdio a1), ps) = (Inr d, s, ps')"
      "d' = d\<lparr>addr := bt_conn_get_dst L (g_conn (gdio_session L E s a1))\<rparr>"
      "nuki_storage_save_pairing S d' (g_storage a) flash = (rc, st, flash')"
      "a' = disconnect_from_lock L E (gdio_session L E s a1\<lparr>g_storage := st\<rparr>)"
proof -
  obtain e a1 where c: "connect_to_lock L True E a = (e, a1)" by fastforce
  obtain r s p1 where m: "nuki_pairing_run B P (session_io E (g_gdio a1), ps) = (r, s, p1)" by (metis prod_cases3)
  note sto = connect_frame(1) [OF c]
  consider "e \<noteq> 0" | "e = 0" "\<not> g_gdio_ready a1" | e' where "e = 0" "g_gdio_ready a1" "r = Inl e'"
    | d where "e = 0" "g_gdio_ready a1" "r = Inr d" by (cases r) auto
  then show thesis
  proof cases
    case 1
    then show thesis using assms c by (intro refused) (auto simp: pair_locked_def)
  next
    case 2
    then show thesis using assms c by (intro unsupported [of a1]) (auto simp: pair_locked_def)
  next
    case 3
    then show thesis using assms c m by (intro failed [of a1 s]) (auto simp: pair_locked_def Let_def)
  next
    case (4 d)
    obtain er st fl where sv: "nuki_storage_save_pairing S (d\<lparr>addr := bt_conn_get_dst L (g_conn (gdio_session L E s a1))\<rparr>)
        (g_storage a) flash = (er, st, fl)" by (metis prod_cases3)
    then show thesis
      using assms c m 4 sto by (intro paired [of a1 d s _ st]) (auto simp: pair_locked_def Let_def)
  qed
qed

section \<open>Well-formed states\<close>

definition storage_ok :: "storage \<Rightarrow> bool" where
  "storage_ok st \<longleftrightarrow> length (shared_key (pairing st)) = 32 \<and> length (lock_uuid (pairing st)) = 16"

definition app_ok :: "app \<Rightarrow> bool" where
  "app_ok a \<longleftrightarrow> tr_ok (g_gdio a) \<and> tr_ok (g_usdio a) \<and> storage_ok (g_storage a) \<and>
     g_state_poll_retries a \<le> STATE_POLL_MAX_RETRIES"

lemma app_ok_events: "app_ok a \<Longrightarrow> app_ok (bt_handles L evs a)"
  by (simp add: app_ok_def bt_handles_transports)

lemma app_ok_connect: "connect_to_lock L need E a = (r, a') \<Longrightarrow> app_ok a \<Longrightarrow> app_ok a'"
  by (simp add: app_ok_def connect_transports connect_frame)

lemma app_ok_disconnect: "app_ok a \<Longrightarrow> app_ok (disconnect_from_lock L E a)"
  by (simp add: app_ok_def disconnect_transports)

lemma app_ok_usdio:
  assumes "app_ok a" "same_conn (session_io E (g_usdio a)) s"
  shows "app_ok (usdio_session L E s a)"
  unfolding usdio_session_def
  by (rule app_ok_events) (use assms in \<open>simp add: app_ok_def same_conn_def session_io_def\<close>)

lemma app_ok_gdio:
  assumes "app_ok a" "same_conn (session_io E (g_gdio a)) s"
  shows "app_ok (gdio_session L E s a)"
  unfolding gdio_session_def
  by (rule app_ok_events) (use assms in \<open>simp add: app_ok_def same_conn_def session_io_def\<close>)

lemma app_ok_lock [simp]: "app_ok (a\<lparr>g_op_lock := b\<rparr>) = app_ok a"
  by (simp add: app_ok_def)

lemma app_ok_cache_action [simp]: "app_ok (cache_action rc cap now a) = app_ok a"
  by (simp add: app_ok_def)

lemma served_app_ok:
  assumes "app_ok a" "connect_to_lock L need E a = (0, a1)" "same_conn (session_io E (g_usdio a1)) s"
  shows "app_ok (disconnect_from_lock L E (usdio_session L E s a1))"
  using app_ok_disconnect [OF app_ok_usdio [OF app_ok_connect [OF assms(2,1)] assms(3)]] .

lemma get_state_locked_app_ok:
  assumes "app_ok a" "get_state_locked L B E a = (r, a')"
  shows "app_ok a'"
proof (cases "nuki_storage_get_pairing (g_storage a)")
  case (Some p)
  from Some assms(2) show ?thesis
    by (cases rule: get_state_locked_cases)
      (use assms(1) app_ok_connect served_app_ok conn_kept.get_state_rel in blast)+
qed (use assms in \<open>auto simp: get_state_locked_def\<close>)

lemma calibrate_locked_app_ok:
  assumes "app_ok a" "calibrate_locked L B pin E a = (rc, a')"
  shows "app_ok a'"
proof (cases "nuki_storage_get_pairing (g_storage a)")
  case (Some p)
  from Some assms(2) show ?thesis
    by (cases rule: calibrate_locked_cases)
      (use assms(1) app_ok_connect served_app_ok conn_kept.calibrate_rel in blast)+
qed (use assms in \<open>auto simp: calibrate_locked_def\<close>)

lemma lock_action_locked_app_ok:
  assumes "app_ok a" "lock_action_locked L B action E a = (rc, a')"
  shows "app_ok a'"
proof (cases "nuki_storage_get_pairing (g_storage a)")
  case (Some p)
  from Some assms(2) show ?thesis
  proof (cases rule: lock_action_locked_cases)
    case (served a1 s cap)
    then show ?thesis using served_app_ok [OF assms(1) served(1)] conn_kept.lock_action_rel by simp
  qed (use assms(1) app_ok_connect in blast)
qed (use assms in \<open>auto simp: lock_action_locked_def\<close>)

lemma pairing_run_lengths:
  assumes "nuki_pairing_run B P (s, ps) = (Inr d, s', ps')"
  shows "length (shared_key d) = 32 \<and> length (lock_uuid d) = 16"
  using assms
proof (rule pairing_steps)
  fix p1 s1 s2 sl_pub p2 cl_pub cl_priv s3 p3 dh s4 c1 p4 a1 s5 s6 c2 ab s7 nabf s8 p5 a2 s9 s10 aip p6 p7 a3 s11 st
  assume dh: "nuki_crypto_dh1 P cl_priv sl_pub p2 = (Inr dh, p3)"
    and r: "recv_plain B NUKI_CMD_AUTH_ID 84 s9 = (Inr aip, s10)"
    and d: "d = pairing_zero\<lparr>auth_id := sys_get_le32 B (drop 32 aip), app_id := of_nat (le_val ab),
              shared_key := nuki_crypto_kdf1 dh, lock_uuid := take 16 (drop 36 aip)\<rparr>"
  have "length aip = 84"
    using r by (auto simp: recv_plain_def Let_def split: prod.splits if_splits sum.splits)
  moreover have "length dh = 32"
    using dh by (auto simp: nuki_crypto_dh1_def Let_def split: prod.splits if_splits)
  ultimately show ?thesis using d by (simp add: nuki_crypto_kdf1_def core_hsalsa20_spec hsalsa20_spec_length)
qed

lemma psa_error_nonzero:
  shows "nuki_crypto_keypair P q \<noteq> (Inl 0, q')" "nuki_crypto_dh1 P x y q \<noteq> (Inl 0, q')" "nuki_crypto_h1 P x y q \<noteq> (Inl 0, q')"
proof -
  show "nuki_crypto_keypair P q \<noteq> (Inl 0, q')"
    by (simp add: nuki_crypto_keypair_def Let_def case_prod_beta)
  show "nuki_crypto_dh1 P x y q \<noteq> (Inl 0, q')"
    by (simp add: nuki_crypto_dh1_def Let_def case_prod_beta)
  show "nuki_crypto_h1 P x y q \<noteq> (Inl 0, q')"
    by (simp add: nuki_crypto_h1_def Let_def case_prod_beta)
qed

lemma recv_plain_error_nonzero: "recv_plain B c n q \<noteq> (Inl 0, q')"
proof -
  obtain e1 s1 where w1: "nuki_transport_wait_min 2 Nuki_Pairing.RECV_TIMEOUT q = (e1, s1)" by fastforce
  have parse: "nuki_frame_parse_plain B fr \<noteq> Inl 0" for fr
    by (simp add: nuki_frame_parse_plain_def Let_def)
  have "\<exists>fr. nuki_frame_parse_plain B fr = Inl 0" if "recv_plain B c n q = (Inl 0, q')"
    using that w1 by (auto simp: recv_plain_def Let_def split: prod.splits if_splits sum.splits)
  with parse show ?thesis by blast
qed

lemma pairing_error_nonzero: "nuki_pairing_run B P (s, ps) \<noteq> (Inl 0, s', ps')"
proof -
  let ?R = "\<lambda>_ _ :: io \<times> 'a. True"
  have t: "transp ?R" and rf: "reflp ?R" by (simp_all add: transp_def reflp_def)
  have io: "op_keeps ?R (- {0}) (on_fst m)" if "\<And>p p'. m p \<noteq> (Inl 0, p')" for m :: "(io, 'x) op"
    using that by (auto simp: op_keeps_def on_fst_def split: prod.splits)
  have ps: "op_keeps ?R (- {0}) (on_snd m)" if "\<And>p p'. m p \<noteq> (Inl 0, p')" for m :: "('a, 'x) op"
    using that by (auto simp: op_keeps_def on_snd_def split: prod.splits)
  have rc: "op_rc m q \<noteq> (Inl 0, q')" for m :: "'x \<Rightarrow> int \<times> 'x" and q q'
    by (auto simp: op_rc_def split: prod.splits if_splits)
  have get: "op_get m q \<noteq> (Inl 0, q')" for m :: "'x \<Rightarrow> 'y \<times> 'x" and q q'
    by (auto simp: op_get_def split: prod.splits)
  note steps = io [OF rc] io [OF get] io [OF recv_plain_error_nonzero] ps [OF rc] psa_error_nonzero [THEN ps]
  have z: "- EBADMSG \<in> - {0}" by simp
  have "op_keeps ?R (- {0}) (nuki_pairing_run B P)"
    unfolding pairing_run_defs Let_def
    by (intro op_keeps_bind [OF t] op_keeps_case_prod op_keeps_return [OF rf] op_keeps_guard [OF rf] steps z)
  from op_keepsD(2) [OF this, of "(s, ps)" 0 "(s', ps')"] show ?thesis by auto
qed

lemma pair_locked_app_ok:
  assumes "app_ok a" "pair_locked L B P S E (a, ps, flash) = (rc, a', ps', flash')"
  shows "app_ok a'"
  using assms(2)
proof (cases rule: pair_locked_cases)
  case refused
  show ?thesis using app_ok_connect [OF refused(2) assms(1)] .
next
  case (unsupported a1)
  show ?thesis unfolding unsupported(3) by (intro app_ok_disconnect app_ok_connect [OF unsupported(1) assms(1)])
next
  case (failed a1 s)
  show ?thesis
    unfolding failed(4)
    by (intro app_ok_disconnect app_ok_gdio app_ok_connect [OF failed(1) assms(1)] conn_kept.pairing_run_rel [OF failed(3)])
next
  case (paired a1 s d d' st)
  have "storage_ok st"
    using pairing_run_lengths [OF paired(3)] paired(4,5)
    by (auto simp: storage_ok_def nuki_storage_save_pairing_def Let_def split: prod.splits)
  moreover have "app_ok (gdio_session L E s a1)"
    by (intro app_ok_gdio app_ok_connect [OF paired(1) assms(1)] conn_kept.pairing_run_rel [OF paired(3)])
  ultimately show ?thesis
    unfolding paired(6) by (intro app_ok_disconnect) (simp add: app_ok_def)
qed

text \<open>The public operations take and release the mutex around the operations above.\<close>

lemma public_ops:
  "nuki_app_get_state L B E a = (r, a') \<Longrightarrow>
     \<exists>a1. get_state_locked L B E (a\<lparr>g_op_lock := True\<rparr>) = (r, a1) \<and> a' = a1\<lparr>g_op_lock := False\<rparr>"
  "nuki_app_lock_action L B action E a = (rc, a') \<Longrightarrow>
     \<exists>a1. lock_action_locked L B action E (a\<lparr>g_op_lock := True\<rparr>) = (rc, a1) \<and> a' = a1\<lparr>g_op_lock := False\<rparr>"
  "nuki_app_calibrate L B pin E a = (rc, a') \<Longrightarrow>
     \<exists>a1. calibrate_locked L B pin E (a\<lparr>g_op_lock := True\<rparr>) = (rc, a1) \<and> a' = a1\<lparr>g_op_lock := False\<rparr>"
  "nuki_app_pair L B P S E (a, ps, flash) = (rc, a', ps', flash') \<Longrightarrow>
     \<exists>a1. pair_locked L B P S E (a\<lparr>g_op_lock := True\<rparr>, ps, flash) = (rc, a1, ps', flash') \<and> a' = a1\<lparr>g_op_lock := False\<rparr>"
  by (auto simp: nuki_app_get_state_def nuki_app_lock_action_def nuki_app_calibrate_def nuki_app_pair_def Let_def
      split: prod.splits)

lemma public_ops_app_ok:
  assumes "app_ok a"
  shows "nuki_app_get_state L B E a = (r, a') \<Longrightarrow> app_ok a' \<and> \<not> g_op_lock a'"
    "nuki_app_lock_action L B action E a = (rc, a') \<Longrightarrow> app_ok a' \<and> \<not> g_op_lock a'"
    "nuki_app_calibrate L B pin E a = (rc, a') \<Longrightarrow> app_ok a' \<and> \<not> g_op_lock a'"
    "nuki_app_pair L B P S E (a, ps, flash) = (rc, a', ps', flash') \<Longrightarrow> app_ok a' \<and> \<not> g_op_lock a'"
proof -
  have ok: "app_ok (a\<lparr>g_op_lock := True\<rparr>)" using assms by simp
  show "nuki_app_get_state L B E a = (r, a') \<Longrightarrow> app_ok a' \<and> \<not> g_op_lock a'"
    using public_ops(1) get_state_locked_app_ok [OF ok] by fastforce
  show "nuki_app_lock_action L B action E a = (rc, a') \<Longrightarrow> app_ok a' \<and> \<not> g_op_lock a'"
    using public_ops(2) lock_action_locked_app_ok [OF ok] by fastforce
  show "nuki_app_calibrate L B pin E a = (rc, a') \<Longrightarrow> app_ok a' \<and> \<not> g_op_lock a'"
    using public_ops(3) calibrate_locked_app_ok [OF ok] by fastforce
  show "nuki_app_pair L B P S E (a, ps, flash) = (rc, a', ps', flash') \<Longrightarrow> app_ok a' \<and> \<not> g_op_lock a'"
    using public_ops(4) [of L B P S E a] pair_locked_app_ok [OF ok] by fastforce
qed

lemma retries_step: "r < (3 :: u8) \<Longrightarrow> r + 1 \<le> 3"
  by unat_arith

lemma poll_app_ok:
  assumes "app_ok a" "state_poll_round L B E a = (n, a')"
  shows "app_ok a'"
proof (cases "nuki_app_is_paired a")
  case True
  obtain r a1 where g: "nuki_app_get_state L B E a = (r, a1)" by fastforce
  have "app_ok a1" using public_ops_app_ok(1) [OF assms(1) g] by simp
  then show ?thesis
    using assms(2) True g
    by (auto simp: state_poll_round_def app_ok_def retries_step not_less split: sum.splits if_splits)
qed (use assms in \<open>simp add: state_poll_round_def\<close>)

lemma app_ok_boot: "storage_ok st \<Longrightarrow> app_ok (app_boot st)"
  by (simp add: app_ok_def app_boot_def transport_zero_def tr_ok_def)

section \<open>An example\<close>

text \<open>A paired bridge, and an operation during which the lock is found, connects and disconnects again.\<close>

definition demo_storage :: storage where
  "demo_storage =
     \<lparr>pairing = pairing_zero\<lparr>addr := replicate 7 1, auth_id := 7, app_id := 9, shared_key := replicate 32 1\<rparr>,
      have_pairing = True\<rparr>"

definition demo_env :: "bytes list \<Rightarrow> env" where
  "demo_env ws =
     \<lparr>scan_rc = 0,
      connect_events = [Device_found (replicate 7 2) [] 0 0 5, Device_found (replicate 7 1) [] 0 0 7, Connected 7 0 0,
                        Usdio_discovered 7 (\<lambda>_. Some (3, Some 4)) 0],
      lock_inbound = map (\<lambda>w. Burst [Some w]) ws,
      lock_writes = replicate 8 \<lparr>gatt_write_rc = 0, write_cb_err = Some 0, sem_take_rc = 0\<rparr>,
      lock_rand = of_nat, op_events = [], disconnect_events = [Disconnected 7], uptime = 1000\<rparr>"

lemma demo_storage_ok: "storage_ok demo_storage"
  by (simp add: storage_ok_def demo_storage_def pairing_zero_def)

lemma demo_asks:
  "g_storage a = demo_storage \<Longrightarrow>
   asks demo_lib address ad stop_rc a \<longleftrightarrow> g_conn a = None \<and> address = replicate 7 1 \<and> stop_rc = 0"
  by (auto simp: asks_iff matches_def nuki_storage_get_pairing_def demo_storage_def demo_lib_def)

lemma demo_connects:
  assumes "g_storage a = demo_storage" "g_conn a = None"
  shows "host_run demo_lib Down (attempt False a) (connect_events (demo_env ws)) (Up 7 Quiet)"
proof -
  let ?a = "attempt False a"
  let ?e1 = "Device_found (replicate 7 2) [] 0 0 5" and ?e2 = "Device_found (replicate 7 1) [] 0 0 7"
  have n: "replicate 7 (2 :: u8) \<noteq> replicate 7 1" by simp
  have "host_step demo_lib Down ?a ?e1 Down"
    using demo_asks [of ?a] assms n by (intro host_step.ignored) simp
  moreover have "host_step demo_lib Down (bt_handle demo_lib ?e1 ?a) ?e2 (Pending 7)"
  proof (rule host_step.created)
    have "bt_handle demo_lib ?e1 ?a = ?a"
      using assms n by (simp add: device_found_eq matches_def nuki_storage_get_pairing_def demo_storage_def demo_lib_def)
    then show "asks demo_lib (replicate 7 1) [] 0 (bt_handle demo_lib ?e1 ?a)"
      using demo_asks [of ?a] assms by simp
  qed
  moreover have "host_step demo_lib (Pending 7) b (Connected 7 0 0) (Up 7 Dm_keyturner)" if "\<not> g_need_gdio b" for b
    using host_step.established [of demo_lib 7 b 0] that by simp
  moreover have "host_step demo_lib (Up 7 Dm_keyturner) b (Usdio_discovered 7 dm 0) (Up 7 Quiet)" for b dm
    by (rule host_step.keyturner)
  ultimately show ?thesis
    unfolding demo_env_def env.simps
    by (elim host_run.more) (simp only: host_run_simps, metis bt_handle_frame(4) attempt_simps(5))
qed

section \<open>Properties\<close>

text \<open>
  C24: the result of a connection attempt is the first verdict: \<open>connect_to_lock\<close> returns the result that the first
  deciding callback reported, \<open>-ETIMEDOUT\<close> if none did, or the error of \<open>bt_le_scan_start\<close>. Once an attempt whose scan started is over, no late or
  duplicate callback gives the semaphore or changes the result, until the next attempt begins. The next attempt does not tell callbacks of the past from its
  own: when a connection is kept from an earlier attempt, its loss at the start of the new attempt counts as the verdict \<open>-ENOTCONN\<close> on the new
  one. After a timeout the scan is stopped and an existing connection is asked to close. Only a failed scan start leaves the attempt marked as running.
\<close>

theorem connect_result:
  "(case connect_to_lock L need E a of (r, a') \<Rightarrow>
      r = (if scan_rc E \<noteq> 0 then scan_rc E
           else case first_verdict L (connect_events E) (attempt need a) of None \<Rightarrow> - ETIMEDOUT | Some v \<Rightarrow> v) \<and>
      g_ready_sem a' = 0 \<and> (g_connecting a' \<longleftrightarrow> scan_rc E \<noteq> 0) \<and>
      (if scan_rc E = 0 \<and> first_verdict L (connect_events E) (attempt need a) = None
       then bt_log a' = bt_log (bt_handles L (connect_events E) (attempt need a)) @ [Scan_stop] @
              (case g_conn a' of None \<Rightarrow> [] | Some c \<Rightarrow> [Disconnect c])
       else True) \<and>
      (if scan_rc E = 0 then g_ready_sem (bt_handles L late a') = 0 \<and> g_connect_err (bt_handles L late a') = g_connect_err a' else True) \<and>
      (if scan_rc E = 0 \<and> g_conn a = Some c \<and> connect_events E = Disconnected c # evs then r = - ENOTCONN else True))"
proof -
  have late: "g_ready_sem (bt_handles L late a') = g_ready_sem a' \<and> g_connect_err (bt_handles L late a') = g_connect_err a'"
    if "\<not> g_connecting a'" for a'
    using settled_events [of "g_ready_sem a'" "g_connect_err a'" a'] that by (simp add: settled_def)
  show ?thesis
  proof (cases rule: connect_to_lock_cases [of E L need a])
    case no_scan
    then show ?thesis by (simp add: attempt_def)
  next
    case (verdict r)
    then show ?thesis using late by (auto simp: settled_def)
  next
    case timeout
    then show ?thesis using late by (auto simp: Let_def trying_def split: option.split)
  qed
qed

text \<open>
  References on the connection object are never leaked and never dropped twice: whatever events the host delivers, and in each
  of the parts of which the operations consist (connecting, running a command or the handshake, disconnecting), the module's variables agree with the
  state of the link: one reference for the module and one for each ready transport, all of them gone with
  the connection, and no transport ready without a connection.
\<close>

theorem connection_references:
  assumes "conn_inv k a"
  shows "conn_inv Down (app_boot st) \<and>
    (host_step L k a e k' \<longrightarrow> conn_inv k' (bt_handle L e a)) \<and>
    ((if scan_rc E \<noteq> 0 then k' = k else host_run L k (attempt need a) (connect_events E) k') \<longrightarrow>
       conn_inv k' (snd (connect_to_lock L need E a))) \<and>
    (nuki_command_get_state B aid key (session_io E (g_usdio a)) = (r, s) \<and>
       host_run L k (a\<lparr>g_usdio := tr s, air := air a @ sent s, waited := waited a + blocked s\<rparr>) (op_events E) k' \<longrightarrow> conn_inv k' (usdio_session L E s a)) \<and>
    (nuki_command_lock_action B aid aid' key action want (session_io E (g_usdio a)) = (rc, cap, s) \<and>
       host_run L k (a\<lparr>g_usdio := tr s, air := air a @ sent s, waited := waited a + blocked s\<rparr>) (op_events E) k' \<longrightarrow> conn_inv k' (usdio_session L E s a)) \<and>
    (nuki_command_calibrate B aid key pin (session_io E (g_usdio a)) = (rc, s) \<and>
       host_run L k (a\<lparr>g_usdio := tr s, air := air a @ sent s, waited := waited a + blocked s\<rparr>) (op_events E) k' \<longrightarrow> conn_inv k' (usdio_session L E s a)) \<and>
    (nuki_pairing_run B P (session_io E (g_gdio a), ps) = (d, s, ps') \<and>
       host_run L k (a\<lparr>g_gdio := tr s, air := air a @ sent s, waited := waited a + blocked s\<rparr>) (op_events E) k' \<longrightarrow> conn_inv k' (gdio_session L E s a)) \<and>
    ((if g_conn a = None then k' = k else host_run L k (disconnecting a) (disconnect_events E) k') \<longrightarrow>
       conn_inv k' (disconnect_from_lock L E a))"
proof -
  have u: "t_conn (tr s) = t_conn (g_usdio a)" if "same_conn (session_io E (g_usdio a)) s" for s
    using that by (simp add: same_conn_def session_io_def)
  have g: "t_conn (tr s) = t_conn (g_gdio a)" if "same_conn (session_io E (g_gdio a)) s" for s
    using that by (simp add: same_conn_def session_io_def)
  have b: "conn_inv Down (app_boot st)" by (simp add: conn_inv_def app_boot_def)
  show ?thesis
    by (intro conjI impI b; (elim conjE)?)
      (erule conn_inv_event [OF _ assms] connect_conn_inv [OF assms] disconnect_conn_inv [OF assms]
         usdio_conn_inv [OF assms u [OF conn_kept.get_state_rel]] usdio_conn_inv [OF assms u [OF conn_kept.lock_action_rel]]
         usdio_conn_inv [OF assms u [OF conn_kept.calibrate_rel]] gdio_conn_inv [OF assms g [OF conn_kept.pairing_run_rel]]; assumption?)+
qed

theorem connection_references_witness:
  "conn_inv (Up 7 Quiet) (snd (connect_to_lock demo_lib False (demo_env []) (app_boot demo_storage)))"
proof -
  have "conn_inv Down (app_boot demo_storage)" by (simp add: conn_inv_def app_boot_def)
  from connection_references [OF this, where L = demo_lib and E = "demo_env []" and need = False and k' = "Up 7 Quiet"]
  show ?thesis
    using demo_connects [of "app_boot demo_storage" "[]"] by (simp add: app_boot_def demo_env_def)
qed

text \<open>
  Well-formedness of the state: at boot, after every callback and after every public operation, whatever its result, the
  transports are inside their buffers, the stored key has 32 bytes and the lock identifier 16, the retry counter is at
  most 3, and the operation lock has been released.
\<close>

theorem app_well_formed:
  assumes "app_ok a" "storage_ok st"
  shows "app_ok (app_boot st) \<and> app_ok (bt_handle L e a) \<and>
    (case nuki_app_pair L B P S E (a, ps, flash) of (_, a', _) \<Rightarrow> app_ok a' \<and> \<not> g_op_lock a') \<and>
    (case nuki_app_get_state L B E a of (_, a') \<Rightarrow> app_ok a' \<and> \<not> g_op_lock a') \<and>
    (case nuki_app_lock_action L B action E a of (_, a') \<Rightarrow> app_ok a' \<and> \<not> g_op_lock a') \<and>
    (case nuki_app_calibrate L B pin E a of (_, a') \<Rightarrow> app_ok a' \<and> \<not> g_op_lock a') \<and>
    (case state_poll_round L B E a of (_, a') \<Rightarrow> app_ok a')"
  using app_ok_boot [OF assms(2)] app_ok_events [OF assms(1), of L "[e]"] public_ops_app_ok(1-3) [OF assms(1)]
    public_ops_app_ok(4) [OF assms(1), of L B P S E ps flash] poll_app_ok [OF assms(1)]
  by (intro conjI) (auto split: prod.split)

theorem app_well_formed_witness:
  "app_ok (app_boot demo_storage) \<and>
   app_ok (snd (nuki_app_get_state demo_lib le_byteorder (demo_env []) (app_boot demo_storage)))"
proof -
  have "app_ok (app_boot demo_storage)" by (rule app_ok_boot [OF demo_storage_ok])
  moreover obtain r a' where g: "nuki_app_get_state demo_lib le_byteorder (demo_env []) (app_boot demo_storage) = (r, a')"
    by fastforce
  ultimately show ?thesis
    using app_well_formed [OF _ demo_storage_ok, where a = "app_boot demo_storage" and L = demo_lib and B = le_byteorder and
        E = "demo_env []", THEN conjunct2, THEN conjunct2, THEN conjunct2, THEN conjunct1] by simp
qed

end
