(* ===== verification/Nuki_Ops.thy ===== *)
theory Nuki_Ops
  imports Nuki_Session
begin

text \<open>
  The operations of \<open>src/src/nuki_app.c\<close> end to end: which lock is called, what is sent to it and on what
  grounds success is reported, that an operation with a lock in range goes through and gives the connection back, what a
  connection that was not given back does to later operations, and the rhythm of the background poller.
\<close>

section \<open>Which lock is called\<close>

text \<open>The addresses that were dialled between two states.\<close>

definition dialled :: "app \<Rightarrow> app \<Rightarrow> bytes set" where
  "dialled a a' = {x. Conn_create x \<in> set (drop (length (bt_log a)) (bt_log a'))}"

text \<open>Between the states only calls were added, and only accepted addresses were dialled.\<close>

definition calls :: "bytes set \<Rightarrow> app \<Rightarrow> app \<Rightarrow> bool" where
  "calls X a a' \<longleftrightarrow> (\<exists>new. bt_log a' = bt_log a @ new \<and> (\<forall>x. Conn_create x \<in> set new \<longrightarrow> x \<in> X))"

lemma calls_refl [simp]: "calls X a a"
  by (simp add: calls_def)

lemma calls_trans: "calls X a b \<Longrightarrow> calls X b c \<Longrightarrow> calls X a c"
  unfolding calls_def by (metis (no_types, opaque_lifting) Un_iff append_assoc set_append)

lemma calls_mono: "calls X a b \<Longrightarrow> X \<subseteq> Y \<Longrightarrow> calls Y a b"
  unfolding calls_def by blast

lemma calls_dialled: "calls X a a' \<Longrightarrow> dialled a a' \<subseteq> X"
  by (auto simp: calls_def dialled_def)

lemma calls_log: "calls X a b \<Longrightarrow> bt_log a' = bt_log a \<Longrightarrow> bt_log b' = bt_log b \<Longrightarrow> calls X a' b'"
  by (simp add: calls_def)

lemma calls_host: "\<forall>x. c \<noteq> Conn_create x \<Longrightarrow> calls X a (host c a)"
  by (auto simp: calls_def)

text \<open>The addresses that the module accepts in a state of the storage.\<close>

definition accepted :: "bt_lib \<Rightarrow> storage \<Rightarrow> bytes set" where
  "accepted L st =
     {x. case nuki_storage_get_pairing st of
           Some p \<Rightarrow> bt_addr_le_cmp L x (addr p) = 0
         | None \<Rightarrow> True}"

lemma accepted_paired:
  "bt_lib_ok L \<Longrightarrow> nuki_storage_get_pairing st = Some p \<Longrightarrow> accepted L st = {addr p}"
  by (auto simp: accepted_def bt_lib_ok_def)

lemma device_found_calls: "calls (accepted L (g_storage a)) a (device_found L address ad stop_rc create_rc c a)"
  by (auto simp: device_found_eq calls_def accepted_def matches_def Let_def split: option.splits)

lemma bt_handle_calls: "calls (accepted L (g_storage a)) a (bt_handle L e a)"
proof (cases e)
  case (Device_found address ad stop_rc create_rc c)
  then show ?thesis using device_found_calls by simp
qed (auto simp: calls_def callback_defs Let_def split: option.split)

lemma bt_handles_calls: "calls (accepted L (g_storage a)) a (bt_handles L evs a)"
proof (induction evs arbitrary: a)
  case (Cons e evs)
  show ?case using calls_trans [OF bt_handle_calls Cons [of "bt_handle L e a", simplified]] by simp
qed simp

lemma connect_calls:
  assumes "connect_to_lock L need E a = (r, a')"
  shows "calls (accepted L (g_storage a)) a a'"
proof -
  let ?X = "accepted L (g_storage a)"
  let ?a = "bt_handles L (connect_events E) (attempt need a)"
  have 1: "calls ?X a (attempt need a)" by (simp add: calls_def)
  have 2: "calls ?X (attempt need a) ?a" using bt_handles_calls [of L "attempt need a"] by simp
  note 3 = calls_trans [OF 1 2]
  show ?thesis
  proof (cases rule: connect_to_lock_cases [of E L need a])
    case no_scan
    then have "bt_log a' = bt_log (attempt need a)" using assms by auto
    then show ?thesis using calls_log [OF 1] by simp
  next
    case (verdict r)
    then have "bt_log a' = bt_log ?a" using assms by auto
    then show ?thesis using calls_log [OF 3] by simp
  next
    case timeout
    let ?b = "host Scan_stop (?a\<lparr>g_connecting := False\<rparr>)"
    have "a' = (case g_conn ?b of Some c \<Rightarrow> host (Disconnect c) ?b | None \<Rightarrow> ?b)"
      using timeout(4) assms by (simp add: Let_def)
    then have "calls ?X ?a a'" by (simp add: calls_def split: option.split)
    then show ?thesis by (rule calls_trans [OF 3])
  qed
qed

lemma disconnect_calls: "calls (accepted L (g_storage a)) a (disconnect_from_lock L E a)"
proof (cases "g_conn a")
  case None
  then show ?thesis by (simp add: disconnect_from_lock_def)
next
  case (Some c)
  let ?a = "host (Disconnect c) (a\<lparr>g_disconnected_sem := 0, waited := waited a + DISCONNECT_TIMEOUT\<rparr>)"
  have "calls (accepted L (g_storage a)) a ?a" by (simp add: calls_def)
  moreover have "calls (accepted L (g_storage a)) ?a (bt_handles L (disconnect_events E) ?a)"
    using bt_handles_calls [of L ?a] by simp
  ultimately have "calls (accepted L (g_storage a)) a (bt_handles L (disconnect_events E) ?a)" by (rule calls_trans)
  then show ?thesis
    by (rule calls_log) (simp_all add: Some disconnect_from_lock_def Let_def)
qed

lemma usdio_session_calls: "calls (accepted L (g_storage a)) a (usdio_session L E s a)"
  using bt_handles_calls [of L "a\<lparr>g_usdio := tr s, air := air a @ sent s, waited := waited a + blocked s\<rparr>"] by (simp add: usdio_session_def calls_def)

lemma gdio_session_calls: "calls (accepted L (g_storage a)) a (gdio_session L E s a)"
  using bt_handles_calls [of L "a\<lparr>g_gdio := tr s, air := air a @ sent s, waited := waited a + blocked s\<rparr>"] by (simp add: gdio_session_def calls_def)

lemma served_calls:
  assumes "connect_to_lock L need E a = (0, a1)"
  shows "calls (accepted L (g_storage a)) a (disconnect_from_lock L E (usdio_session L E s a1))"
proof -
  have "g_storage a1 = g_storage a" by (rule connect_frame(1) [OF assms])
  then have "calls (accepted L (g_storage a)) a1 (usdio_session L E s a1)"
    "calls (accepted L (g_storage a)) (usdio_session L E s a1) (disconnect_from_lock L E (usdio_session L E s a1))"
    using usdio_session_calls [of L a1 E s] disconnect_calls [of L "usdio_session L E s a1" E] by simp_all
  then show ?thesis using connect_calls [OF assms] calls_trans by blast
qed

lemma locked_calls:
  assumes p: "nuki_storage_get_pairing (g_storage a) = Some p"
  shows "calls (accepted L (g_storage a)) a (snd (get_state_locked L B E a))"
    "calls (accepted L (g_storage a)) a (snd (lock_action_locked L B action E a))"
    "calls (accepted L (g_storage a)) a (snd (calibrate_locked L B pin E a))"
proof -
  obtain r a1 where g: "get_state_locked L B E a = (r, a1)" by fastforce
  from p g have "calls (accepted L (g_storage a)) a a1"
    by (cases rule: get_state_locked_cases) (simp_all add: connect_calls served_calls)
  then show "calls (accepted L (g_storage a)) a (snd (get_state_locked L B E a))" using g by simp
  obtain rc a1 where g: "lock_action_locked L B action E a = (rc, a1)" by fastforce
  from p g have "calls (accepted L (g_storage a)) a a1"
  proof (cases rule: lock_action_locked_cases)
    case (served a2 s cap)
    show ?thesis by (rule calls_log [OF served_calls [OF served(1)]]) (simp_all add: served(3))
  qed (simp add: connect_calls)
  then show "calls (accepted L (g_storage a)) a (snd (lock_action_locked L B action E a))" using g by simp
  obtain rc a1 where g: "calibrate_locked L B pin E a = (rc, a1)" by fastforce
  from p g have "calls (accepted L (g_storage a)) a a1"
    by (cases rule: calibrate_locked_cases) (simp_all add: connect_calls served_calls)
  then show "calls (accepted L (g_storage a)) a (snd (calibrate_locked L B pin E a))" using g by simp
qed

section \<open>What is sent to the lock\<close>

text \<open>The variables of the cache.\<close>

definition same_cache :: "app \<Rightarrow> app \<Rightarrow> bool" where
  "same_cache a a' \<longleftrightarrow> g_cached_state a' = g_cached_state a \<and> g_cache_valid a' = g_cache_valid a \<and>
     g_cache_uptime_ms a' = g_cache_uptime_ms a"

definition cached :: "nuki_keyturner_state \<Rightarrow> int \<Rightarrow> app \<Rightarrow> bool" where
  "cached st now a \<longleftrightarrow> g_cached_state a = st \<and> g_cache_valid a \<and> g_cache_uptime_ms a = now"

lemma session_idle:
  assumes "connect_to_lock L need E a = (0, a1)" "app_ok a"
  shows "io_idle (session_io E (g_usdio a1))" "tr_contents (tr (session_io E (g_usdio a1))) = []"
  using connect_success [OF assms(1)] assms(2) by (simp_all add: app_ok_def io_idle_def session_io_def tr_contents_def)

lemma session_io_simps [simp]: "sent (session_io E t) = []" "inbound (session_io E t) = lock_inbound E"
  "write_script (session_io E t) = lock_writes E" "tr (session_io E t) = t"
  by (simp_all add: session_io_def)

lemma cache_action_cases:
  "same_cache a (cache_action rc cap now a) \<or> (\<exists>st. rc = 0 \<and> cap = Some st \<and> cached st now (cache_action rc cap now a))"
  by (auto simp: same_cache_def cached_def cache_action_def split: option.split)

lemma app_ok_key: "app_ok a \<Longrightarrow> nuki_storage_get_pairing (g_storage a) = Some p \<Longrightarrow> length (shared_key p) = 32"
  by (auto simp: app_ok_def storage_ok_def nuki_storage_get_pairing_def split: if_splits)

lemma lock_action_locked_safe:
  assumes B: "byteorder_ok B" and ok: "app_ok a" and p: "nuki_storage_get_pairing (g_storage a) = Some p"
    and l: "lock_action_locked L B action E a = (rc, a')"
  shows "rc \<noteq> 0 \<and> air a' = air a \<and> same_cache a a' \<or>
    (\<exists>w1. rc \<noteq> 0 \<and> air a' = air a @ [w1] \<and> same_cache a a' \<and>
       is_wire (shared_key p) (auth_id p) NUKI_CMD_REQUEST_DATA (le16 NUKI_CMD_CHALLENGE) w1) \<or>
    (\<exists>w1 w2 nk e1 e2 e3. lock_inbound E = e1 @ e2 @ e3 \<and> air a' = air a @ [w1, w2] \<and> length nk = 32 \<and>
       is_wire (shared_key p) (auth_id p) NUKI_CMD_REQUEST_DATA (le16 NUKI_CMD_CHALLENGE) w1 \<and>
       got_message (shared_key p) [] e1 NUKI_CMD_CHALLENGE nk \<and>
       is_wire (shared_key p) (auth_id p) NUKI_CMD_LOCK_ACTION ([action] @ le32 (app_id p) @ [0] @ nk) w2 \<and>
       (rc = 0 \<longrightarrow> got_during (shared_key p) e2 NUKI_CMD_STATUS [NUKI_STATUS_COMPLETE]) \<and>
       (same_cache a a' \<or>
        rc = 0 \<and> (\<exists>q st. got_during (shared_key p) e2 NUKI_CMD_KEYTURNER_STATES q \<and>
                    nuki_keyturner_state_parse B q = Inr st \<and> cached st (uptime E) a')))"
  using p l
proof (cases rule: lock_action_locked_cases)
  case refused
  then show ?thesis using connect_frame [OF refused(2)] by (simp add: same_cache_def)
next
  case (served a1 s cap)
  note idle = session_idle [OF served(1) ok] and fr = connect_frame [OF served(1)]
  let ?d = "disconnect_from_lock L E (usdio_session L E s a1)"
  have air: "air a' = air a @ sent s" using served(3) fr by simp
  have cache: "same_cache a a' \<or> (\<exists>st. rc = 0 \<and> cap = Some st \<and> cached st (uptime E) a')"
    using cache_action_cases [of ?d rc cap "uptime E"] served(3) fr by (auto simp: same_cache_def)
  have "tr_ok (tr (session_io E (g_usdio a1)))" using idle(1) by (simp add: io_idle_def)
  from lock_action_challenged [OF B app_ok_key [OF ok p] this served(2)]
  have ch: "challenged B (shared_key p) (auth_id p) NUKI_CMD_LOCK_ACTION (\<lambda>nk. [action] @ le32 (app_id p) @ [0] @ nk)
      (session_io E (g_usdio a1)) rc cap s" .
  then show ?thesis
    unfolding challenged_def idle(2)
  proof (rule disjE; elim exE conjE)
    fix w1 assume "sent s = sent (session_io E (g_usdio a1)) @ [w1]" "rc \<noteq> 0"
      "is_wire (shared_key p) (auth_id p) NUKI_CMD_REQUEST_DATA (le16 NUKI_CMD_CHALLENGE) w1"
    then have "rc \<noteq> 0 \<and> air a' = air a @ [w1] \<and> same_cache a a' \<and>
       is_wire (shared_key p) (auth_id p) NUKI_CMD_REQUEST_DATA (le16 NUKI_CMD_CHALLENGE) w1" using air cache by auto
    then show ?thesis by blast
  next
    fix w1 w2 nk e1 e2
    assume h: "sent s = sent (session_io E (g_usdio a1)) @ [w1, w2]" "length nk = 32"
      "inbound (session_io E (g_usdio a1)) = e1 @ e2 @ inbound s"
      "is_wire (shared_key p) (auth_id p) NUKI_CMD_REQUEST_DATA (le16 NUKI_CMD_CHALLENGE) w1"
      "got_message (shared_key p) [] e1 NUKI_CMD_CHALLENGE nk"
      "is_wire (shared_key p) (auth_id p) NUKI_CMD_LOCK_ACTION ([action] @ le32 (app_id p) @ [0] @ nk) w2"
      "rc = 0 \<longrightarrow> got_during (shared_key p) e2 NUKI_CMD_STATUS [NUKI_STATUS_COMPLETE]"
      "\<forall>st. cap = Some st \<longrightarrow> (\<exists>q. nuki_keyturner_state_parse B q = Inr st \<and> got_during (shared_key p) e2 NUKI_CMD_KEYTURNER_STATES q)"
    have c: "same_cache a a' \<or> rc = 0 \<and> (\<exists>q st. got_during (shared_key p) e2 NUKI_CMD_KEYTURNER_STATES q \<and>
        nuki_keyturner_state_parse B q = Inr st \<and> cached st (uptime E) a')"
      using h(8) cache by blast
    have e: "lock_inbound E = e1 @ e2 @ inbound s" "air a' = air a @ [w1, w2]" using h(1,3) air by simp_all
    show ?thesis
      by (rule disjI2, rule disjI2) (intro exI conjI, rule e(1), rule e(2), rule h(2), rule h(4), rule h(5), rule h(6), rule h(7), rule c)
  qed
qed

section \<open>With the lock in range\<close>

text \<open>Advertisements of other devices.\<close>

definition strangers :: "bytes \<Rightarrow> bt_event list \<Rightarrow> bool" where
  "strangers own evs \<longleftrightarrow> (\<forall>e\<in>set evs. \<exists>x ad sr cr c. e = Device_found x ad sr cr c \<and> x \<noteq> own)"

lemma strangers_ignored:
  assumes L: "bt_lib_ok L" and p: "nuki_storage_get_pairing (g_storage a) = Some p" and s: "strangers (addr p) ads"
  shows "bt_handles L (ads @ evs) a = bt_handles L evs a" "first_verdict L (ads @ evs) a = first_verdict L evs a"
    "host_run L k a (ads @ evs) k' \<longleftrightarrow> host_run L k a evs k'"
proof -
  have no: "bt_handle L e a = a" "verdict L a e = None" "host_step L k a e k1 \<longleftrightarrow> k1 = k"
    if e: "\<exists>x ad sr cr c. e = Device_found x ad sr cr c \<and> x \<noteq> addr p" for e k k1
  proof -
    obtain x ad sr cr c where e: "e = Device_found x ad sr cr c" "x \<noteq> addr p" using e by blast
    have m: "\<not> matches L x ad a" using L p e(2) by (simp add: matches_def bt_lib_ok_def)
    then show "bt_handle L e a = a" "verdict L a e = None" by (simp_all add: e(1) device_found_eq asks_iff)
    show "host_step L k a e k1 \<longleftrightarrow> k1 = k"
      using m by (auto simp: e(1) asks_iff elim: host_step_elims intro: host_step.ignored)
  qed
  show "bt_handles L (ads @ evs) a = bt_handles L evs a" "first_verdict L (ads @ evs) a = first_verdict L evs a"
    "host_run L k a (ads @ evs) k' \<longleftrightarrow> host_run L k a evs k'"
    using s by (induction ads) (auto simp: strangers_def no)
qed

text \<open>The lock is found, connects, and its Keyturner service is discovered.\<close>

definition in_range :: "bt_lib \<Rightarrow> nuki_pairing_data \<Rightarrow> nat \<Rightarrow> bt_event list \<Rightarrow> bool" where
  "in_range L p c evs \<longleftrightarrow>
     (\<exists>ads ad dm. strangers (addr p) ads \<and> dm (nuki_keyturner_usdio_uuid L) \<noteq> None \<and>
        evs = ads @ [Device_found (addr p) ad 0 0 c, Connected c 0 0, Usdio_discovered c dm 0])"

lemma connect_in_range:
  assumes L: "bt_lib_ok L" and p: "nuki_storage_get_pairing (g_storage a) = Some p" and inv: "conn_inv Down a"
    and E: "scan_rc E = 0" "in_range L p c (connect_events E)"
  obtains a1 where "connect_to_lock L False E a = (0, a1)" "conn_inv (Up c Quiet) a1"
    "host_run L Down (attempt False a) (connect_events E) (Up c Quiet)"
proof -
  obtain ads ad dm where e: "strangers (addr p) ads" "dm (nuki_keyturner_usdio_uuid L) \<noteq> None"
    "connect_events E = ads @ [Device_found (addr p) ad 0 0 c, Connected c 0 0, Usdio_discovered c dm 0]"
    using E(2) unfolding in_range_def by blast
  let ?a = "attempt False a"
  let ?b = "bt_handle L (Device_found (addr p) ad 0 0 c) ?a"
  let ?d = "bt_handle L (Connected c 0 0) ?b"
  note ig = strangers_ignored [OF L _ e(1), of ?a, simplified, OF p]
  have m: "matches L (addr p) ad ?a" using L p by (simp add: matches_def bt_lib_ok_def)
  have g: "g_conn ?a = None" using inv by (simp add: conn_inv_def)
  have asks: "asks L (addr p) ad 0 ?a" using m g by (simp add: asks_iff)
  have b: "g_conn ?b = Some c" "\<not> g_need_gdio ?b" using m g by (simp_all add: device_found_eq Let_def)
  have run: "host_run L Down ?a (connect_events E) (Up c Quiet)"
    unfolding e(3) ig(3)
    by (rule host_run.more [OF host_step.created [OF asks]], rule host_run.more [OF host_step.established])
      (use b in \<open>simp add: host_step.keyturner\<close>)
  have "first_verdict L (connect_events E) ?a = Some 0"
    unfolding e(3) ig(2) using asks b e(2) by simp
  then have "fst (connect_to_lock L False E a) = 0"
    using E(1) by (cases rule: connect_to_lock_cases [of E L False a]) simp_all
  then obtain a1 where a1: "connect_to_lock L False E a = (0, a1)" by (metis prod.collapse)
  show thesis using that [OF a1 _ run] connect_conn_inv [OF inv, of E "Up c Quiet" L False] run E(1) a1 by simp
qed

lemma served_released:
  assumes "connect_to_lock L need E a = (0, a1)" "conn_inv (Up c Quiet) a1"
    and "same_conn (session_io E (g_usdio a1)) s" "op_events E = []" "disconnect_events E = [Disconnected c]"
  shows "conn_inv Down (disconnect_from_lock L E (usdio_session L E s a1))"
proof -
  have "conn_inv (Up c Quiet) (usdio_session L E s a1)"
    using assms(3) by (intro usdio_conn_inv [OF assms(2)]) (simp_all add: same_conn_def assms(4))
  moreover from this have "g_conn (usdio_session L E s a1) = Some c" by (simp add: conn_inv_def)
  ultimately show ?thesis
    by (intro disconnect_conn_inv [of "Up c Quiet"]) (simp_all add: assms(5) host_step.lost)
qed

lemma lock_action_locked_live:
  assumes L: "bt_lib_ok L" and B: "byteorder_ok B" and ok: "app_ok a" and inv: "conn_inv Down a"
    and p: "nuki_storage_get_pairing (g_storage a) = Some p"
    and E: "scan_rc E = 0" "in_range L p c (connect_events E)" "op_events E = []" "disconnect_events E = [Disconnected c]"
    and w: "lock_writes E = o1 # o2 # os" "write_ok o1" "write_ok o2"
    and m: "wires (shared_key p) ((NUKI_CMD_CHALLENGE, nk) # ms) ws" "delivers ws (lock_inbound E)" "length nk = 32"
    and d: "drain_msgs 10 B ms True None = Some (rc, cap)"
  shows "\<exists>a'. lock_action_locked L B action E a = (rc, a') \<and> conn_inv Down a' \<and> length (air a') = length (air a) + 2 \<and>
     (case cap of Some st \<Rightarrow> rc = 0 \<longrightarrow> cached st (uptime E) a' | None \<Rightarrow> same_cache a a')"
proof -
  obtain a1 where c: "connect_to_lock L False E a = (0, a1)" "conn_inv (Up c Quiet) a1"
    by (rule connect_in_range [OF L p inv E(1,2)])
  let ?s = "session_io E (g_usdio a1)"
  have ws: "write_script ?s = o1 # o2 # os" "delivers ws (inbound ?s)" using w m by simp_all
  obtain w1 w2 s where a: "nuki_command_lock_action B (auth_id p) (app_id p) (shared_key p) action True ?s = (rc, cap, s)"
    "sent s = sent ?s @ [w1, w2]"
    using lock_action_ok [OF B app_ok_key [OF ok p] session_idle(1) [OF c(1) ok] ws(1) w(2,3) m(1) ws(2) m(3) d,
        of "auth_id p" "app_id p" action] by blast
  let ?d = "disconnect_from_lock L E (usdio_session L E s a1)"
  have rel: "conn_inv Down ?d"
    by (rule served_released [OF c conn_kept.lock_action_rel [OF a(1)] E(3,4)])
  have l: "lock_action_locked L B action E a = (rc, cache_action rc cap (uptime E) ?d)"
    using p c(1) a(1) by (simp add: lock_action_locked_def cache_action_def Let_def)
  have "conn_inv Down (cache_action rc cap (uptime E) ?d)" using rel by (simp add: conn_inv_def)
  moreover have "length (air (cache_action rc cap (uptime E) ?d)) = length (air a) + 2"
    using a(2) connect_frame [OF c(1)] by simp
  moreover have "case cap of Some st \<Rightarrow> rc = 0 \<longrightarrow> cached st (uptime E) (cache_action rc cap (uptime E) ?d)
      | None \<Rightarrow> same_cache a (cache_action rc cap (uptime E) ?d)"
    using connect_frame [OF c(1)] by (simp add: cached_def same_cache_def cache_action_def split: option.split)
  ultimately show ?thesis using l by blast
qed

lemma get_state_locked_live:
  assumes L: "bt_lib_ok L" and B: "byteorder_ok B" and ok: "app_ok a" and inv: "conn_inv Down a"
    and p: "nuki_storage_get_pairing (g_storage a) = Some p"
    and E: "scan_rc E = 0" "in_range L p c (connect_events E)" "op_events E = []" "disconnect_events E = [Disconnected c]"
    and w: "lock_writes E = o1 # os" "write_ok o1"
    and m: "wires (shared_key p) [(NUKI_CMD_KEYTURNER_STATES, q)] ws" "delivers ws (lock_inbound E)"
  shows "\<exists>a'. get_state_locked L B E a = (nuki_keyturner_state_parse B q, a') \<and> conn_inv Down a'"
proof -
  obtain a1 where c: "connect_to_lock L False E a = (0, a1)" "conn_inv (Up c Quiet) a1"
    by (rule connect_in_range [OF L p inv E(1,2)])
  let ?s = "session_io E (g_usdio a1)"
  note idle = session_idle(1) [OF c(1) ok]
  obtain r s where g: "nuki_command_get_state B (auth_id p) (shared_key p) ?s = (r, s)" by fastforce
  have ws: "write_script ?s = o1 # os" "delivers ws (inbound ?s)" using w m by simp_all
  have "tr_ok (tr ?s)" using idle by (simp add: io_idle_def)
  from get_state_result [OF B app_ok_key [OF ok p] this g] have "r = nuki_keyturner_state_parse B q"
    using idle ws w(2) m(1) by blast
  moreover have "conn_inv Down (disconnect_from_lock L E (usdio_session L E s a1))"
    by (rule served_released [OF c conn_kept.get_state_rel [OF g] E(3,4)])
  ultimately show ?thesis using p c(1) g by (simp add: get_state_locked_def)
qed

text \<open>A poll with the lock in range refreshes the cache.\<close>

lemma poll_live:
  assumes L: "bt_lib_ok L" and B: "byteorder_ok B" and ok: "app_ok a" and inv: "conn_inv Down a"
    and p: "nuki_storage_get_pairing (g_storage a) = Some p"
    and E: "scan_rc E = 0" "in_range L p c (connect_events E)" "op_events E = []" "disconnect_events E = [Disconnected c]"
    and w: "lock_writes E = o1 # os" "write_ok o1"
    and m: "wires (shared_key p) [(NUKI_CMD_KEYTURNER_STATES, q)] ws" "delivers ws (lock_inbound E)"
    and q: "nuki_keyturner_state_parse B q = Inr st"
  shows "\<exists>a'. state_poll_round L B E a = (STATE_POLL_INTERVAL_SEC, a') \<and> cached st (uptime E) a' \<and> conn_inv Down a' \<and>
     g_state_poll_retries a' = 0"
proof -
  let ?a = "a\<lparr>g_op_lock := True\<rparr>"
  have a: "app_ok ?a" "conn_inv Down ?a" "nuki_storage_get_pairing (g_storage ?a) = Some p"
    using ok inv p by (simp_all add: conn_inv_def)
  obtain a1 where g: "get_state_locked L B E ?a = (Inr st, a1)" "conn_inv Down a1"
    using get_state_locked_live [OF L B a E w m] q by auto
  have "nuki_app_get_state L B E a = (Inr st, a1\<lparr>g_op_lock := False\<rparr>)" using g(1) by (simp add: nuki_app_get_state_def)
  then have "state_poll_round L B E a = (STATE_POLL_INTERVAL_SEC, a1\<lparr>g_op_lock := False, g_cached_state := st, g_cache_valid := True,
      g_cache_uptime_ms := uptime E, g_state_poll_retries := 0\<rparr>)"
    using p by (simp add: state_poll_round_def nuki_app_is_paired_def)
  then show ?thesis using g(2) by (auto simp: cached_def conn_inv_def)
qed

lemma lock_action_end_to_end:
  assumes "byteorder_ok B" "app_ok a" "nuki_storage_get_pairing (g_storage a) = Some p"
    and "nuki_app_lock_action L B action E a = (rc, a')"
  shows "rc \<noteq> 0 \<and> air a' = air a \<and> same_cache a a' \<or>
    (\<exists>w1. rc \<noteq> 0 \<and> air a' = air a @ [w1] \<and> same_cache a a' \<and>
       is_wire (shared_key p) (auth_id p) NUKI_CMD_REQUEST_DATA (le16 NUKI_CMD_CHALLENGE) w1) \<or>
    (\<exists>w1 w2 nk e1 e2 e3. lock_inbound E = e1 @ e2 @ e3 \<and> air a' = air a @ [w1, w2] \<and> length nk = 32 \<and>
       is_wire (shared_key p) (auth_id p) NUKI_CMD_REQUEST_DATA (le16 NUKI_CMD_CHALLENGE) w1 \<and>
       got_message (shared_key p) [] e1 NUKI_CMD_CHALLENGE nk \<and>
       is_wire (shared_key p) (auth_id p) NUKI_CMD_LOCK_ACTION ([action] @ le32 (app_id p) @ [0] @ nk) w2 \<and>
       (rc = 0 \<longrightarrow> got_during (shared_key p) e2 NUKI_CMD_STATUS [NUKI_STATUS_COMPLETE]) \<and>
       (same_cache a a' \<or>
        rc = 0 \<and> (\<exists>q st. got_during (shared_key p) e2 NUKI_CMD_KEYTURNER_STATES q \<and>
                    nuki_keyturner_state_parse B q = Inr st \<and> cached st (uptime E) a')))"
proof -
  let ?a = "a\<lparr>g_op_lock := True\<rparr>"
  obtain a1 where a1: "lock_action_locked L B action E ?a = (rc, a1)" "a' = a1\<lparr>g_op_lock := False\<rparr>"
    using public_ops(2) [OF assms(4)] by blast
  have eq: "air a' = air a1" "same_cache a a' = same_cache ?a a1" "cached st now a' = cached st now a1" for st now
    using a1(2) by (simp_all add: same_cache_def cached_def)
  have "app_ok ?a" "nuki_storage_get_pairing (g_storage ?a) = Some p" using assms(2,3) by simp_all
  from lock_action_locked_safe [OF assms(1) this a1(1)] show ?thesis unfolding eq by simp
qed

section \<open>The example goes through\<close>

lemma demo_paired: "nuki_storage_get_pairing (g_storage (app_boot demo_storage)) = Some (pairing demo_storage)"
  by (simp add: app_boot_def demo_storage_def nuki_storage_get_pairing_def)

lemma demo_down: "conn_inv Down (app_boot st)"
  by (simp add: conn_inv_def app_boot_def)

lemma demo_write_ok: "write_ok \<lparr>gatt_write_rc = 0, write_cb_err = Some 0, sem_take_rc = 0\<rparr>"
  by (simp add: write_ok_def)

lemma demo_drain: "drain_msgs 10 le_byteorder [(NUKI_CMD_STATUS, [NUKI_STATUS_COMPLETE])] True None = Some (0, None)"
  by simp

lemma demo_wires:
  "\<exists>ws. wires (shared_key (pairing demo_storage)) [(NUKI_CMD_CHALLENGE, replicate 32 5), (NUKI_CMD_STATUS, [NUKI_STATUS_COMPLETE])] ws"
  by (rule wires_exist) (simp_all add: demo_storage_def)

lemma demo_in_range:
  "scan_rc (demo_env ws) = 0" "in_range demo_lib (pairing demo_storage) 7 (connect_events (demo_env ws))"
  "op_events (demo_env ws) = []" "disconnect_events (demo_env ws) = [Disconnected 7]"
  "lock_writes (demo_env ws) = \<lparr>gatt_write_rc = 0, write_cb_err = Some 0, sem_take_rc = 0\<rparr> #
     \<lparr>gatt_write_rc = 0, write_cb_err = Some 0, sem_take_rc = 0\<rparr> # replicate 6 \<lparr>gatt_write_rc = 0, write_cb_err = Some 0, sem_take_rc = 0\<rparr>"
  "delivers ws (lock_inbound (demo_env ws))"
proof -
  let ?p = "pairing demo_storage"
  let ?ads = "[Device_found (replicate 7 2) [] 0 0 5]" and ?dm = "\<lambda>_ :: bytes. Some (3 :: u16, Some (4 :: u16))"
  have "strangers (addr ?p) ?ads" by (simp add: strangers_def demo_storage_def)
  moreover have "connect_events (demo_env ws) = ?ads @ [Device_found (addr ?p) [] 0 0 7, Connected 7 0 0, Usdio_discovered 7 ?dm 0]"
    by (simp add: demo_env_def demo_storage_def)
  ultimately show "in_range demo_lib ?p 7 (connect_events (demo_env ws))"
    unfolding in_range_def by (intro exI [of _ ?ads] exI [of _ "[]"] exI [of _ ?dm]) simp
qed (use delivers_bursts [of ws] in \<open>simp_all add: demo_env_def numeral_eq_Suc del: delivers.simps\<close>)

lemma demo_lock_action: "\<exists>ws a'. nuki_app_lock_action demo_lib le_byteorder action (demo_env ws) (app_boot demo_storage) = (0, a')"
proof -
  obtain ws where ws: "wires (shared_key (pairing demo_storage)) [(NUKI_CMD_CHALLENGE, replicate 32 5), (NUKI_CMD_STATUS, [NUKI_STATUS_COMPLETE])] ws"
    using demo_wires by blast
  note E = demo_in_range [of ws]
  let ?a = "app_boot demo_storage\<lparr>g_op_lock := True\<rparr>"
  have a: "app_ok ?a" "conn_inv Down ?a" "nuki_storage_get_pairing (g_storage ?a) = Some (pairing demo_storage)"
    using app_ok_boot [OF demo_storage_ok] demo_down [of demo_storage] demo_paired by (simp_all add: conn_inv_def)
  obtain a1 where "lock_action_locked demo_lib le_byteorder action (demo_env ws) ?a = (0, a1)"
    using lock_action_locked_live [OF demo_lib_ok le_byteorder_ok a E(1-5) demo_write_ok demo_write_ok ws E(6) _ demo_drain] by auto
  then have "nuki_app_lock_action demo_lib le_byteorder action (demo_env ws) (app_boot demo_storage) = (0, a1\<lparr>g_op_lock := False\<rparr>)"
    by (simp add: nuki_app_lock_action_def)
  then show ?thesis by blast
qed

section \<open>A connection that was not given back\<close>

text \<open>
  Only advertisements are seen, apart from the handler of the scan timeout. When that one runs is up to the kernel's timer: the events of
  the wait carry their times, in seconds since its start, and \<open>scan_timer\<close> states the documented behaviour of a delayed work item: a
  delay that ends within the wait finds the item no longer pending, because its handler has run or it was cancelled.
\<close>

definition only_adverts :: "bt_event list \<Rightarrow> bool" where
  "only_adverts evs \<longleftrightarrow> (\<forall>e\<in>set evs. e = Scan_timeout \<or> (\<exists>x ad sr cr c. e = Device_found x ad sr cr c))"

definition scan_timer :: "bt_lib \<Rightarrow> nat \<Rightarrow> nat \<Rightarrow> (nat \<times> bt_event) list \<Rightarrow> app \<Rightarrow> bool" where
  "scan_timer L delay limit tevs a \<longleftrightarrow>
     sorted (map fst tevs) \<and> (\<forall>x\<in>set tevs. fst x \<le> limit) \<and>
     (delay \<le> limit \<longrightarrow> \<not> g_scan_timeout_work (bt_handles L (map snd (filter (\<lambda>x. fst x \<le> delay) tevs)) a))"

lemma adverts_ignored:
  "g_conn a = Some c \<Longrightarrow> \<forall>e\<in>set evs. \<exists>x ad sr cr d. e = Device_found x ad sr cr d \<Longrightarrow> bt_handles L evs a = a"
  by (induction evs) (auto simp: device_found_eq)

text \<open>So with a pending timer the handler is among the events: 15 s come before 20 s.\<close>

lemma scan_timer_runs:
  assumes "scan_timer L SCAN_TIMEOUT CONNECT_TIMEOUT tevs a" "g_scan_timeout_work a" "g_conn a = Some c" "only_adverts (map snd tevs)"
  shows "Scan_timeout \<in> set (map snd tevs)"
proof (rule ccontr)
  let ?evs = "map snd (filter (\<lambda>x. fst x \<le> SCAN_TIMEOUT) tevs)"
  assume n: "Scan_timeout \<notin> set (map snd tevs)"
  have "\<exists>x ad sr cr d. e = Device_found x ad sr cr d" if "e \<in> set ?evs" for e
  proof -
    have "e \<in> set (map snd tevs)" using that by auto
    then show ?thesis using n assms(4) unfolding only_adverts_def by metis
  qed
  then have "bt_handles L ?evs a = a" using adverts_ignored [OF assms(3)] by blast
  then show False using assms(1,2) by (simp add: scan_timer_def)
qed

lemma adverts_while_connected:
  assumes "g_conn a = Some c" "\<forall>e\<in>set evs. e = Scan_timeout \<or> (\<exists>x ad sr cr c. e = Device_found x ad sr cr c)"
  shows "g_conn (bt_handles L evs a) = Some c \<and>
    (\<exists>n. bt_log (bt_handles L evs a) = bt_log a @ replicate n Scan_stop) \<and>
    first_verdict L evs a = (if Scan_timeout \<in> set evs then Some (- ETIMEDOUT) else None)"
  using assms
proof (induction evs arbitrary: a)
  case Nil
  then show ?case by (auto intro: exI [of _ 0])
next
  case (Cons e evs)
  from Cons.prems(2) consider "e = Scan_timeout" | x ad sr cr d where "e = Device_found x ad sr cr d" by auto
  then show ?case
  proof cases
    case 1
    let ?a = "bt_handle L e a"
    have "g_conn ?a = Some c" "bt_log ?a = bt_log a @ [Scan_stop]"
      using Cons.prems(1) 1 by (simp_all add: scan_timeout_handler_def Let_def)
    then show ?thesis using Cons.IH [of ?a] Cons.prems(2) 1 by (auto intro: exI [of _ "Suc _"])
  next
    case 2
    then have "bt_handle L e a = a" "verdict L a e = None"
      using Cons.prems(1) by (simp_all add: device_found_eq asks_iff)
    then show ?thesis using Cons.IH [of a] Cons.prems 2 by auto
  qed
qed

text \<open>No request to disconnect was made between the states.\<close>

definition no_disconnect :: "app \<Rightarrow> app \<Rightarrow> bool" where
  "no_disconnect a a' \<longleftrightarrow> (\<exists>new. bt_log a' = bt_log a @ new \<and> (\<forall>c. Disconnect c \<notin> set new))"

lemma connect_while_connected:
  assumes "g_conn a = Some c" "scan_rc E = 0" "only_adverts (connect_events E)"
    and "connect_events E = map snd tevs" "scan_timer L SCAN_TIMEOUT CONNECT_TIMEOUT tevs (attempt need a)"
  shows "\<exists>a'. connect_to_lock L need E a = (- ETIMEDOUT, a') \<and> g_conn a' = Some c \<and> no_disconnect a a'"
proof -
  let ?b = "bt_handles L (connect_events E) (attempt need a)"
  have b: "g_conn ?b = Some c" "\<exists>n. bt_log ?b = bt_log (attempt need a) @ replicate n Scan_stop"
    "first_verdict L (connect_events E) (attempt need a) = Some (- ETIMEDOUT)"
    using adverts_while_connected [of "attempt need a" c "connect_events E" L] assms(1,3)
      scan_timer_runs [OF assms(5)] assms(4) by (simp_all add: only_adverts_def attempt_def [of need])
  show ?thesis
  proof (cases rule: connect_to_lock_cases [of E L need a])
    case (verdict r)
    then show ?thesis using b by (auto simp: no_disconnect_def)
  qed (use assms b in simp_all)
qed

text \<open>The lock is found and connects, but does not have the Keyturner characteristic.\<close>

lemma connect_without_usdio:
  assumes L: "bt_lib_ok L" and p: "nuki_storage_get_pairing (g_storage a) = Some p" and "g_conn a = None"
    and E: "scan_rc E = 0" "dm (nuki_keyturner_usdio_uuid L) = None"
      "connect_events E = [Device_found (addr p) ad 0 0 c, Connected c 0 0, Usdio_discovered c dm 0]"
  shows "\<exists>a'. connect_to_lock L False E a = (- ENOTSUP, a') \<and> g_conn a' = Some c \<and> no_disconnect a a'"
proof -
  let ?a = "attempt False a"
  have m: "matches L (addr p) ad ?a" using L p by (simp add: matches_def bt_lib_ok_def)
  have v: "first_verdict L (connect_events E) ?a = Some (- ENOTSUP)"
    and b: "g_conn (bt_handles L (connect_events E) ?a) = Some c"
      "bt_log (bt_handles L (connect_events E) ?a) = bt_log ?a @ [Scan_stop, Conn_create (addr p), Dm_start c (nuki_keyturner_service_uuid L)]"
    using m assms by (simp_all add: asks_iff device_found_eq connected_def start_discovery_def discover_keyturner_service_def
        usdio_discovered_def Let_def)
  show ?thesis
  proof (cases rule: connect_to_lock_cases [of E L False a])
    case (verdict r)
    then show ?thesis using b v by (auto simp: no_disconnect_def)
  qed (use E(1) v in simp_all)
qed

section \<open>The poller\<close>

lemma poll_round_cases:
  assumes "state_poll_round L B E a = (n, a')"
  shows "n = STATE_POLL_RETRY_SEC \<and> g_state_poll_retries a < 3 \<and> g_state_poll_retries a' = g_state_poll_retries a + 1 \<or>
         n = STATE_POLL_INTERVAL_SEC \<and> g_state_poll_retries a' \<in> {0, g_state_poll_retries a}"
proof (cases "nuki_app_is_paired a")
  case True
  obtain r a1 where g: "nuki_app_get_state L B E a = (r, a1)" by fastforce
  obtain a2 where l: "get_state_locked L B E (a\<lparr>g_op_lock := True\<rparr>) = (r, a2)" "a1 = a2\<lparr>g_op_lock := False\<rparr>"
    using public_ops(1) [OF g] by blast
  obtain p where p: "nuki_storage_get_pairing (g_storage (a\<lparr>g_op_lock := True\<rparr>)) = Some p"
    using True by (auto simp: nuki_app_is_paired_def)
  from p l(1) have "g_state_poll_retries a2 = g_state_poll_retries (a\<lparr>g_op_lock := True\<rparr>)"
  proof (cases rule: get_state_locked_cases)
    case (refused e)
    show ?thesis using connect_frame(4) [OF refused(3)] .
  next
    case (served a3 s)
    then show ?thesis using connect_frame(4) [OF served(1)] by simp
  qed
  then have "g_state_poll_retries a1 = g_state_poll_retries a" using l(2) by simp
  then show ?thesis
    using assms True g by (cases r; cases "g_state_poll_retries a < 3") (auto simp: state_poll_round_def)
qed (use assms in \<open>simp add: state_poll_round_def\<close>)

text \<open>The retry counter belongs to the poller: no other thread writes it.\<close>

definition keeps_retries :: "(app \<Rightarrow> app) \<Rightarrow> bool" where
  "keeps_retries f \<longleftrightarrow> (\<forall>a. g_state_poll_retries (f a) = g_state_poll_retries a)"

lemma retries_unat: "r < (3 :: u8) \<Longrightarrow> unat (r + 1) = unat r + 1" "r < (3 :: u8) \<Longrightarrow> unat r < 3"
  by (simp_all add: word_less_nat_alt unat_word_ariths)

lemma poll_sleeps_short:
  assumes "\<forall>x\<in>set rounds. keeps_retries (fst x)"
    and "state_poll_thread_fn L B rounds a = (sleeps, a')" "g_state_poll_retries a \<le> 3"
    and "3 - unat (g_state_poll_retries a) < length sleeps"
  shows "\<exists>j\<le>3 - unat (g_state_poll_retries a). sleeps ! j = STATE_POLL_INTERVAL_SEC"
  using assms
proof (induction rounds arbitrary: a sleeps a')
  case (Cons fE rounds)
  obtain f E where fE: "fE = (f, E)" by fastforce
  obtain n a1 where r: "state_poll_round L B E (f a) = (n, a1)" by fastforce
  obtain sl a2 where t: "state_poll_thread_fn L B rounds a1 = (sl, a2)" by fastforce
  have s: "sleeps = n # sl" using Cons.prems(2) fE r t by simp
  have f: "g_state_poll_retries (f a) = g_state_poll_retries a" using Cons.prems(1) fE by (simp add: keeps_retries_def)
  from poll_round_cases [OF r] show ?case
  proof (elim disjE conjE)
    assume n: "g_state_poll_retries (f a) < 3" "g_state_poll_retries a1 = g_state_poll_retries (f a) + 1"
    then have u: "unat (g_state_poll_retries a1) = unat (g_state_poll_retries a) + 1" "unat (g_state_poll_retries a) < 3"
      using f retries_unat [of "g_state_poll_retries a"] by simp_all
    have "\<exists>j\<le>3 - unat (g_state_poll_retries a1). sl ! j = STATE_POLL_INTERVAL_SEC"
    proof (rule Cons.IH [OF _ t])
      show "g_state_poll_retries a1 \<le> 3" using n f retries_step by simp
      show "3 - unat (g_state_poll_retries a1) < length sl" using Cons.prems(4) s u by simp
    qed (use Cons.prems(1) in simp)
    then obtain j where "j \<le> 3 - unat (g_state_poll_retries a1)" "sl ! j = STATE_POLL_INTERVAL_SEC" by blast
    then show ?thesis using s u by (intro exI [of _ "Suc j"]) simp
  next
    assume "n = STATE_POLL_INTERVAL_SEC"
    then show ?thesis using s by (intro exI [of _ 0]) simp
  qed
qed simp

lemma poll_sleeps_any:
  assumes "\<forall>x\<in>set rounds. keeps_retries (fst x)"
    and "state_poll_thread_fn L B rounds a = (sleeps, a')" "g_state_poll_retries a \<le> 3" "i + 3 < length sleeps"
  shows "\<exists>j\<le>3. sleeps ! (i + j) = STATE_POLL_INTERVAL_SEC"
  using assms
proof (induction rounds arbitrary: a sleeps a' i)
  case (Cons fE rounds)
  show ?case
  proof (cases i)
    case 0
    then have "3 - unat (g_state_poll_retries a) < length sleeps" using Cons.prems(4) by simp
    from poll_sleeps_short [OF Cons.prems(1-3) this] show ?thesis using 0 by (metis add_0 diff_le_self le_trans)
  next
    case (Suc i')
    obtain f E where fE: "fE = (f, E)" by fastforce
    obtain n a1 where r: "state_poll_round L B E (f a) = (n, a1)" by fastforce
    obtain sl a2 where t: "state_poll_thread_fn L B rounds a1 = (sl, a2)" by fastforce
    have s: "sleeps = n # sl" using Cons.prems(2) fE r t by simp
    have f: "g_state_poll_retries (f a) = g_state_poll_retries a" using Cons.prems(1) fE by (simp add: keeps_retries_def)
    have "g_state_poll_retries a1 \<le> 3" using poll_round_cases [OF r] Cons.prems(3) f retries_step by auto
    from Cons.IH [OF _ t this, of i'] show ?thesis using Cons.prems(1,4) s Suc by simp
  qed
qed simp

lemma poll_sleeps_values:
  "state_poll_thread_fn L B rounds a = (sleeps, a') \<Longrightarrow>
   set sleeps \<subseteq> {STATE_POLL_RETRY_SEC, STATE_POLL_INTERVAL_SEC} \<and> length sleeps = length rounds"
proof (induction rounds arbitrary: a sleeps a')
  case (Cons fE rounds)
  obtain f E where fE: "fE = (f, E)" by fastforce
  obtain n a1 where r: "state_poll_round L B E (f a) = (n, a1)" by fastforce
  obtain sl a2 where t: "state_poll_thread_fn L B rounds a1 = (sl, a2)" by fastforce
  have "sleeps = n # sl" using Cons.prems fE r t by simp
  then show ?case using Cons.IH [OF t] poll_round_cases [OF r] by auto
qed simp

section \<open>Properties\<close>

text \<open>
  C20: only the paired lock is called: once a pairing is stored, every connection request of a state query, a lock action or a
  calibration goes to the stored address, whatever is advertised; without a pairing these operations return
  \<open>-ENOENT\<close> without touching the radio, and a scan only dials a device whose advertisement carries the
  Keyturner service UUID or a name that begins with \<open>Nuki_\<close>.
\<close>

theorem only_paired_lock:
  assumes "bt_lib_ok L"
  shows "case nuki_storage_get_pairing (g_storage a) of
      Some p \<Rightarrow>
        dialled a (snd (nuki_app_get_state L B E a)) \<subseteq> {addr p} \<and>
        dialled a (snd (nuki_app_lock_action L B action E a)) \<subseteq> {addr p} \<and>
        dialled a (snd (nuki_app_calibrate L B pin E a)) \<subseteq> {addr p}
    | None \<Rightarrow>
        nuki_app_get_state L B E a = (Inl (- ENOENT), a\<lparr>g_op_lock := False\<rparr>) \<and>
        nuki_app_lock_action L B action E a = (- ENOENT, a\<lparr>g_op_lock := False\<rparr>) \<and>
        nuki_app_calibrate L B pin E a = (- ENOENT, a\<lparr>g_op_lock := False\<rparr>) \<and>
        (x \<in> dialled a (device_found L x ad stop_rc create_rc c a) \<longrightarrow>
           (\<exists>d\<in>set ad. carries_uuid (nuki_keyturner_service_uuid L) d) \<or>
           (\<exists>d\<in>set ad. is_name d \<and> take 5 (snd d) = NUKI_NAME_PREFIX))"
proof (cases "nuki_storage_get_pairing (g_storage a)")
  case None
  have u: "length (nuki_keyturner_service_uuid L) = 16"
    using assms by (simp add: nuki_keyturner_service_uuid_def bt_lib_ok_def)
  have n: "\<exists>d\<in>set ad. is_name d \<and> take 5 (snd d) = NUKI_NAME_PREFIX" if "ad_has_nuki_name ad"
    using that by (auto simp: ad_has_nuki_name_iff find_Some_iff split: option.splits)
  have "matches L x ad a" if "x \<in> dialled a (device_found L x ad stop_rc create_rc c a)"
    using that by (auto simp: dialled_def device_found_eq Let_def split: if_splits)
  then show ?thesis
    using None n ad_has_uuid_iff [OF assms u, of ad]
    by (auto simp: nuki_app_get_state_def get_state_locked_def nuki_app_lock_action_def lock_action_locked_def
        nuki_app_calibrate_def calibrate_locked_def matches_def)
next
  case (Some p)
  let ?a = "a\<lparr>g_op_lock := True\<rparr>"
  have eq: "snd (nuki_app_get_state L B E a) = (snd (get_state_locked L B E ?a))\<lparr>g_op_lock := False\<rparr>"
    "snd (nuki_app_lock_action L B action E a) = (snd (lock_action_locked L B action E ?a))\<lparr>g_op_lock := False\<rparr>"
    "snd (nuki_app_calibrate L B pin E a) = (snd (calibrate_locked L B pin E ?a))\<lparr>g_op_lock := False\<rparr>"
    by (simp_all add: nuki_app_get_state_def nuki_app_lock_action_def nuki_app_calibrate_def Let_def split: prod.split)
  have d: "dialled a (b\<lparr>g_op_lock := False\<rparr>) \<subseteq> {addr p}" if "calls (accepted L (g_storage ?a)) ?a b" for b
  proof -
    have "calls (accepted L (g_storage a)) a (b\<lparr>g_op_lock := False\<rparr>)" using calls_log [OF that] by simp
    then show ?thesis using calls_dialled accepted_paired [OF assms Some] by metis
  qed
  have p: "nuki_storage_get_pairing (g_storage ?a) = Some p" using Some by simp
  show ?thesis unfolding eq Some option.case by (intro conjI d locked_calls [OF p])
qed

theorem only_paired_lock_witness:
  "dialled (app_boot demo_storage) (snd (nuki_app_lock_action demo_lib le_byteorder 1 (demo_env []) (app_boot demo_storage)))
     \<subseteq> {replicate 7 1}"
proof -
  have p: "nuki_storage_get_pairing (g_storage (app_boot demo_storage)) = Some (pairing demo_storage)"
    "addr (pairing demo_storage) = replicate 7 1"
    by (simp_all add: app_boot_def demo_storage_def nuki_storage_get_pairing_def)
  show ?thesis
    using only_paired_lock [OF demo_lib_ok, where a = "app_boot demo_storage" and B = le_byteorder and E = "demo_env []" and action = 1]
    unfolding p option.case by blast
qed

text \<open>
  C5: a lock action end to end: whatever the radio, the host and the lock do, one call puts at most one LOCK_ACTION on the air, and
  only after a challenge sealed under the stored key arrived in this very connection; the message carries the requested action,
  the stored application id and that challenge. The result is 0 only if a sealed Status COMPLETE arrived
  afterwards. The cache changes only on success, and then to a state decoded from a sealed message of the same exchange.
\<close>

theorem app_lock_action_safety:
  assumes "byteorder_ok B" "app_ok a" "nuki_storage_get_pairing (g_storage a) = Some p"
    and "nuki_app_lock_action L B action E a = (rc, a')"
  shows "rc \<noteq> 0 \<and> air a' = air a \<and> same_cache a a' \<or>
    (\<exists>w1. rc \<noteq> 0 \<and> air a' = air a @ [w1] \<and> same_cache a a' \<and>
       is_wire (shared_key p) (auth_id p) NUKI_CMD_REQUEST_DATA (le16 NUKI_CMD_CHALLENGE) w1) \<or>
    (\<exists>w1 w2 nk e1 e2 e3. lock_inbound E = e1 @ e2 @ e3 \<and> air a' = air a @ [w1, w2] \<and> length nk = 32 \<and>
       is_wire (shared_key p) (auth_id p) NUKI_CMD_REQUEST_DATA (le16 NUKI_CMD_CHALLENGE) w1 \<and>
       got_message (shared_key p) [] e1 NUKI_CMD_CHALLENGE nk \<and>
       is_wire (shared_key p) (auth_id p) NUKI_CMD_LOCK_ACTION ([action] @ le32 (app_id p) @ [0] @ nk) w2 \<and>
       (rc = 0 \<longrightarrow> got_during (shared_key p) e2 NUKI_CMD_STATUS [NUKI_STATUS_COMPLETE]) \<and>
       (same_cache a a' \<or>
        rc = 0 \<and> (\<exists>q st. got_during (shared_key p) e2 NUKI_CMD_KEYTURNER_STATES q \<and>
                    nuki_keyturner_state_parse B q = Inr st \<and> cached st (uptime E) a')))"
  using assms by (rule lock_action_end_to_end)

theorem app_lock_action_safety_witness:
  "\<exists>rc a'. nuki_app_lock_action demo_lib le_byteorder 1 (demo_env []) (app_boot demo_storage) = (rc, a') \<and> rc \<noteq> 0 \<and>
     length (air a') \<le> 2"
proof -
  let ?p = "pairing demo_storage" and ?a = "app_boot demo_storage"
  have p: "nuki_storage_get_pairing (g_storage ?a) = Some ?p"
    by (simp add: app_boot_def demo_storage_def nuki_storage_get_pairing_def)
  obtain rc a' where r: "nuki_app_lock_action demo_lib le_byteorder 1 (demo_env []) ?a = (rc, a')" by fastforce
  have "length (shared_key ?p) = 32" "lock_inbound (demo_env []) = []" "air ?a = []"
    by (simp_all add: demo_storage_def demo_env_def app_boot_def)
  moreover from this(1) have "\<not> got_message (shared_key ?p) [] [] c q" for c q
    using is_wire_length [of "shared_key ?p"] by (fastforce simp: got_message_def fronts_def)
  ultimately show ?thesis
    using app_lock_action_safety [OF le_byteorder_ok app_ok_boot [OF demo_storage_ok] p r] r by auto
qed

text \<open>
  With the lock in range, a lock action goes through: if the lock is found among the advertisements, connects, offers the
  Keyturner characteristic and answers the challenge request and the action, in any fragmentation, then the operation ends
  with the outcome of the lock's status sequence, the pushed state is in the cache, and the connection is closed and
  every reference released, so that the next operation starts from the same situation.
\<close>

theorem app_lock_action_live:
  assumes "bt_lib_ok L" "byteorder_ok B" "app_ok a" "conn_inv Down a"
    and "nuki_storage_get_pairing (g_storage a) = Some p"
    and "scan_rc E = 0" "in_range L p c (connect_events E)" "op_events E = []" "disconnect_events E = [Disconnected c]"
    and "lock_writes E = o1 # o2 # os" "write_ok o1" "write_ok o2"
    and "wires (shared_key p) ((NUKI_CMD_CHALLENGE, nk) # ms) ws" "delivers ws (lock_inbound E)" "length nk = 32"
    and "drain_msgs 10 B ms True None = Some (rc, cap)"
  shows "\<exists>a'. nuki_app_lock_action L B action E a = (rc, a') \<and> conn_inv Down a' \<and> app_ok a' \<and>
     length (air a') = length (air a) + 2 \<and>
     (case cap of Some st \<Rightarrow> rc = 0 \<longrightarrow> cached st (uptime E) a' | None \<Rightarrow> same_cache a a')"
proof -
  let ?a = "a\<lparr>g_op_lock := True\<rparr>"
  have a: "app_ok ?a" "conn_inv Down ?a" "nuki_storage_get_pairing (g_storage ?a) = Some p"
    using assms(3-5) by (simp_all add: conn_inv_def)
  obtain a1 where a1: "lock_action_locked L B action E ?a = (rc, a1)" "conn_inv Down a1" "length (air a1) = length (air ?a) + 2"
    "case cap of Some st \<Rightarrow> rc = 0 \<longrightarrow> cached st (uptime E) a1 | None \<Rightarrow> same_cache ?a a1"
    using lock_action_locked_live [OF assms(1,2) a assms(6-16)] by blast
  have r: "nuki_app_lock_action L B action E a = (rc, a1\<lparr>g_op_lock := False\<rparr>)"
    using a1(1) by (simp add: nuki_app_lock_action_def)
  have "app_ok (a1\<lparr>g_op_lock := False\<rparr>)" using public_ops_app_ok(2) [OF assms(3) r] by simp
  then show ?thesis
    using r a1(2-4) by (intro exI [of _ "a1\<lparr>g_op_lock := False\<rparr>"])
      (auto simp: conn_inv_def cached_def same_cache_def split: option.splits)
qed

theorem app_lock_action_live_witness:
  "\<exists>ws a'. nuki_app_lock_action demo_lib le_byteorder 2 (demo_env ws) (app_boot demo_storage) = (0, a') \<and> conn_inv Down a'"
proof -
  obtain ws where ws: "wires (shared_key (pairing demo_storage)) [(NUKI_CMD_CHALLENGE, replicate 32 5), (NUKI_CMD_STATUS, [NUKI_STATUS_COMPLETE])] ws"
    using demo_wires by blast
  note E = demo_in_range [of ws]
  show ?thesis
    using app_lock_action_live [OF demo_lib_ok le_byteorder_ok app_ok_boot [OF demo_storage_ok] demo_down demo_paired E(1-5) demo_write_ok demo_write_ok
        ws E(6) _ demo_drain, of 2] by auto
qed

text \<open>
  C27: a failed discovery keeps the lock's only connection: if the lock connects but the Keyturner characteristic is
  missing, a state query, a lock action or a calibration returns \<open>-ENOTSUP\<close> without disconnecting, although operations are meant to leave
  the connection free. And as long as that connection lasts and only advertisements come in, every later operation, whichever of the four, fails with
  \<open>-ETIMEDOUT\<close> and still holds the connection, without asking for a disconnection: the scan callback ignores advertisements, and
  the scan timeout (15 s), whose handler the kernel runs when it is due, comes before the connect timeout (20 s), the only one that disconnects.
\<close>

theorem leaked_connection_blocks:
  assumes "nuki_storage_get_pairing (g_storage a) = Some p" "scan_rc E = 0"
  shows "(bt_lib_ok L \<and> g_conn a = None \<and> dm (nuki_keyturner_usdio_uuid L) = None \<and>
          connect_events E = [Device_found (addr p) ad 0 0 c, Connected c 0 0, Usdio_discovered c dm 0] \<longrightarrow>
          (\<exists>a'. nuki_app_get_state L B E a = (Inl (- ENOTSUP), a') \<and> nuki_app_lock_action L B action E a = (- ENOTSUP, a') \<and>
                nuki_app_calibrate L B pin E a = (- ENOTSUP, a') \<and> g_conn a' = Some c \<and> no_disconnect a a')) \<and>
         (g_conn a = Some c \<and> only_adverts (connect_events E) \<and> connect_events E = map snd tevs \<and>
          (\<forall>need. scan_timer L SCAN_TIMEOUT CONNECT_TIMEOUT tevs (attempt need (a\<lparr>g_op_lock := True\<rparr>))) \<longrightarrow>
          (\<exists>a'. nuki_app_get_state L B E a = (Inl (- ETIMEDOUT), a') \<and> nuki_app_lock_action L B action E a = (- ETIMEDOUT, a') \<and>
                nuki_app_calibrate L B pin E a = (- ETIMEDOUT, a') \<and> g_conn a' = Some c \<and> no_disconnect a a') \<and>
          (\<exists>a'. nuki_app_pair L B P S E (a, ps, flash) = (- ETIMEDOUT, a', ps, flash) \<and> g_conn a' = Some c \<and> no_disconnect a a'))"
proof -
  let ?a = "a\<lparr>g_op_lock := True\<rparr>"
  have p: "nuki_storage_get_pairing (g_storage ?a) = Some p" using assms(1) by simp
  have served: "\<exists>a'. nuki_app_get_state L B E a = (Inl r, a') \<and> nuki_app_lock_action L B action E a = (r, a') \<and>
      nuki_app_calibrate L B pin E a = (r, a') \<and> g_conn a' = Some c \<and> no_disconnect a a'"
    if c: "\<exists>b. connect_to_lock L False E ?a = (r, b) \<and> g_conn b = Some c \<and> no_disconnect ?a b" and "r \<noteq> 0" for r
  proof -
    obtain b where b: "connect_to_lock L False E ?a = (r, b)" "g_conn b = Some c" "no_disconnect ?a b" using c by blast
    then show ?thesis
      using p \<open>r \<noteq> 0\<close> by (intro exI [of _ "b\<lparr>g_op_lock := False\<rparr>"])
        (simp add: nuki_app_get_state_def get_state_locked_def nuki_app_lock_action_def lock_action_locked_def
          nuki_app_calibrate_def calibrate_locked_def no_disconnect_def)
  qed
  have paired: "\<exists>a'. nuki_app_pair L B P S E (a, ps, flash) = (r, a', ps, flash) \<and> g_conn a' = Some c \<and> no_disconnect a a'"
    if c: "\<exists>b. connect_to_lock L True E ?a = (r, b) \<and> g_conn b = Some c \<and> no_disconnect ?a b" and "r \<noteq> 0" for r
  proof -
    obtain b where b: "connect_to_lock L True E ?a = (r, b)" "g_conn b = Some c" "no_disconnect ?a b" using c by blast
    then show ?thesis
      using \<open>r \<noteq> 0\<close> by (intro exI [of _ "b\<lparr>g_op_lock := False\<rparr>"])
        (simp add: nuki_app_pair_def pair_locked_def no_disconnect_def)
  qed
  show ?thesis
  proof (intro conjI impI; elim conjE)
    assume "bt_lib_ok L" "g_conn a = None" "dm (nuki_keyturner_usdio_uuid L) = None"
      "connect_events E = [Device_found (addr p) ad 0 0 c, Connected c 0 0, Usdio_discovered c dm 0]"
    then show "\<exists>a'. nuki_app_get_state L B E a = (Inl (- ENOTSUP), a') \<and> nuki_app_lock_action L B action E a = (- ENOTSUP, a') \<and>
        nuki_app_calibrate L B pin E a = (- ENOTSUP, a') \<and> g_conn a' = Some c \<and> no_disconnect a a'"
      using connect_without_usdio [OF _ p, of L E dm ad c] assms(2) by (intro served) simp_all
  next
    assume h: "g_conn a = Some c" "only_adverts (connect_events E)" "connect_events E = map snd tevs"
      "\<forall>need. scan_timer L SCAN_TIMEOUT CONNECT_TIMEOUT tevs (attempt need ?a)"
    have c: "\<exists>b. connect_to_lock L need E ?a = (- ETIMEDOUT, b) \<and> g_conn b = Some c \<and> no_disconnect ?a b" for need
      using h by (intro connect_while_connected [OF _ assms(2) h(2,3)]) simp_all
    show "\<exists>a'. nuki_app_get_state L B E a = (Inl (- ETIMEDOUT), a') \<and> nuki_app_lock_action L B action E a = (- ETIMEDOUT, a') \<and>
        nuki_app_calibrate L B pin E a = (- ETIMEDOUT, a') \<and> g_conn a' = Some c \<and> no_disconnect a a'"
      by (rule served [OF c]) simp
    show "\<exists>a'. nuki_app_pair L B P S E (a, ps, flash) = (- ETIMEDOUT, a', ps, flash) \<and> g_conn a' = Some c \<and> no_disconnect a a'"
      by (rule paired [OF c]) simp
  qed
qed

theorem leaked_connection_blocks_witness:
  "\<exists>a' a''. nuki_app_lock_action demo_lib le_byteorder 1 (demo_env []\<lparr>connect_events := [Scan_timeout]\<rparr>)
      (app_boot demo_storage\<lparr>g_conn := Some 7\<rparr>) = (- ETIMEDOUT, a') \<and> g_conn a' = Some 7 \<and>
    nuki_app_pair demo_lib le_byteorder demo_psa demo_settings (demo_env []\<lparr>connect_events := [Scan_timeout]\<rparr>)
      (app_boot demo_storage\<lparr>g_conn := Some 7\<rparr>, [], []) = (- ETIMEDOUT, a'', [], []) \<and> g_conn a'' = Some 7"
proof -
  let ?a = "app_boot demo_storage\<lparr>g_conn := Some 7\<rparr>" and ?E = "demo_env []\<lparr>connect_events := [Scan_timeout]\<rparr>"
  have h: "nuki_storage_get_pairing (g_storage ?a) = Some (pairing demo_storage)" "scan_rc ?E = 0"
    by (simp_all add: app_boot_def demo_storage_def nuki_storage_get_pairing_def demo_env_def)
  have t: "scan_timer demo_lib SCAN_TIMEOUT CONNECT_TIMEOUT [(15, Scan_timeout)] (attempt need (?a\<lparr>g_op_lock := True\<rparr>))" for need
    by (simp add: scan_timer_def scan_timeout_handler_def finish_connect_attempt_def host_def Let_def)
  have "g_conn ?a = Some 7 \<and> only_adverts (connect_events ?E) \<and> connect_events ?E = map snd [(15, Scan_timeout)] \<and>
      (\<forall>need. scan_timer demo_lib SCAN_TIMEOUT CONNECT_TIMEOUT [(15, Scan_timeout)] (attempt need (?a\<lparr>g_op_lock := True\<rparr>)))"
    using t by (simp add: only_adverts_def)
  note leaked_connection_blocks [OF h, where L = demo_lib and B = le_byteorder and action = 1 and c = 7 and tevs = "[(15, Scan_timeout)]"
      and P = demo_psa and S = demo_settings and ps = "[]" and flash = "[]", THEN conjunct2, rule_format, OF this]
  then show ?thesis by blast
qed

text \<open>
  C28: the poller neither spins nor stalls: it sleeps 3 s or 15 min after each iteration, and among any four successive sleeps there is
  one of 15 min, so at most three quick retries follow each other, whatever the other threads do and whichever polls fail.
\<close>

theorem poll_bounded_retries:
  assumes "\<forall>x\<in>set rounds. keeps_retries (fst x)" "g_state_poll_retries a \<le> STATE_POLL_MAX_RETRIES"
    and "state_poll_thread_fn L B rounds a = (sleeps, a')"
  shows "length sleeps = length rounds \<and> set sleeps \<subseteq> {3, 900} \<and>
         (\<forall>i. i + 3 < length sleeps \<longrightarrow> (\<exists>j\<le>3. sleeps ! (i + j) = 900))"
  using poll_sleeps_values [OF assms(3)] poll_sleeps_any [OF assms(1,3,2)] by simp

theorem poll_bounded_retries_witness:
  "\<exists>j\<le>3. fst (state_poll_thread_fn demo_lib le_byteorder (replicate 4 (id, demo_env [])) (app_boot demo_storage)) ! j = 900"
proof -
  let ?r = "replicate 4 (id :: app \<Rightarrow> app, demo_env [])"
  obtain sl a' where s: "state_poll_thread_fn demo_lib le_byteorder ?r (app_boot demo_storage) = (sl, a')" by fastforce
  have k: "\<forall>x\<in>set ?r. keeps_retries (fst x)" "g_state_poll_retries (app_boot demo_storage) \<le> 3"
    by (simp_all add: keeps_retries_def app_boot_def)
  show ?thesis using poll_bounded_retries [OF k s, THEN conjunct2, THEN conjunct2, rule_format, of 0]
      poll_bounded_retries [OF k s, THEN conjunct1] s by simp
qed

end
