(* ===== verification/Nuki_Uart_Frame.thy ===== *)
theory Nuki_Uart_Frame
  imports Nuki_Prelude
begin

text \<open>
  The framing half of \<open>src/src/nuki_uart_proto.c\<close> and \<open>nuki_uart_proto.h\<close>: the byte-at-a-time
  receive state machine of the UART interrupt handler, and the building of response frames.

  The interrupt handler hands each complete frame to the kernel's message queue; the queue is not
  part of the repository and is the argument \<open>k_msgq_put\<close>. The bytes that \<open>uart_fifo_read\<close> returns
  during one interrupt, and the answers of \<open>uart_irq_update\<close> and \<open>uart_irq_rx_ready\<close>, are inputs.

  The lemmas show that the payload index stays in the buffer for every input, that the state
  machine is the streaming form of a parser on the whole input, and that it recovers from garbage.
\<close>

section \<open>The code\<close>

abbreviation NUKI_UART_FRAME_SOF_REQ :: u8 where "NUKI_UART_FRAME_SOF_REQ \<equiv> 0xA5"
abbreviation NUKI_UART_FRAME_SOF_RESP :: u8 where "NUKI_UART_FRAME_SOF_RESP \<equiv> 0x5A"
abbreviation NUKI_UART_MAX_PAYLOAD :: nat where "NUKI_UART_MAX_PAYLOAD \<equiv> 32"

record rx_frame =
  f_cmd :: u8
  f_len :: u8
  f_payload :: bytes

datatype rx_state = RX_WAIT_SOF | RX_WAIT_CMD | RX_WAIT_LEN | RX_WAIT_PAYLOAD

text \<open>The static variables of the receiver: \<open>rx_state\<close>, \<open>rx_frame\<close>, \<open>rx_payload_pos\<close>.\<close>

record uart_rx =
  r_state :: rx_state
  r_frame :: rx_frame
  rx_payload_pos :: u8

definition uart_rx_boot :: uart_rx where
  "uart_rx_boot =
     \<lparr>r_state = RX_WAIT_SOF,
      r_frame = \<lparr>f_cmd = 0, f_len = 0, f_payload = replicate NUKI_UART_MAX_PAYLOAD 0\<rparr>,
      rx_payload_pos = 0\<rparr>"

text \<open>One iteration of the interrupt handler's loop: the receiver and the queue after byte \<open>c\<close>.\<close>

definition serial_byte :: "('q \<Rightarrow> rx_frame \<Rightarrow> 'q) \<Rightarrow> u8 \<Rightarrow> uart_rx \<times> 'q \<Rightarrow> uart_rx \<times> 'q" where
  "serial_byte k_msgq_put c rq =
     (case rq of (r, q) \<Rightarrow>
        (case r_state r of
           RX_WAIT_SOF \<Rightarrow>
             if c = NUKI_UART_FRAME_SOF_REQ then (r\<lparr>r_state := RX_WAIT_CMD\<rparr>, q) else (r, q)
         | RX_WAIT_CMD \<Rightarrow>
             (r\<lparr>r_frame := (r_frame r)\<lparr>f_cmd := c\<rparr>, r_state := RX_WAIT_LEN\<rparr>, q)
         | RX_WAIT_LEN \<Rightarrow>
             if unat c > NUKI_UART_MAX_PAYLOAD then (r\<lparr>r_state := RX_WAIT_SOF\<rparr>, q)
             else
               let r = r\<lparr>r_frame := (r_frame r)\<lparr>f_len := c\<rparr>, rx_payload_pos := 0\<rparr>
               in if f_len (r_frame r) = 0
                  then (r\<lparr>r_state := RX_WAIT_SOF\<rparr>, k_msgq_put q (r_frame r))
                  else (r\<lparr>r_state := RX_WAIT_PAYLOAD\<rparr>, q)
         | RX_WAIT_PAYLOAD \<Rightarrow>
             let f = r_frame r;
                 r = r\<lparr>r_frame := f\<lparr>f_payload := (f_payload f)[unat (rx_payload_pos r) := c]\<rparr>,
                       rx_payload_pos := rx_payload_pos r + 1\<rparr>
             in if rx_payload_pos r = f_len (r_frame r)
                then (r\<lparr>r_state := RX_WAIT_SOF\<rparr>, k_msgq_put q (r_frame r))
                else (r, q)))"

definition serial_cb ::
    "('q \<Rightarrow> rx_frame \<Rightarrow> 'q) \<Rightarrow> bool \<Rightarrow> bool \<Rightarrow> bytes \<Rightarrow> uart_rx \<times> 'q \<Rightarrow> uart_rx \<times> 'q" where
  "serial_cb k_msgq_put irq_update rx_ready fifo rq =
     (if \<not> irq_update \<or> \<not> rx_ready then rq else fold (serial_byte k_msgq_put) fifo rq)"

text \<open>The bytes handed to \<open>uart_poll_out\<close>; the first \<open>len\<close> bytes of the response structure are sent.\<close>

definition send_frame :: "u8 \<Rightarrow> bytes \<Rightarrow> u8 \<Rightarrow> bytes" where
  "send_frame cmd payload len =
     [NUKI_UART_FRAME_SOF_RESP, cmd, len] @ (if len \<noteq> 0 then take (unat len) payload else [])"

section \<open>The receiver's invariant\<close>

definition uart_rx_ok :: "uart_rx \<Rightarrow> bool" where
  "uart_rx_ok r \<longleftrightarrow>
     length (f_payload (r_frame r)) = NUKI_UART_MAX_PAYLOAD \<and>
     (r_state r = RX_WAIT_PAYLOAD \<longrightarrow>
        rx_payload_pos r < f_len (r_frame r) \<and> unat (f_len (r_frame r)) \<le> NUKI_UART_MAX_PAYLOAD)"

text \<open>What a client of the queue looks at: the command and the valid part of the payload.\<close>

definition frame_of :: "rx_frame \<Rightarrow> u8 \<times> bytes" where
  "frame_of f = (f_cmd f, take (unat (f_len f)) (f_payload f))"

lemma uart_rx_boot_ok [simp]: "uart_rx_ok uart_rx_boot"
  by (simp add: uart_rx_ok_def uart_rx_boot_def)

lemma unat_less_u8: "x < y \<longleftrightarrow> unat x < unat y" for x y :: u8
  by (simp add: word_less_nat_alt)

lemma unat_inc_u8: "unat x < 255 \<Longrightarrow> unat (x + 1 :: u8) = unat x + 1"
  by (simp add: unat_word_ariths)

lemma serial_byte_ok: "uart_rx_ok r \<Longrightarrow> serial_byte put c (r, q) = (r', q') \<Longrightarrow> uart_rx_ok r'"
proof (cases "r_state r = RX_WAIT_PAYLOAD")
  case True
  assume ok: "uart_rx_ok r" and s: "serial_byte put c (r, q) = (r', q')"
  then have p: "unat (rx_payload_pos r) < unat (f_len (r_frame r))" "unat (f_len (r_frame r)) \<le> 32"
    using True by (simp_all add: uart_rx_ok_def unat_less_u8)
  then have i: "unat (rx_payload_pos r + 1) = unat (rx_payload_pos r) + 1" by (intro unat_inc_u8) simp
  show ?thesis
  proof (cases "rx_payload_pos r + 1 = f_len (r_frame r)")
    case True': True
    then show ?thesis using ok s True by (auto simp: serial_byte_def uart_rx_ok_def Let_def)
  next
    case False
    then have "unat (rx_payload_pos r + 1) \<noteq> unat (f_len (r_frame r))" by (simp add: word_unat_eq_iff)
    then have "rx_payload_pos r + 1 < f_len (r_frame r)" using p i by (simp only: unat_less_u8)
    then show ?thesis using ok s True False p by (auto simp: serial_byte_def uart_rx_ok_def Let_def)
  qed
next
  case False
  assume "uart_rx_ok r" "serial_byte put c (r, q) = (r', q')"
  with False show ?thesis
    by (auto simp: serial_byte_def uart_rx_ok_def Let_def word_neq_0_conv split: rx_state.splits if_splits)
qed

section \<open>The receiver as a parser\<close>

text \<open>A queue that keeps everything, to observe what is handed over.\<close>

definition collect :: "rx_frame list \<Rightarrow> rx_frame \<Rightarrow> rx_frame list" where
  "collect q f = q @ [f]"

abbreviation receive :: "bytes \<Rightarrow> uart_rx \<Rightarrow> uart_rx \<times> rx_frame list" where
  "receive bs r \<equiv> fold (serial_byte collect) bs (r, [])"

lemma serial_byte_put:
  "serial_byte put c (r, q) =
     (case serial_byte collect c (r, []) of (r', fs) \<Rightarrow> (r', fold (\<lambda>f q. put q f) fs q))"
  by (simp add: serial_byte_def collect_def Let_def split: rx_state.split)

lemma serial_byte_collect:
  "serial_byte collect c (r, fs) = (case serial_byte collect c (r, []) of (r', fs') \<Rightarrow> (r', fs @ fs'))"
  by (simp add: serial_byte_def collect_def Let_def split: rx_state.split)

lemma receive_collect:
  "fold (serial_byte collect) bs (r, fs) = (case receive bs r of (r', fs') \<Rightarrow> (r', fs @ fs'))"
proof (induction bs arbitrary: r fs)
  case (Cons b bs)
  obtain r1 fs1 where s: "serial_byte collect b (r, []) = (r1, fs1)" by fastforce
  obtain r2 fs2 where t: "receive bs r1 = (r2, fs2)" by fastforce
  show ?case
    using Cons [of r1 "fs @ fs1"] Cons [of r1 fs1] serial_byte_collect [of b r fs] s t by simp
qed simp

text \<open>For every queue, the handler's effect is to put the received frames one after the other.\<close>

lemma serial_bytes_put:
  "fold (serial_byte put) bs (r, q) = (case receive bs r of (r', fs) \<Rightarrow> (r', fold (\<lambda>f q. put q f) fs q))"
proof (induction bs arbitrary: r q)
  case (Cons b bs)
  obtain r1 fs1 where s: "serial_byte collect b (r, []) = (r1, fs1)" by fastforce
  then show ?case
    using Cons [of r1] serial_byte_put [of put b r q] receive_collect [of bs r1 fs1]
    by (simp split: prod.splits)
qed simp

lemma receive_append:
  "receive (xs @ ys) r = (case receive xs r of (r', fs) \<Rightarrow> case receive ys r' of (r'', fs') \<Rightarrow> (r'', fs @ fs'))"
proof -
  obtain r' fs where x: "receive xs r = (r', fs)" by fastforce
  then show ?thesis using receive_collect [of ys r' fs] by simp
qed

lemma receive_ok: "uart_rx_ok r \<Longrightarrow> uart_rx_ok (fst (receive bs r))"
proof (induction bs arbitrary: r)
  case (Cons b bs)
  obtain r1 fs1 where s: "serial_byte collect b (r, []) = (r1, fs1)" by fastforce
  note ok = serial_byte_ok [OF Cons.prems s]
  show ?case
    using Cons.IH [OF ok] s receive_collect [of bs r1 fs1] by (simp split: prod.splits)
qed simp

lemma receive_payload_length:
  "uart_rx_ok r \<Longrightarrow> f \<in> set (snd (receive bs r)) \<Longrightarrow> length (f_payload f) = NUKI_UART_MAX_PAYLOAD"
proof (induction bs arbitrary: r)
  case (Cons b bs)
  obtain r1 fs1 where s: "serial_byte collect b (r, []) = (r1, fs1)" by fastforce
  note ok = serial_byte_ok [OF Cons.prems(1) s]
  have "fs1 \<in> {[], [r_frame r1]}"
    using s by (auto simp: serial_byte_def collect_def Let_def split: rx_state.splits if_splits)
  moreover have "length (f_payload (r_frame r1)) = NUKI_UART_MAX_PAYLOAD" using ok by (simp only: uart_rx_ok_def)
  ultimately have "\<forall>f\<in>set fs1. length (f_payload f) = NUKI_UART_MAX_PAYLOAD" by auto
  then show ?case
    using Cons.IH [OF ok] Cons.prems(2) s receive_collect [of bs r1 fs1] by (auto split: prod.splits)
qed simp

text \<open>The reference: scan for a start byte, read command and length, cut the payload.\<close>

fun parse_stream :: "bytes \<Rightarrow> (u8 \<times> bytes) list" where
  "parse_stream (c # cmd # len # rest) =
     (if c \<noteq> NUKI_UART_FRAME_SOF_REQ then parse_stream (cmd # len # rest)
      else if unat len > NUKI_UART_MAX_PAYLOAD then parse_stream rest
      else if length rest < unat len then []
      else (cmd, take (unat len) rest) # parse_stream (drop (unat len) rest))"
| "parse_stream _ = []"

lemma payload_step:
  assumes "uart_rx_ok r" "r_state r = RX_WAIT_PAYLOAD"
  shows "unat (rx_payload_pos r) < unat (f_len (r_frame r))" "unat (f_len (r_frame r)) \<le> 32"
    "unat (rx_payload_pos r + 1) = unat (rx_payload_pos r) + 1"
    "length (f_payload (r_frame r)) = 32"
proof -
  show p: "unat (rx_payload_pos r) < unat (f_len (r_frame r))" and l: "unat (f_len (r_frame r)) \<le> 32"
    and "length (f_payload (r_frame r)) = 32"
    using assms by (simp_all add: uart_rx_ok_def unat_less_u8)
  from p l show "unat (rx_payload_pos r + 1) = unat (rx_payload_pos r) + 1" by (intro unat_inc_u8) simp
qed

lemma receive_payload:
  "uart_rx_ok r \<Longrightarrow> r_state r = RX_WAIT_PAYLOAD \<Longrightarrow>
   length xs + unat (rx_payload_pos r) \<le> unat (f_len (r_frame r)) \<Longrightarrow>
   (if length xs + unat (rx_payload_pos r) = unat (f_len (r_frame r))
    then \<exists>r' f. receive xs r = (r', [f]) \<and> r_state r' = RX_WAIT_SOF \<and> uart_rx_ok r' \<and>
        frame_of f = (f_cmd (r_frame r), take (unat (rx_payload_pos r)) (f_payload (r_frame r)) @ xs)
    else \<exists>r'. receive xs r = (r', []) \<and> r_state r' = RX_WAIT_PAYLOAD)"
proof (induction xs arbitrary: r)
  case Nil
  then show ?case using payload_step(1) [OF Nil.prems(1,2)] by simp
next
  case (Cons x xs)
  note p = payload_step [OF Cons.prems(1,2)]
  let ?f = "(r_frame r)\<lparr>f_payload := (f_payload (r_frame r))[unat (rx_payload_pos r) := x]\<rparr>"
  let ?r = "r\<lparr>r_frame := ?f, rx_payload_pos := rx_payload_pos r + 1\<rparr>"
  have t: "take (unat (rx_payload_pos r) + 1) (f_payload ?f) = take (unat (rx_payload_pos r)) (f_payload (r_frame r)) @ [x]"
    using p by (simp add: take_Suc_conv_app_nth)
  show ?case
  proof (cases "rx_payload_pos r + 1 = f_len (r_frame r)")
    case True
    then have l: "unat (f_len (r_frame r)) = unat (rx_payload_pos r) + 1" using p(3) by simp
    then have "xs = []" using Cons.prems(3) by simp
    have s: "serial_byte collect x (r, []) = (?r\<lparr>r_state := RX_WAIT_SOF\<rparr>, [?f])"
      using Cons.prems(2) True by (simp add: serial_byte_def collect_def Let_def)
    have "uart_rx_ok (?r\<lparr>r_state := RX_WAIT_SOF\<rparr>)" using serial_byte_ok [OF Cons.prems(1) s] .
    moreover have "frame_of ?f = (f_cmd (r_frame r), take (unat (rx_payload_pos r)) (f_payload (r_frame r)) @ [x])"
      using t by (simp add: frame_of_def l)
    ultimately show ?thesis using l \<open>xs = []\<close> s by simp
  next
    case False
    have s: "serial_byte collect x (r, []) = (?r, [])"
      using Cons.prems(2) False by (simp add: serial_byte_def Let_def)
    have ok: "uart_rx_ok ?r" using serial_byte_ok [OF Cons.prems(1) s] .
    have "receive (x # xs) r = receive xs ?r" using s by simp
    moreover have "length xs + unat (rx_payload_pos ?r) = length (x # xs) + unat (rx_payload_pos r)" using p(3) by simp
    ultimately show ?thesis
      using Cons.IH [OF ok] Cons.prems(2,3) p(3) t by (simp cong: if_cong)
  qed
qed

lemma receive_header:
  assumes "uart_rx_ok r" "r_state r = RX_WAIT_SOF" "\<not> unat len > NUKI_UART_MAX_PAYLOAD"
  shows "\<exists>r'. uart_rx_ok r' \<and>
    (if len = 0 then \<exists>f. receive [NUKI_UART_FRAME_SOF_REQ, cmd, len] r = (r', [f]) \<and> r_state r' = RX_WAIT_SOF \<and> frame_of f = (cmd, [])
     else receive [NUKI_UART_FRAME_SOF_REQ, cmd, len] r = (r', []) \<and> r_state r' = RX_WAIT_PAYLOAD \<and>
          f_cmd (r_frame r') = cmd \<and> f_len (r_frame r') = len \<and> rx_payload_pos r' = 0)"
proof -
  obtain r' fs where e: "receive [NUKI_UART_FRAME_SOF_REQ, cmd, len] r = (r', fs)" by fastforce
  have "uart_rx_ok r'" using receive_ok [OF assms(1), of "[NUKI_UART_FRAME_SOF_REQ, cmd, len]"] e by simp
  then show ?thesis
    using e assms(2,3) by (intro exI [of _ r']) (auto simp: serial_byte_def Let_def collect_def frame_of_def)
qed

lemma receive_bad_length:
  assumes "uart_rx_ok r" "r_state r = RX_WAIT_SOF" "unat len > NUKI_UART_MAX_PAYLOAD"
  shows "\<exists>r'. uart_rx_ok r' \<and> receive [NUKI_UART_FRAME_SOF_REQ, cmd, len] r = (r', []) \<and> r_state r' = RX_WAIT_SOF"
proof -
  obtain r' fs where e: "receive [NUKI_UART_FRAME_SOF_REQ, cmd, len] r = (r', fs)" by fastforce
  have "uart_rx_ok r'" using receive_ok [OF assms(1), of "[NUKI_UART_FRAME_SOF_REQ, cmd, len]"] e by simp
  then show ?thesis using e assms(2,3) by (intro exI [of _ r']) (auto simp: serial_byte_def)
qed

lemma receive_idle: "r_state r = RX_WAIT_SOF \<Longrightarrow> c \<noteq> NUKI_UART_FRAME_SOF_REQ \<Longrightarrow> receive (c # bs) r = receive bs r"
  by (simp add: serial_byte_def)

lemma receive_frame:
  assumes "uart_rx_ok r" "r_state r = RX_WAIT_SOF" "unat len \<le> NUKI_UART_MAX_PAYLOAD" "length xs = unat len"
  shows "\<exists>r' f. receive ([NUKI_UART_FRAME_SOF_REQ, cmd, len] @ xs) r = (r', [f]) \<and> uart_rx_ok r' \<and>
           r_state r' = RX_WAIT_SOF \<and> frame_of f = (cmd, xs)"
proof -
  have nl: "\<not> unat len > NUKI_UART_MAX_PAYLOAD" using assms(3) by simp
  obtain r1 where h: "uart_rx_ok r1"
    "if len = 0 then \<exists>f. receive [NUKI_UART_FRAME_SOF_REQ, cmd, len] r = (r1, [f]) \<and> r_state r1 = RX_WAIT_SOF \<and> frame_of f = (cmd, [])
     else receive [NUKI_UART_FRAME_SOF_REQ, cmd, len] r = (r1, []) \<and> r_state r1 = RX_WAIT_PAYLOAD \<and>
          f_cmd (r_frame r1) = cmd \<and> f_len (r_frame r1) = len \<and> rx_payload_pos r1 = 0"
    using receive_header [OF assms(1,2) nl] by blast
  show ?thesis
  proof (cases "len = 0")
    case True
    then have "xs = []" using assms(4) by simp
    then show ?thesis using h True by simp blast
  next
    case False
    then have r1: "receive [NUKI_UART_FRAME_SOF_REQ, cmd, len] r = (r1, [])" "r_state r1 = RX_WAIT_PAYLOAD"
      "f_cmd (r_frame r1) = cmd" "f_len (r_frame r1) = len" "rx_payload_pos r1 = 0" using h by auto
    obtain r' f where "receive xs r1 = (r', [f])" "r_state r' = RX_WAIT_SOF" "uart_rx_ok r'" "frame_of f = (cmd, xs)"
      using receive_payload [OF h(1) r1(2), of xs] r1(3-5) assms(4) by auto
    then show ?thesis using r1(1) receive_append [of "[NUKI_UART_FRAME_SOF_REQ, cmd, len]" xs r] by simp
  qed
qed

lemma receive_truncated:
  assumes "uart_rx_ok r" "r_state r = RX_WAIT_SOF" "unat len \<le> NUKI_UART_MAX_PAYLOAD" "length xs < unat len"
  shows "snd (receive ([NUKI_UART_FRAME_SOF_REQ, cmd, len] @ xs) r) = []"
proof -
  have nl: "\<not> unat len > NUKI_UART_MAX_PAYLOAD" and "len \<noteq> 0" using assms(3,4) by auto
  then obtain r1 where r1: "uart_rx_ok r1" "receive [NUKI_UART_FRAME_SOF_REQ, cmd, len] r = (r1, [])"
    "r_state r1 = RX_WAIT_PAYLOAD" "f_len (r_frame r1) = len" "rx_payload_pos r1 = 0"
    using receive_header [OF assms(1,2) nl, of cmd] by auto
  obtain r' where "receive xs r1 = (r', [])"
    using receive_payload [OF r1(1,3), of xs] r1(4,5) assms(4) by auto
  then show ?thesis using r1(2) receive_append [of "[NUKI_UART_FRAME_SOF_REQ, cmd, len]" xs r] by simp
qed

lemma receive_parses:
  "uart_rx_ok r \<Longrightarrow> r_state r = RX_WAIT_SOF \<Longrightarrow> map frame_of (snd (receive bs r)) = parse_stream bs"
proof (induction bs arbitrary: r rule: parse_stream.induct)
  case (1 c cmd len rest)
  note ok = "1.prems"
  let ?h = "[NUKI_UART_FRAME_SOF_REQ, cmd, len]"
  consider "c \<noteq> NUKI_UART_FRAME_SOF_REQ"
    | "c = NUKI_UART_FRAME_SOF_REQ" "unat len > NUKI_UART_MAX_PAYLOAD"
    | "c = NUKI_UART_FRAME_SOF_REQ" "unat len \<le> NUKI_UART_MAX_PAYLOAD" "length rest < unat len"
    | "c = NUKI_UART_FRAME_SOF_REQ" "unat len \<le> NUKI_UART_MAX_PAYLOAD" "\<not> length rest < unat len" by linarith
  then show ?case
  proof cases
    case 1
    then show ?thesis
      using "1.IH"(1) [OF 1 ok] receive_idle [OF ok(2) 1, of "cmd # len # rest"]
      by (simp only: parse_stream.simps if_True simp_thms)
  next
    case 2
    obtain r' where r': "uart_rx_ok r'" "receive ?h r = (r', [])" "r_state r' = RX_WAIT_SOF"
      using receive_bad_length [OF ok 2(2)] by blast
    have "snd (receive (c # cmd # len # rest) r) = snd (receive rest r')"
      using r'(2) receive_append [of ?h rest r] 2(1) by (simp split: prod.splits)
    then show ?thesis using "1.IH"(2) [OF _ 2(2) r'(1,3)] 2 by simp
  next
    case 3
    then show ?thesis using receive_truncated [OF ok 3(2,3), of cmd] by simp
  next
    case 4
    then obtain r' f where r': "receive (?h @ take (unat len) rest) r = (r', [f])" "uart_rx_ok r'"
      "r_state r' = RX_WAIT_SOF" "frame_of f = (cmd, take (unat len) rest)"
      using receive_frame [OF ok 4(2), of "take (unat len) rest" cmd] by auto
    have "c # cmd # len # rest = (?h @ take (unat len) rest) @ drop (unat len) rest" using 4 by simp
    then have "snd (receive (c # cmd # len # rest) r) = f # snd (receive (drop (unat len) rest) r')"
      using r'(1) receive_append [of "?h @ take (unat len) rest" "drop (unat len) rest" r]
      by (simp only: prod.case) (simp split: prod.splits)
    then show ?thesis using "1.IH"(3) [OF _ _ 4(3) r'(2,3)] 4 r'(4) by simp
  qed
qed (auto simp: serial_byte_def)

section \<open>Recovery\<close>

text \<open>The most bytes the receiver still consumes before it hunts for a start byte.\<close>

definition rx_pending :: "uart_rx \<Rightarrow> nat" where
  "rx_pending r =
     (case r_state r of RX_WAIT_SOF \<Rightarrow> 0 | RX_WAIT_CMD \<Rightarrow> 34 | RX_WAIT_LEN \<Rightarrow> 33
      | RX_WAIT_PAYLOAD \<Rightarrow> unat (f_len (r_frame r)) - unat (rx_payload_pos r))"

lemma rx_pending_step:
  assumes "uart_rx_ok r" "c \<noteq> NUKI_UART_FRAME_SOF_REQ" "serial_byte collect c (r, q) = (r', q')"
  shows "rx_pending r' \<le> rx_pending r - 1"
proof (cases "r_state r")
  case RX_WAIT_PAYLOAD
  note p = payload_step [OF assms(1) RX_WAIT_PAYLOAD]
  show ?thesis
    using assms(3) RX_WAIT_PAYLOAD p
    by (auto simp: serial_byte_def Let_def rx_pending_def split: if_splits)
qed (use assms in \<open>auto simp: serial_byte_def Let_def rx_pending_def split: if_splits\<close>)

lemma receive_resync:
  "uart_rx_ok r \<Longrightarrow> NUKI_UART_FRAME_SOF_REQ \<notin> set bs \<Longrightarrow> rx_pending r \<le> length bs \<Longrightarrow>
   r_state (fst (receive bs r)) = RX_WAIT_SOF"
proof (induction bs arbitrary: r)
  case Nil
  then show ?case by (cases "r_state r") (auto simp: rx_pending_def dest: payload_step(1))
next
  case (Cons b bs)
  obtain r1 fs1 where s: "serial_byte collect b (r, []) = (r1, fs1)" by fastforce
  have ok: "uart_rx_ok r1" using serial_byte_ok [OF Cons.prems(1) s] .
  have "rx_pending r1 \<le> length bs"
    using rx_pending_step [OF Cons.prems(1) _ s] Cons.prems(2,3) by auto
  then show ?case
    using Cons.IH [OF ok] Cons.prems(2) s receive_collect [of bs r1 fs1] by (simp split: prod.splits)
qed

lemma uart_rx_ok_index:
  "uart_rx_ok r \<Longrightarrow> length (f_payload (r_frame r)) = 32 \<and>
     (if r_state r = RX_WAIT_PAYLOAD
      then unat (rx_payload_pos r) < unat (f_len (r_frame r)) \<and> unat (f_len (r_frame r)) \<le> 32 \<and>
           unat (rx_payload_pos r + 1) = unat (rx_payload_pos r) + 1
      else True)"
proof -
  assume ok: "uart_rx_ok r"
  have l: "length (f_payload (r_frame r)) = 32" using ok by (simp only: uart_rx_ok_def)
  show ?thesis
  proof (cases "r_state r = RX_WAIT_PAYLOAD")
    case True
    show ?thesis unfolding if_P [OF True] using l payload_step(1-3) [OF ok True] by blast
  next
    case False
    show ?thesis unfolding if_not_P [OF False] using l by blast
  qed
qed

lemma rx_pending_bound: "uart_rx_ok r \<Longrightarrow> rx_pending r \<le> 34"
  by (cases "r_state r") (auto simp: rx_pending_def dest: payload_step(2))

lemma serial_cb_chunks:
  "fold (serial_cb put True True) chunks rq = fold (serial_byte put) (concat chunks) rq"
  by (induction chunks arbitrary: rq) (simp_all add: serial_cb_def)

text \<open>A request as the Loxone side writes it.\<close>

definition request_bytes :: "u8 \<times> bytes \<Rightarrow> bytes" where
  "request_bytes req = [NUKI_UART_FRAME_SOF_REQ, fst req, of_nat (length (snd req))] @ snd req"

lemma parse_stream_requests:
  "\<forall>req \<in> set reqs. length (snd req) \<le> NUKI_UART_MAX_PAYLOAD \<Longrightarrow>
   parse_stream (concat (map request_bytes reqs)) = reqs"
proof (induction reqs)
  case (Cons req reqs)
  then have "unat (of_nat (length (snd req)) :: u8) = length (snd req)" by (simp add: unat_of_nat)
  with Cons show ?case by (simp add: request_bytes_def)
qed simp

lemma parse_stream_idle:
  "NUKI_UART_FRAME_SOF_REQ \<notin> set noise \<Longrightarrow> parse_stream (noise @ bs) = parse_stream bs"
proof (induction noise)
  case (Cons c noise)
  have "parse_stream (c # bs') = parse_stream bs'" if "c \<noteq> NUKI_UART_FRAME_SOF_REQ" for bs'
    using that by (cases bs' rule: parse_stream.cases) (auto)
  with Cons show ?case by simp
qed simp

section \<open>Properties\<close>

text \<open>
  Memory safety of the interrupt handler: from boot, whatever bytes arrive in whatever bursts, the
  payload index is below the announced length and that is at most 32 whenever a payload byte is
  about to be stored, so the store stays inside the 32-byte array and the 8-bit index never wraps.
\<close>

theorem uart_rx_memory_safe:
  "let r = fst (fold (serial_cb put True True) chunks (uart_rx_boot, q))
   in length (f_payload (r_frame r)) = 32 \<and>
      (if r_state r = RX_WAIT_PAYLOAD
       then unat (rx_payload_pos r) < unat (f_len (r_frame r)) \<and> unat (f_len (r_frame r)) \<le> 32 \<and>
            unat (rx_payload_pos r + 1) = unat (rx_payload_pos r) + 1
       else True)"
proof -
  let ?r = "fst (fold (serial_cb put True True) chunks (uart_rx_boot, q))"
  have "?r = fst (receive (concat chunks) uart_rx_boot)"
    by (simp only: serial_cb_chunks serial_bytes_put [of put] case_prod_unfold fst_conv)
  then have ok: "uart_rx_ok ?r" using receive_ok [OF uart_rx_boot_ok] by (simp only:)
  show ?thesis unfolding Let_def by (rule uart_rx_ok_index [OF ok])
qed

text \<open>
  C17: the interrupt-driven state machine is a parser of the byte stream: from boot, the frames put
  into the message queue, in this order and each once, are those that the reference parser
  \<open>parse_stream\<close> finds in the concatenated input, however interrupts cut it.
\<close>

theorem uart_rx_is_parser:
  "\<exists>frames. snd (fold (serial_cb put True True) chunks (uart_rx_boot, q)) = fold (\<lambda>f q. put q f) frames q \<and>
            map frame_of frames = parse_stream (concat chunks)"
proof -
  obtain r fs where r: "receive (concat chunks) uart_rx_boot = (r, fs)" by (metis surj_pair)
  have boot: "r_state uart_rx_boot = RX_WAIT_SOF" by (simp add: uart_rx_boot_def)
  have "map frame_of fs = parse_stream (concat chunks)"
    using receive_parses [OF uart_rx_boot_ok boot, of "concat chunks"] by (simp only: r snd_conv)
  then show ?thesis by (intro exI [of _ fs]) (simp only: serial_cb_chunks serial_bytes_put [of put] r prod.case snd_conv simp_thms)
qed

text \<open>
  Recovery: in any state the receiver can be in, 34 bytes without a start byte bring it back to
  hunting, and every well-formed request after them, again with noise free of start bytes in
  between, is received exactly.
\<close>

theorem uart_rx_recovers:
  assumes "uart_rx_ok r" "NUKI_UART_FRAME_SOF_REQ \<notin> set noise" "34 \<le> length noise"
    and "\<forall>req \<in> set reqs. length (snd req) \<le> 32"
  shows "\<exists>junk good r'. receive (noise @ concat (map request_bytes reqs)) r = (r', junk @ good) \<and>
           snd (receive noise r) = junk \<and> map frame_of good = reqs \<and> uart_rx_ok r'"
proof -
  obtain r1 junk where n: "receive noise r = (r1, junk)" by fastforce
  have s: "r_state r1 = RX_WAIT_SOF" using receive_resync [OF assms(1,2)] rx_pending_bound [OF assms(1)] assms(3) n by simp
  have ok: "uart_rx_ok r1" using receive_ok [OF assms(1), of noise] n by simp
  obtain r' good where g: "receive (concat (map request_bytes reqs)) r1 = (r', good)" by fastforce
  have "map frame_of good = reqs"
    using receive_parses [OF ok s, of "concat (map request_bytes reqs)"] g parse_stream_requests [OF assms(4)] by simp
  moreover have "uart_rx_ok r'" using receive_ok [OF ok, of "concat (map request_bytes reqs)"] g by simp
  ultimately show ?thesis using n g receive_append [of noise "concat (map request_bytes reqs)" r] by auto
qed

theorem uart_rx_recovers_witness:
  "\<exists>junk good r'. receive (replicate 34 0 @ concat (map request_bytes [(7, [210, 4]), (3, [])]))
       (uart_rx_boot\<lparr>r_state := RX_WAIT_CMD\<rparr>) = (r', junk @ good) \<and>
     map frame_of good = [(7, [210, 4]), (3, [])]"
proof -
  let ?reqs = "[(7, [210, 4]), (3, [])] :: (u8 \<times> bytes) list"
  have "uart_rx_ok (uart_rx_boot\<lparr>r_state := RX_WAIT_CMD\<rparr>)" "NUKI_UART_FRAME_SOF_REQ \<notin> set (replicate 34 0)"
    "34 \<le> length (replicate 34 (0 :: u8))" "\<forall>req \<in> set ?reqs. length (snd req) \<le> 32"
    by (simp_all add: uart_rx_ok_def uart_rx_boot_def)
  from uart_rx_recovers [OF this] show ?thesis by metis
qed

end
