(* ===== verification/Nuki_Uart_Proto.thy ===== *)
theory Nuki_Uart_Proto
  imports Nuki_Ops Nuki_Uart_Frame
begin

text \<open>
  The command half of \<open>src/src/nuki_uart_proto.c\<close> and the structures of \<open>nuki_uart_proto.h\<close>: the handlers that serve a
  request frame from the state of \<open>nuki_app.c\<close> and answer with a packed structure.

  A handler takes the state of the module (for pairing also those of PSA Crypto and of the flash) and returns the bytes handed
  to \<open>uart_poll_out\<close> and the new state. A packed structure is sent as its image in memory, the fields in order without padding, little-endian as
  on the target. \<open>E\<close> is what an operation meets (see \<open>env\<close>), \<open>now\<close> the uptime when the cache is read.

  The lemmas: every request is answered by one frame that echoes its command, with which payload; a decoder on
  the other end, following the header's field list, gets the fields back.
\<close>

section \<open>The code\<close>

abbreviation NUKI_UART_CMD_STATUS :: u8 where "NUKI_UART_CMD_STATUS \<equiv> 1"
abbreviation NUKI_UART_CMD_PAIR :: u8 where "NUKI_UART_CMD_PAIR \<equiv> 2"
abbreviation NUKI_UART_CMD_STATE :: u8 where "NUKI_UART_CMD_STATE \<equiv> 3"
abbreviation NUKI_UART_CMD_LOCK :: u8 where "NUKI_UART_CMD_LOCK \<equiv> 4"
abbreviation NUKI_UART_CMD_UNLOCK :: u8 where "NUKI_UART_CMD_UNLOCK \<equiv> 5"
abbreviation NUKI_UART_CMD_UNLATCH :: u8 where "NUKI_UART_CMD_UNLATCH \<equiv> 6"
abbreviation NUKI_UART_CMD_CALIBRATE :: u8 where "NUKI_UART_CMD_CALIBRATE \<equiv> 7"

record nuki_uart_req_calibrate =
  req_pin :: u16

record nuki_uart_resp_status =
  status_rc :: u32
  status_paired :: u8
  status_connected :: u8
  status_ready :: u8

record nuki_uart_resp_simple =
  simple_rc :: u32

record nuki_uart_resp_state =
  resp_rc :: u32
  resp_lock_state :: u8
  resp_battery_percent :: u8
  resp_critical_battery :: u8
  resp_door_sensor_state :: u8
  resp_year :: u16
  resp_month :: u8
  resp_day :: u8
  resp_hour :: u8
  resp_minute :: u8
  resp_second :: u8
  resp_timezone_offset_min :: u16
  resp_age_sec :: u32

text \<open>The images of the packed structures, and the structure overlaid on two bytes.\<close>

definition status_image :: "nuki_uart_resp_status \<Rightarrow> bytes" where
  "status_image r = le32 (status_rc r) @ [status_paired r, status_connected r, status_ready r]"

definition simple_image :: "nuki_uart_resp_simple \<Rightarrow> bytes" where
  "simple_image r = le32 (simple_rc r)"

definition state_image :: "nuki_uart_resp_state \<Rightarrow> bytes" where
  "state_image r =
     le32 (resp_rc r) @ [resp_lock_state r, resp_battery_percent r, resp_critical_battery r, resp_door_sensor_state r] @
     le16 (resp_year r) @ [resp_month r, resp_day r, resp_hour r, resp_minute r, resp_second r] @
     le16 (resp_timezone_offset_min r) @ le32 (resp_age_sec r)"

definition calibrate_overlay :: "bytes \<Rightarrow> nuki_uart_req_calibrate" where
  "calibrate_overlay bs = \<lparr>req_pin = of_nat (le_val (take 2 bs))\<rparr>"

definition resp_state_zero :: nuki_uart_resp_state where
  "resp_state_zero =
     \<lparr>resp_rc = 0, resp_lock_state = 0, resp_battery_percent = 0, resp_critical_battery = 0, resp_door_sensor_state = 0,
      resp_year = 0, resp_month = 0, resp_day = 0, resp_hour = 0, resp_minute = 0, resp_second = 0,
      resp_timezone_offset_min = 0, resp_age_sec = 0\<rparr>"

definition send_simple_response :: "u8 \<Rightarrow> int \<Rightarrow> bytes" where
  "send_simple_response cmd rc =
     (let resp = \<lparr>simple_rc = word_of_int rc\<rparr>
      in send_frame cmd (simple_image resp) 4)"

definition handle_status :: "app \<Rightarrow> bytes" where
  "handle_status a =
     (let resp = \<lparr>status_rc = 0,
                  status_paired = (if nuki_app_is_paired a then 1 else 0),
                  status_connected = (if nuki_app_is_connected a then 1 else 0),
                  status_ready = (if nuki_app_is_ready a then 1 else 0)\<rparr>
      in send_frame NUKI_UART_CMD_STATUS (status_image resp) 7)"

type_synonym ('s, 'f) world = "app \<times> 's \<times> 'f"

definition handle_pair ::
    "bt_lib \<Rightarrow> byteorder \<Rightarrow> 's psa \<Rightarrow> 'f settings \<Rightarrow> env \<Rightarrow> ('s, 'f) world \<Rightarrow> bytes \<times> ('s, 'f) world" where
  "handle_pair L B P S E w =
     (let (err, w) = nuki_app_pair L B P S E w
      in (send_simple_response NUKI_UART_CMD_PAIR err, w))"

definition fill_state_fields :: "nuki_uart_resp_state \<Rightarrow> nuki_keyturner_state \<Rightarrow> u32 \<Rightarrow> nuki_uart_resp_state" where
  "fill_state_fields resp state age_sec =
     resp\<lparr>resp_lock_state := lock_state state,
          resp_battery_percent := battery_percent state,
          resp_critical_battery := (if critical_battery state then 1 else 0),
          resp_door_sensor_state := door_sensor_state state,
          resp_year := year state, resp_month := month state, resp_day := day state,
          resp_hour := hour state, resp_minute := minute state, resp_second := second state,
          resp_timezone_offset_min := timezone_offset_min state,
          resp_age_sec := age_sec\<rparr>"

definition handle_state :: "int \<Rightarrow> app \<Rightarrow> bytes" where
  "handle_state now a =
     (let resp = resp_state_zero
      in case nuki_app_get_cached_state now a of
           Inl err \<Rightarrow> send_frame NUKI_UART_CMD_STATE (state_image (resp\<lparr>resp_rc := word_of_int err\<rparr>)) 21
         | Inr (state, age_sec) \<Rightarrow>
             send_frame NUKI_UART_CMD_STATE (state_image (fill_state_fields (resp\<lparr>resp_rc := 0\<rparr>) state age_sec)) 21)"

definition handle_lock_action :: "bt_lib \<Rightarrow> byteorder \<Rightarrow> u8 \<Rightarrow> u8 \<Rightarrow> env \<Rightarrow> int \<Rightarrow> app \<Rightarrow> bytes \<times> app" where
  "handle_lock_action L B action cmd E now a =
     (let (err, a) = nuki_app_lock_action L B action E a;
          resp = resp_state_zero\<lparr>resp_rc := word_of_int err\<rparr>;
          resp = (if err = 0
                  then (case nuki_app_get_cached_state now a of
                          Inr (state, age_sec) \<Rightarrow> fill_state_fields resp state age_sec
                        | Inl _ \<Rightarrow> resp)
                  else resp)
      in (send_frame cmd (state_image resp) 21, a))"

definition handle_calibrate :: "bt_lib \<Rightarrow> byteorder \<Rightarrow> rx_frame \<Rightarrow> env \<Rightarrow> app \<Rightarrow> bytes \<times> app" where
  "handle_calibrate L B frame E a =
     (if f_len frame \<noteq> 2 then (send_simple_response NUKI_UART_CMD_CALIBRATE (- EINVAL), a)
      else
        let req = calibrate_overlay (f_payload frame);
            (err, a) = nuki_app_calibrate L B (req_pin req) E a
        in (send_simple_response NUKI_UART_CMD_CALIBRATE err, a))"

definition dispatch_frame ::
    "bt_lib \<Rightarrow> byteorder \<Rightarrow> 's psa \<Rightarrow> 'f settings \<Rightarrow> env \<Rightarrow> int \<Rightarrow> rx_frame \<Rightarrow> ('s, 'f) world \<Rightarrow> bytes \<times> ('s, 'f) world" where
  "dispatch_frame L B P S E now frame w =
     (let (a, ps, flash) = w; cmd = f_cmd frame
      in if cmd = NUKI_UART_CMD_STATUS then (handle_status a, w)
         else if cmd = NUKI_UART_CMD_PAIR then handle_pair L B P S E w
         else if cmd = NUKI_UART_CMD_STATE then (handle_state now a, w)
         else if cmd = NUKI_UART_CMD_LOCK then
           (let (out, a) = handle_lock_action L B NUKI_LOCK_ACTION_LOCK NUKI_UART_CMD_LOCK E now a in (out, a, ps, flash))
         else if cmd = NUKI_UART_CMD_UNLOCK then
           (let (out, a) = handle_lock_action L B NUKI_LOCK_ACTION_UNLOCK NUKI_UART_CMD_UNLOCK E now a in (out, a, ps, flash))
         else if cmd = NUKI_UART_CMD_UNLATCH then
           (let (out, a) = handle_lock_action L B NUKI_LOCK_ACTION_UNLATCH NUKI_UART_CMD_UNLATCH E now a in (out, a, ps, flash))
         else if cmd = NUKI_UART_CMD_CALIBRATE then
           (let (out, a) = handle_calibrate L B frame E a in (out, a, ps, flash))
         else (send_simple_response cmd (- EINVAL), w))"

text \<open>The thread over the frames that it takes from the queue, each with what its operation meets.\<close>

fun nuki_uart_thread_fn ::
    "bt_lib \<Rightarrow> byteorder \<Rightarrow> 's psa \<Rightarrow> 'f settings \<Rightarrow> (rx_frame \<times> env \<times> int) list \<Rightarrow> ('s, 'f) world
     \<Rightarrow> bytes \<times> ('s, 'f) world" where
  "nuki_uart_thread_fn L B P S [] w = ([], w)"
| "nuki_uart_thread_fn L B P S ((frame, E, now) # frames) w =
     (let (out, w) = dispatch_frame L B P S E now frame w;
          (outs, w) = nuki_uart_thread_fn L B P S frames w
      in (out @ outs, w))"

text \<open>The result and whether the receiver and the thread run.\<close>

definition nuki_uart_proto_init :: "bool \<Rightarrow> int \<Rightarrow> int \<times> bool" where
  "nuki_uart_proto_init device_is_ready callback_set_rc =
     (if \<not> device_is_ready then (- ENODEV, False)
      else let err = callback_set_rc
           in if err \<noteq> 0 then (err, False) else (0, True))"

section \<open>Images\<close>

lemma image_lengths [simp]:
  "length (status_image r) = 7" "length (simple_image q) = 4" "length (state_image s) = 21"
  by (simp_all add: status_image_def simple_image_def state_image_def)

text \<open>A decoder written from the field list of the header.\<close>

definition decode_state :: "bytes \<Rightarrow> nuki_uart_resp_state" where
  "decode_state bs =
     \<lparr>resp_rc = of_nat (le_val (take 4 bs)), resp_lock_state = bs ! 4, resp_battery_percent = bs ! 5,
      resp_critical_battery = bs ! 6, resp_door_sensor_state = bs ! 7, resp_year = of_nat (le_val (take 2 (drop 8 bs))),
      resp_month = bs ! 10, resp_day = bs ! 11, resp_hour = bs ! 12, resp_minute = bs ! 13, resp_second = bs ! 14,
      resp_timezone_offset_min = of_nat (le_val (take 2 (drop 15 bs))), resp_age_sec = of_nat (le_val (drop 17 bs))\<rparr>"

lemma decode_state_image [simp]: "decode_state (state_image r) = r"
proof -
  have "\<exists>x y. xs = [x, y]" if "length xs = 2" for xs :: bytes using that by (auto simp: numeral_eq_Suc length_Suc_conv)
  then have 16: "\<exists>x y. le16 v = [x, y]" for v using le16_length by blast
  have "\<exists>x y z u. xs = [x, y, z, u]" if "length xs = 4" for xs :: bytes using that by (auto simp: numeral_eq_Suc length_Suc_conv)
  then have 32: "\<exists>x y z u. le32 v = [x, y, z, u]" for v using le32_length by blast
  obtain a b c d where rc: "le32 (resp_rc r) = [a, b, c, d]" using 32 by blast
  obtain e f where y: "le16 (resp_year r) = [e, f]" using 16 by blast
  obtain g h where z: "le16 (resp_timezone_offset_min r) = [g, h]" using 16 by blast
  have "decode_state (state_image r) =
    r\<lparr>resp_rc := of_nat (le_val [a, b, c, d]), resp_year := of_nat (le_val [e, f]),
      resp_timezone_offset_min := of_nat (le_val [g, h]), resp_age_sec := of_nat (le_val (le32 (resp_age_sec r)))\<rparr>"
    by (simp add: decode_state_def state_image_def rc y z del: le_val.simps)
  then show ?thesis unfolding rc [symmetric] y [symmetric] z [symmetric] by simp
qed

lemma send_frame_image:
  "send_frame cmd (status_image r) 7 = [NUKI_UART_FRAME_SOF_RESP, cmd, 7] @ status_image r"
  "send_frame cmd (simple_image q) 4 = [NUKI_UART_FRAME_SOF_RESP, cmd, 4] @ simple_image q"
  "send_frame cmd (state_image s) 21 = [NUKI_UART_FRAME_SOF_RESP, cmd, 21] @ state_image s"
  by (simp_all add: send_frame_def)

lemmas handler_defs = handle_status_def handle_pair_def handle_state_def handle_lock_action_def handle_calibrate_def
  send_simple_response_def

section \<open>Responses\<close>

text \<open>A response to a command: the start byte, the command, the length and that many bytes.\<close>

definition responds :: "u8 \<Rightarrow> nat \<Rightarrow> bytes \<Rightarrow> bool" where
  "responds cmd n out \<longleftrightarrow> (\<exists>payload. length payload = n \<and> out = [NUKI_UART_FRAME_SOF_RESP, cmd, of_nat n] @ payload)"

lemma responds_image:
  "responds cmd 7 (send_frame cmd (status_image r) 7)" "responds cmd 4 (send_frame cmd (simple_image q) 4)"
  "responds cmd 21 (send_frame cmd (state_image s) 21)"
  by (auto simp: responds_def send_frame_image)

lemma handlers_respond:
  "responds NUKI_UART_CMD_STATUS 7 (handle_status a)" "responds NUKI_UART_CMD_STATE 21 (handle_state now a)"
  "responds cmd 4 (send_simple_response cmd rc)"
  "responds NUKI_UART_CMD_PAIR 4 (fst (handle_pair L B P S E w))"
  "responds cmd 21 (fst (handle_lock_action L B action cmd E now a))"
  "responds NUKI_UART_CMD_CALIBRATE 4 (fst (handle_calibrate L B f E a))"
  by (simp_all add: handler_defs responds_image Let_def split: prod.split sum.split)

text \<open>The length of the payload with which a command is answered.\<close>

definition response_len :: "u8 \<Rightarrow> nat" where
  "response_len cmd =
     (if cmd = NUKI_UART_CMD_STATUS then 7
      else if cmd \<in> {NUKI_UART_CMD_STATE, NUKI_UART_CMD_LOCK, NUKI_UART_CMD_UNLOCK, NUKI_UART_CMD_UNLATCH} then 21 else 4)"

lemma dispatch_responds:
  "responds (f_cmd f) (response_len (f_cmd f)) (fst (dispatch_frame L B P S E now f w))"
proof -
  obtain a ps flash where w: "w = (a, ps, flash)" by (metis prod_cases3)
  have fs: "fst (case x of (out, a) \<Rightarrow> (out, g a)) = fst x" for x :: "bytes \<times> app" and g :: "app \<Rightarrow> ('a, 'b) world"
    by (cases x) simp
  show ?thesis
    unfolding w dispatch_frame_def
    by (simp add: fs response_len_def Let_def handlers_respond)
qed

section \<open>Cached state\<close>

lemma cached_age:
  assumes "0 \<le> now - t" "(now - t) div 1000 < 2 ^ 31"
  shows "sint (word_of_int ((now - t) sdiv 1000) :: u32) = (now - t) div 1000"
proof -
  let ?d = "(now - t) div 1000"
  have d: "(now - t) sdiv 1000 = ?d" "0 \<le> ?d" using assms(1) by (cases "now = t"; simp add: signed_divide_int_def)+
  then have "sint (word_of_int ?d :: u32) = ?d"
    using assms(2) by (simp add: sint_sbintrunc' signed_take_bit_int_eq_self)
  then show ?thesis using d by simp
qed

lemma lock_commands:
  assumes "f_cmd f \<in> {NUKI_UART_CMD_LOCK, NUKI_UART_CMD_UNLOCK, NUKI_UART_CMD_UNLATCH}"
    and "dispatch_frame L B P S E now f (a, ps, flash) = (out, a', ps', flash')"
    and "action = (if f_cmd f = NUKI_UART_CMD_LOCK then NUKI_LOCK_ACTION_LOCK
                   else if f_cmd f = NUKI_UART_CMD_UNLOCK then NUKI_LOCK_ACTION_UNLOCK else NUKI_LOCK_ACTION_UNLATCH)"
  shows "\<exists>rc. nuki_app_lock_action L B action E a = (rc, a') \<and> ps' = ps \<and> flash' = flash \<and>
     decode_state (drop 3 out) =
       (if rc = 0 \<and> g_cache_valid a'
        then fill_state_fields resp_state_zero (g_cached_state a') (word_of_int ((now - g_cache_uptime_ms a') sdiv 1000))
        else resp_state_zero\<lparr>resp_rc := word_of_int rc\<rparr>)"
proof -
  obtain rc a1 where r: "nuki_app_lock_action L B action E a = (rc, a1)" by fastforce
  let ?resp = "resp_state_zero\<lparr>resp_rc := word_of_int rc\<rparr>"
  let ?r = "if rc = 0 then (case nuki_app_get_cached_state now a1 of
      Inr (state, age_sec) \<Rightarrow> fill_state_fields ?resp state age_sec | Inl _ \<Rightarrow> ?resp) else ?resp"
  have h: "handle_lock_action L B action cmd E now a = (send_frame cmd (state_image ?r) 21, a1)" for cmd
    unfolding handle_lock_action_def r Let_def by simp
  have "dispatch_frame L B P S E now f (a, ps, flash) =
      (case handle_lock_action L B action (f_cmd f) E now a of (out, a) \<Rightarrow> (out, a, ps, flash))"
    using assms(1,3) by (auto simp: dispatch_frame_def)
  then have o1: "out = [NUKI_UART_FRAME_SOF_RESP, f_cmd f, 21] @ state_image ?r" "a' = a1" "ps' = ps" "flash' = flash"
    using assms(2) unfolding h send_frame_image by auto
  have "decode_state (drop 3 out) = ?r" unfolding o1(1) by simp
  then show ?thesis
    using r o1 by (auto simp: nuki_app_get_cached_state_def fill_state_fields_def resp_state_zero_def)
qed

section \<open>Properties\<close>

text \<open>
  Every request is answered once, in kind: whatever frame the thread takes from the queue, it writes exactly one response
  frame, with the response start byte, the command echoed and a payload of the length announced (7 bytes for STATUS, 21 for STATE, LOCK, UNLOCK and UNLATCH,
  4 otherwise). An unknown command and a CALIBRATE of the wrong length are answered with \<open>-EINVAL\<close>; these, STATUS and STATE
  leave the state of the device alone.
\<close>

theorem uart_one_response:
  "case dispatch_frame L B P S E now f w of (out, w') \<Rightarrow>
     (\<exists>payload. out = [0x5A, f_cmd f, of_nat (length payload)] @ payload \<and>
        length payload = (if f_cmd f = 1 then 7 else if f_cmd f \<in> {3, 4, 5, 6} then 21 else 4)) \<and>
     (if f_cmd f \<in> {2, 4, 5, 6} \<or> f_cmd f = 7 \<and> f_len f = 2 then True else w' = w) \<and>
     (if f_cmd f \<notin> {1, 2, 3, 4, 5, 6, 7} \<or> f_cmd f = 7 \<and> f_len f \<noteq> 2
      then out = [0x5A, f_cmd f, 4] @ le32 (word_of_int (- EINVAL)) else True)"
proof -
  obtain a ps flash where w: "w = (a, ps, flash)" by (metis prod_cases3)
  obtain out w' where d: "dispatch_frame L B P S E now f w = (out, w')" by (metis surj_pair)
  have r: "responds (f_cmd f) (response_len (f_cmd f)) out" using dispatch_responds d by (metis fst_conv)
  then obtain payload where p: "length payload = response_len (f_cmd f)"
    "out = [NUKI_UART_FRAME_SOF_RESP, f_cmd f, of_nat (response_len (f_cmd f))] @ payload" unfolding responds_def by blast
  have form: "\<exists>payload. out = [0x5A, f_cmd f, of_nat (length payload)] @ payload \<and>
      length payload = (if f_cmd f = 1 then 7 else if f_cmd f \<in> {3, 4, 5, 6} then 21 else 4)"
    by (intro exI [of _ payload] conjI) (simp_all only: p response_len_def)
  have "w' = w" if "\<not> (f_cmd f \<in> {2, 4, 5, 6} \<or> f_cmd f = 7 \<and> f_len f = 2)"
    using d that by (auto simp: w dispatch_frame_def handle_calibrate_def Let_def split: if_splits)
  then have keep: "if f_cmd f \<in> {2, 4, 5, 6} \<or> f_cmd f = 7 \<and> f_len f = 2 then True else w' = w" unfolding if_bool_eq_conj by blast
  have "out = [0x5A, f_cmd f, 4] @ le32 (word_of_int (- EINVAL))"
    if "f_cmd f \<notin> {1, 2, 3, 4, 5, 6, 7} \<or> f_cmd f = 7 \<and> f_len f \<noteq> 2"
    using d that by (auto simp: w dispatch_frame_def handle_calibrate_def send_simple_response_def send_frame_def simple_image_def Let_def)
  then have inval: "if f_cmd f \<notin> {1, 2, 3, 4, 5, 6, 7} \<or> f_cmd f = 7 \<and> f_len f \<noteq> 2
      then out = [0x5A, f_cmd f, 4] @ le32 (word_of_int (- EINVAL)) else True" unfolding if_bool_eq_conj by blast
  show ?thesis unfolding d prod.case by (intro conjI form keep inval)
qed

theorem uart_one_response_witness:
  "dispatch_frame demo_lib le_byteorder demo_psa demo_settings (demo_env []) 0 \<lparr>f_cmd = 9, f_len = 0, f_payload = replicate 32 0\<rparr>
     (app_boot storage_boot, [], []) = ([0x5A, 9, 4] @ le32 (word_of_int (- EINVAL)), app_boot storage_boot, [], [])"
proof -
  let ?f = "\<lparr>f_cmd = 9, f_len = 0, f_payload = replicate 32 0\<rparr>"
  obtain out w' where d: "dispatch_frame demo_lib le_byteorder demo_psa demo_settings (demo_env []) 0 ?f (app_boot storage_boot, [], [])
      = (out, w')" by (metis surj_pair)
  show ?thesis
    using uart_one_response [where L = demo_lib and B = le_byteorder and P = demo_psa and S = demo_settings and E = "demo_env []" and now = 0
        and f = ?f and w = "(app_boot storage_boot, [], [])"]
    unfolding d by simp
qed

text \<open>
  What LOCK, UNLOCK and UNLATCH do and report: the request triggers exactly the lock action of its name, and the decoded response
  carries its result; on success with a valid cache the state fields are the cached state (just updated by the action if the lock pushed its
  state) with its age, otherwise all state fields are zero.
\<close>

theorem uart_lock_reports:
  assumes "f_cmd f \<in> {NUKI_UART_CMD_LOCK, NUKI_UART_CMD_UNLOCK, NUKI_UART_CMD_UNLATCH}"
    and "dispatch_frame L B P S E now f (a, ps, flash) = (out, a', ps', flash')"
  shows "\<exists>rc. nuki_app_lock_action L B (if f_cmd f = NUKI_UART_CMD_LOCK then 2 else if f_cmd f = NUKI_UART_CMD_UNLOCK then 1 else 3) E a
       = (rc, a') \<and> ps' = ps \<and> flash' = flash \<and>
     decode_state (drop 3 out) =
       (if rc = 0 \<and> g_cache_valid a'
        then fill_state_fields resp_state_zero (g_cached_state a') (word_of_int ((now - g_cache_uptime_ms a') sdiv 1000))
        else resp_state_zero\<lparr>resp_rc := word_of_int rc\<rparr>)"
  using assms by (rule lock_commands) simp

theorem uart_lock_reports_witness:
  "\<exists>out a'. dispatch_frame demo_lib le_byteorder demo_psa demo_settings (demo_env []) 0 \<lparr>f_cmd = 4, f_len = 0, f_payload = replicate 32 0\<rparr>
       (app_boot storage_boot, [], []) = (out, a', [], []) \<and>
     decode_state (drop 3 out) = resp_state_zero\<lparr>resp_rc := word_of_int (- ENOENT)\<rparr>"
proof -
  let ?f = "\<lparr>f_cmd = 4, f_len = 0, f_payload = replicate 32 0\<rparr>" and ?a = "app_boot storage_boot"
  obtain out a' ps' flash' where d: "dispatch_frame demo_lib le_byteorder demo_psa demo_settings (demo_env []) 0 ?f (?a, [], []) = (out, a', ps', flash')"
    by (metis prod_cases4)
  have f: "f_cmd ?f \<in> {NUKI_UART_CMD_LOCK, NUKI_UART_CMD_UNLOCK, NUKI_UART_CMD_UNLATCH}" by simp
  have "nuki_app_lock_action demo_lib le_byteorder 2 (demo_env []) ?a = (- ENOENT, ?a)"
    by (simp add: nuki_app_lock_action_def lock_action_locked_def nuki_storage_get_pairing_def app_boot_def storage_boot_def)
  with uart_lock_reports [OF f d] d show ?thesis by auto
qed

text \<open>
  A STATE request is answered from the cache without using the radio: without a successful poll the response is \<open>-ENODATA\<close> with zero fields; otherwise
  the decoded fields are those of the cached state and the age is the time since it was captured, in whole seconds (exact for 68 years).
  Every state response decodes to the structure that was sent.
\<close>

theorem uart_state_report:
  "decode_state (drop 3 (handle_state now a)) =
     (if g_cache_valid a
      then fill_state_fields resp_state_zero (g_cached_state a) (word_of_int ((now - g_cache_uptime_ms a) sdiv 1000))
      else resp_state_zero\<lparr>resp_rc := word_of_int (- ENODATA)\<rparr>) \<and>
   (if g_cache_valid a \<and> 0 \<le> now - g_cache_uptime_ms a \<and> (now - g_cache_uptime_ms a) div 1000 < 2 ^ 31
    then sint (resp_age_sec (decode_state (drop 3 (handle_state now a)))) = (now - g_cache_uptime_ms a) div 1000
    else True) \<and>
   decode_state (state_image r) = r"
proof -
  have d: "decode_state (drop 3 (handle_state now a)) =
     (if g_cache_valid a
      then fill_state_fields resp_state_zero (g_cached_state a) (word_of_int ((now - g_cache_uptime_ms a) sdiv 1000))
      else resp_state_zero\<lparr>resp_rc := word_of_int (- ENODATA)\<rparr>)"
    by (simp add: handle_state_def nuki_app_get_cached_state_def send_frame_image fill_state_fields_def resp_state_zero_def)
  then show ?thesis using cached_age by (auto simp: fill_state_fields_def)
qed

end
