(* ===== verification/Nuki_Shell.thy ===== *)
theory Nuki_Shell
  imports Nuki_Ops
begin

text \<open>
  \<open>src/src/nuki_shell.c\<close>: the interactive commands. A command returns its result, the lines it prints, and the new
  state. A line is the format string with its arguments; the shell's formatting is not part of the repository. \<open>strtoul\<close> of the C library is modelled for
  base 10 and the 32-bit \<open>unsigned long\<close> of the target.
\<close>

section \<open>The code\<close>

datatype shell_arg = Str string | Num int

datatype shell_line =
  Shell_print string "shell_arg list" | Shell_error string "shell_arg list" | Shell_warn string "shell_arg list"

definition err_to_str :: "int \<Rightarrow> string" where
  "err_to_str err =
     (if err = - ENOTCONN then ''not connected/discovered yet''
      else if err = - ENOENT then ''not paired yet - run 'nuki pair' first''
      else if err = - ETIMEDOUT \<or> err = - EAGAIN then ''timed out''
      else if err = - EBADMSG then ''authentication/CRC check failed''
      else if err = - ENOTSUP then ''lock did not offer its Pairing Service on this connection''
      else ''error'')"

definition cmd_nuki_pair ::
    "bt_lib \<Rightarrow> byteorder \<Rightarrow> 's psa \<Rightarrow> 'f settings \<Rightarrow> env \<Rightarrow> app \<times> 's \<times> 'f \<Rightarrow> int \<times> shell_line list \<times> app \<times> 's \<times> 'f" where
  "cmd_nuki_pair L B P S E w =
     (let out = [Shell_print ''pairing - make sure the lock's button is held for 5s (pairing mode)...'' []];
          (err, w) = nuki_app_pair L B P S E w
      in if err \<noteq> 0 then (err, out @ [Shell_error ''pairing failed: %s (%d)'' [Str (err_to_str err), Num err]], w)
         else (0, out @ [Shell_print ''paired successfully'' []], w))"

definition cmd_nuki_state :: "bt_lib \<Rightarrow> byteorder \<Rightarrow> env \<Rightarrow> app \<Rightarrow> int \<times> shell_line list \<times> app" where
  "cmd_nuki_state L B E a =
     (case nuki_app_get_state L B E a of
        (Inl err, a) \<Rightarrow> (err, [Shell_error ''failed to read state: %s (%d)'' [Str (err_to_str err), Num err]], a)
      | (Inr state, a) \<Rightarrow>
          (0, [Shell_print ''lock state:      %s (0x%02x)''
                 [Str (nuki_lock_state_to_str (lock_state state)), Num (uint (lock_state state))],
               Shell_print ''door sensor:     %s'' [Str (nuki_door_sensor_state_to_str (door_sensor_state state))],
               Shell_print ''battery:         %u%% %s''
                 [Num (uint (battery_percent state)), Str (if critical_battery state then ''(CRITICAL)'' else '''')],
               Shell_print ''lock time:       %04u-%02u-%02u %02u:%02u:%02u (tz offset %d min)''
                 [Num (uint (year state)), Num (uint (month state)), Num (uint (day state)), Num (uint (hour state)),
                  Num (uint (minute state)), Num (uint (second state)), Num (sint (timezone_offset_min state))]], a))"

definition do_lock_action ::
    "bt_lib \<Rightarrow> byteorder \<Rightarrow> u8 \<Rightarrow> string \<Rightarrow> env \<Rightarrow> app \<Rightarrow> int \<times> shell_line list \<times> app" where
  "do_lock_action L B action name E a =
     (let out = [Shell_print ''%s...'' [Str name]];
          (err, a) = nuki_app_lock_action L B action E a
      in if err \<noteq> 0 then (err, out @ [Shell_error ''%s failed: %s (%d)'' [Str name, Str (err_to_str err), Num err]], a)
         else (0, out @ [Shell_print ''%s complete'' [Str name]], a))"

definition cmd_nuki_lock :: "bt_lib \<Rightarrow> byteorder \<Rightarrow> env \<Rightarrow> app \<Rightarrow> int \<times> shell_line list \<times> app" where
  "cmd_nuki_lock L B E a = do_lock_action L B NUKI_LOCK_ACTION_LOCK ''lock'' E a"

definition cmd_nuki_unlock :: "bt_lib \<Rightarrow> byteorder \<Rightarrow> env \<Rightarrow> app \<Rightarrow> int \<times> shell_line list \<times> app" where
  "cmd_nuki_unlock L B E a = do_lock_action L B NUKI_LOCK_ACTION_UNLOCK ''unlock'' E a"

definition cmd_nuki_unlatch :: "bt_lib \<Rightarrow> byteorder \<Rightarrow> env \<Rightarrow> app \<Rightarrow> int \<times> shell_line list \<times> app" where
  "cmd_nuki_unlatch L B E a = do_lock_action L B NUKI_LOCK_ACTION_UNLATCH ''unlatch'' E a"

text \<open>\<open>strtoul(s, &endptr, 10)\<close>: the value and the rest of the string at \<open>*endptr\<close>.\<close>

definition is_space :: "char \<Rightarrow> bool" where
  "is_space c = (of_char c \<in> {9, 10, 11, 12, 13, 32 :: nat})"

definition is_digit :: "char \<Rightarrow> bool" where
  "is_digit c = (48 \<le> (of_char c :: nat) \<and> of_char c \<le> (57 :: nat))"

definition dec_val :: "string \<Rightarrow> nat" where
  "dec_val ds = foldl (\<lambda>n c. 10 * n + (of_char c - 48)) 0 ds"

definition ULONG_MAX :: nat where "ULONG_MAX = 2 ^ 32 - 1"

definition strtoul :: "string \<Rightarrow> nat \<times> string" where
  "strtoul s =
     (let s1 = dropWhile is_space s;
          (neg, s2) = (case s1 of
                         c # s2 \<Rightarrow> if c = CHR ''-'' then (True, s2) else if c = CHR ''+'' then (False, s2) else (False, s1)
                       | [] \<Rightarrow> (False, s1));
          ds = takeWhile is_digit s2
      in if ds = [] then (0, s)
         else
           let v = dec_val ds
           in (if v > ULONG_MAX then ULONG_MAX else if neg then (2 ^ 32 - v) mod 2 ^ 32 else v, dropWhile is_digit s2))"

definition cmd_nuki_calibrate ::
    "bt_lib \<Rightarrow> byteorder \<Rightarrow> string list \<Rightarrow> env \<Rightarrow> app \<Rightarrow> int \<times> shell_line list \<times> app" where
  "cmd_nuki_calibrate L B argv E a =
     (if length argv \<noteq> 2 then (- EINVAL, [Shell_error ''usage: nuki calibrate <security-pin>'' []], a)
      else
        let (pin, endptr) = strtoul (argv ! 1)
        in if endptr \<noteq> [] \<or> pin > 0xFFFF then
             (- EINVAL, [Shell_error ''invalid PIN '%s' (expected a 4-digit number, e.g. 0000-9999)'' [Str (argv ! 1)]], a)
           else
             let out = [Shell_warn ''calibrating - the lock will rotate through its full range now...'' []];
                 (err, a) = nuki_app_calibrate L B (of_nat pin) E a
             in if err \<noteq> 0 then
                  (err, out @ [Shell_error ''calibration failed: %s (%d)'' [Str (err_to_str err), Num err]], a)
                else (0, out @ [Shell_print ''calibration complete'' []], a))"

definition cmd_nuki_status :: "app \<Rightarrow> int \<times> shell_line list" where
  "cmd_nuki_status a =
     (0, [Shell_print ''paired: %s'' [Str (if nuki_app_is_paired a then ''yes'' else ''no'')],
          Shell_print ''connected right now: %s (ready: %s)''
            [Str (if nuki_app_is_connected a then ''yes'' else ''no''), Str (if nuki_app_is_ready a then ''yes'' else ''no'')],
          Shell_print ''(each command connects on demand and disconnects afterwards, so this is usually 'no' between commands - that's expected, it leaves the lock's BLE connection free for the Nuki app)'' []])"

text \<open>
  The table of subcommands: the shell looks up the first word after \<open>nuki\<close> and calls the handler with the words. An unknown word calls none.
\<close>

definition nuki_cmds ::
    "bt_lib \<Rightarrow> byteorder \<Rightarrow> 's psa \<Rightarrow> 'f settings \<Rightarrow> string list \<Rightarrow> env \<Rightarrow> app \<times> 's \<times> 'f
     \<Rightarrow> (int \<times> shell_line list \<times> app \<times> 's \<times> 'f) option" where
  "nuki_cmds L B P S argv E w =
     (case argv of
        [] \<Rightarrow> None
      | name # _ \<Rightarrow>
          let (a, ps, flash) = w;
              on_app = (\<lambda>(rc, out, a). Some (rc, out, a, ps, flash))
          in if name = ''status'' then (let (rc, out) = cmd_nuki_status a in on_app (rc, out, a))
             else if name = ''pair'' then Some (cmd_nuki_pair L B P S E w)
             else if name = ''state'' then on_app (cmd_nuki_state L B E a)
             else if name = ''lock'' then on_app (cmd_nuki_lock L B E a)
             else if name = ''unlock'' then on_app (cmd_nuki_unlock L B E a)
             else if name = ''unlatch'' then on_app (cmd_nuki_unlatch L B E a)
             else if name = ''calibrate'' then on_app (cmd_nuki_calibrate L B argv E a)
             else None)"

section \<open>Decimal numbers\<close>

text \<open>The value of a string of digits, most significant first.\<close>

lemma strtoul_digits:
  assumes "s \<noteq> []" "list_all is_digit s"
  shows "strtoul s = (min (dec_val s) ULONG_MAX, [])"
proof -
  have d: "is_digit c \<Longrightarrow> \<not> is_space c \<and> c \<noteq> CHR ''-'' \<and> c \<noteq> CHR ''+''" for c
    by (auto simp: is_digit_def is_space_def)
  obtain c t where s: "s = c # t" using assms(1) by (cases s) auto
  have all: "\<forall>c\<in>set s. is_digit c" using assms(2) by (simp add: list_all_iff)
  then have c: "is_digit c" using s by simp
  have "takeWhile is_digit s = s" "dropWhile is_digit s = []" using all by (simp_all add: takeWhile_eq_all_conv)
  then show ?thesis using d [OF c] s by (auto simp: strtoul_def Let_def min_def)
qed

section \<open>Properties\<close>

text \<open>
  C40: the calibration command of the shell passes on the number that was typed: a string of digits up to 65535 reaches the lock as exactly this PIN, and the command returns the result of
  the operation; a larger number is refused with \<open>-EINVAL\<close> without touching the lock, and so is a wrong number of arguments. An
  empty argument is not refused but taken as PIN 0. The commands lock, unlock and unlatch run the action of their name and return its result.
\<close>

theorem shell_calibrate_pin:
  assumes "list_all is_digit s"
  shows "(if dec_val s \<le> 0xFFFF
          then (case cmd_nuki_calibrate L B [cmd, s] E a of (rc, out, a') \<Rightarrow>
                  nuki_app_calibrate L B (of_nat (dec_val s)) E a = (rc, a'))
          else fst (cmd_nuki_calibrate L B [cmd, s] E a) = - EINVAL \<and> snd (snd (cmd_nuki_calibrate L B [cmd, s] E a)) = a) \<and>
         (if length argv \<noteq> 2 then cmd_nuki_calibrate L B argv E a =
            (- EINVAL, [Shell_error ''usage: nuki calibrate <security-pin>'' []], a) else True) \<and>
         (case cmd_nuki_lock L B E a of (rc, out, a') \<Rightarrow> nuki_app_lock_action L B 2 E a = (rc, a')) \<and>
         (case cmd_nuki_unlock L B E a of (rc, out, a') \<Rightarrow> nuki_app_lock_action L B 1 E a = (rc, a')) \<and>
         (case cmd_nuki_unlatch L B E a of (rc, out, a') \<Rightarrow> nuki_app_lock_action L B 3 E a = (rc, a'))"
proof -
  have st: "strtoul s = (min (dec_val s) ULONG_MAX, [])"
    using assms strtoul_digits [of s] by (cases "s = []") (simp_all add: strtoul_def dec_val_def ULONG_MAX_def)
  have pin: "min (dec_val s) ULONG_MAX > 0xFFFF \<longleftrightarrow> dec_val s > 0xFFFF" by (simp add: ULONG_MAX_def)
  have cal: "if dec_val s \<le> 0xFFFF
      then (case cmd_nuki_calibrate L B [cmd, s] E a of (rc, out, a') \<Rightarrow>
              nuki_app_calibrate L B (of_nat (dec_val s)) E a = (rc, a'))
      else fst (cmd_nuki_calibrate L B [cmd, s] E a) = - EINVAL \<and> snd (snd (cmd_nuki_calibrate L B [cmd, s] E a)) = a"
  proof (cases "dec_val s \<le> 0xFFFF")
    case True
    then have "min (dec_val s) ULONG_MAX = dec_val s" by (simp add: ULONG_MAX_def)
    with True show ?thesis
      by (simp add: cmd_nuki_calibrate_def st Let_def split: prod.split)
  next
    case False
    with pin show ?thesis by (simp add: cmd_nuki_calibrate_def st del: min_less_iff_conj)
  qed
  have act: "case do_lock_action L B action name E a of (rc, out, a') \<Rightarrow> nuki_app_lock_action L B action E a = (rc, a')" for action name
    by (simp add: do_lock_action_def Let_def split: prod.split)
  show ?thesis
    unfolding cmd_nuki_lock_def cmd_nuki_unlock_def cmd_nuki_unlatch_def
    by (intro conjI cal act) (simp add: cmd_nuki_calibrate_def)
qed

theorem shell_calibrate_pin_witness:
  "dec_val ''0042'' = 42 \<and>
   (\<exists>rc out a'. cmd_nuki_calibrate demo_lib le_byteorder [''calibrate'', ''0042''] (demo_env []) (app_boot demo_storage) = (rc, out, a') \<and>
      nuki_app_calibrate demo_lib le_byteorder 42 (demo_env []) (app_boot demo_storage) = (rc, a'))"
proof -
  have d: "list_all is_digit ''0042''" "dec_val ''0042'' = 42" by (simp_all add: is_digit_def dec_val_def)
  obtain rc out a' where c: "cmd_nuki_calibrate demo_lib le_byteorder [''calibrate'', ''0042''] (demo_env []) (app_boot demo_storage) = (rc, out, a')"
    by (metis prod_cases3)
  show ?thesis
    using shell_calibrate_pin [OF d(1), where L = demo_lib and B = le_byteorder and cmd = "''calibrate''" and E = "demo_env []" and
        a = "app_boot demo_storage", THEN conjunct1] c d(2) by simp
qed

end
