(* ===== verification/Nuki_Main.thy ===== *)
theory Nuki_Main
  imports Nuki_Uart_Proto Nuki_Shell
begin

text \<open>
  \<open>src/src/main.c\<close>: the start of the firmware. The results of the initialisations that are not part of the
  repository are arguments: \<open>bt_rc\<close> of \<open>bt_enable\<close>, \<open>settings_rc\<close> of \<open>settings_subsys_init\<close>, and those of the UART
  driver. The result is \<open>None\<close> if \<open>main\<close> returned early, else the state of the module and whether the Loxone UART is
  served. Console output is left out.
\<close>

definition main ::
    "int \<Rightarrow> 's psa \<Rightarrow> int \<Rightarrow> 'f settings \<Rightarrow> ('f \<Rightarrow> string \<Rightarrow> nuki_pairing_data option) \<Rightarrow> 'f \<Rightarrow> bool \<Rightarrow> int \<Rightarrow> 's
     \<Rightarrow> int \<times> (app \<times> bool) option \<times> 's" where
  "main bt_rc P settings_rc S stored flash device_is_ready callback_set_rc ps =
     (if bt_rc \<noteq> 0 then (0, None, ps)
      else
        let (err, ps) = nuki_crypto_init P ps
        in if err \<noteq> 0 then (0, None, ps)
           else if settings_rc \<noteq> 0 then (0, None, ps)
           else
             let st = settings_load S stored flash;
                 (_, a) = nuki_app_init (app_boot st);
                 (err, uart) = nuki_uart_proto_init device_is_ready callback_set_rc
             in (0, Some (a, uart), ps))"

lemma main_boots:
  assumes "main 0 P 0 S stored flash ready cb ps = (rc, Some (a, uart), ps')"
  shows "g_storage a = settings_load S stored flash" "a = app_boot (settings_load S stored flash)" "uart \<longleftrightarrow> ready \<and> cb = 0"
  using assms by (auto simp: main_def nuki_app_init_def app_boot_def nuki_uart_proto_init_def split: prod.splits if_splits)

end
