(* ===== verification/Nuki_Traffic.thy ===== *)
theory Nuki_Traffic
  imports Nuki_Ops
begin

text \<open>
  What the operations put on the air. A message of the encrypted channel determines its content under a key, so a
  message that orders a lock action or a calibration is recognised among all others: only \<open>nuki_app_lock_action\<close> and
  \<open>nuki_app_calibrate\<close> send one, and exactly for the action or with the PIN they were given. The state query and the handshake send none.
\<close>

section \<open>Messages determine their content\<close>

lemma is_wire_inject:
  assumes k: "length key = 32" and w: "is_wire key aid cmd p w" "is_wire key aid' cmd' p' w"
  shows "aid = aid'" "cmd = cmd'" "p = p'"
proof -
  obtain n h pl b where 1: "length n = 24" "length h = 4" "nuki_frame_build_auth le_byteorder (8 + length p) aid cmd p = Some pl"
    "nuki_crypto_e1 pl n key = Inr b" "w = n @ h @ le16 (of_nat (length b)) @ b"
    using w(1) unfolding is_wire_def by blast
  obtain n' h' pl' b' where 2: "length n' = 24" "length h' = 4"
    "nuki_frame_build_auth le_byteorder (8 + length p') aid' cmd' p' = Some pl'"
    "nuki_crypto_e1 pl' n' key = Inr b'" "w = n' @ h' @ le16 (of_nat (length b')) @ b'"
    using w(2) unfolding is_wire_def by blast
  have n: "n = n'" and r: "h @ le16 (of_nat (length b)) @ b = h' @ le16 (of_nat (length b')) @ b'"
    using 1(1,5) 2(1,5) by auto
  have b: "b = b'" using r 1(2) 2(2) by simp
  have kn: "box_lengths n key" using k 1(1) by (simp add: box_lengths_def)
  have "pl = pl'" using box.sealed_inject [OF kn 1(4)] 2(4) n b by simp
  then have "(aid, cmd) = (aid', cmd') \<and> p = p'"
    using auth.build_inject [of "8 + length p" "(aid, cmd)" p pl "8 + length p'" "(aid', cmd')" p'] 1(3) 2(3) by simp
  then show "aid = aid'" "cmd = cmd'" "p = p'" by simp_all
qed

text \<open>What the lock can be ordered to do, and the messages that order it, in the format of the protocol.\<close>

datatype order = Lock_action u8 | Calibrate u16

fun order_wire :: "bytes \<Rightarrow> order \<Rightarrow> bytes \<Rightarrow> bool" where
  "order_wire key (Lock_action action) w \<longleftrightarrow>
     (\<exists>aid aid' nk. length nk = 32 \<and> is_wire key aid NUKI_CMD_LOCK_ACTION ([action] @ le32 aid' @ [0] @ nk) w)"
| "order_wire key (Calibrate pin) w \<longleftrightarrow>
     (\<exists>aid nk. length nk = 32 \<and> is_wire key aid NUKI_CMD_REQUEST_CALIBRATION (nk @ le16 pin) w)"

lemma order_wire_length: "order_wire key x w \<Longrightarrow> length key = 32 \<Longrightarrow> length w \<in> {88, 92}"
  by (cases x) (auto dest: is_wire_length)

lemma order_wire_other:
  "is_wire key aid cmd p w \<Longrightarrow> length key = 32 \<Longrightarrow> cmd \<noteq> NUKI_CMD_LOCK_ACTION \<Longrightarrow> cmd \<noteq> NUKI_CMD_REQUEST_CALIBRATION \<Longrightarrow>
   \<not> order_wire key x w"
  by (cases x) (auto dest: is_wire_inject(2))

lemma order_wire_action:
  "is_wire key aid NUKI_CMD_LOCK_ACTION ([action] @ r) w \<Longrightarrow> length key = 32 \<Longrightarrow> order_wire key x w \<Longrightarrow> x = Lock_action action"
  by (cases x) (auto dest: is_wire_inject(2,3))

lemma order_wire_calibrate:
  assumes "is_wire key aid NUKI_CMD_REQUEST_CALIBRATION (nk @ le16 pin) w" "length nk = 32" "length key = 32" "order_wire key x w"
  shows "x = Calibrate pin"
proof (cases x)
  case (Lock_action action)
  then show ?thesis using assms by (auto dest: is_wire_inject(2))
next
  case (Calibrate pin')
  then obtain aid' nk' where "length nk' = 32" "is_wire key aid' NUKI_CMD_REQUEST_CALIBRATION (nk' @ le16 pin') w" using assms(4) by auto
  then have "nk' @ le16 pin' = nk @ le16 pin" using is_wire_inject(3) [OF assms(3) _ assms(1)] by blast
  then show ?thesis using Calibrate assms(2) \<open>length nk' = 32\<close> le16_inject by simp
qed

text \<open>What was ordered between two states, under a key.\<close>

definition orders :: "bytes \<Rightarrow> app \<Rightarrow> app \<Rightarrow> order set" where
  "orders key a a' = {x. \<exists>w\<in>set (drop (length (air a)) (air a')). order_wire key x w}"

lemma orders_same [simp]: "air a' = air a \<Longrightarrow> orders key a a' = {}"
  by (simp add: orders_def)

lemma orders_new: "air a' = air a @ ms \<Longrightarrow> orders key a a' = {x. \<exists>w\<in>set ms. order_wire key x w}"
  by (simp add: orders_def)

section \<open>The handshake\<close>

text \<open>None of its messages has the length of an order.\<close>

definition sends_no_order :: "io \<times> 's \<Rightarrow> io \<times> 's \<Rightarrow> bool" where
  "sends_no_order s s' \<longleftrightarrow> (\<exists>ms. sent (fst s') = sent (fst s) @ ms \<and> (\<forall>w\<in>set ms. length w \<notin> {88, 92}))"

lemma sends_no_order_order: "transp sends_no_order" "reflp sends_no_order"
proof -
  show "transp sends_no_order"
    unfolding transp_def sends_no_order_def by (metis (no_types, opaque_lifting) Un_iff append_assoc set_append)
qed (simp add: reflp_def sends_no_order_def)

lemma yields_quiet:
  "(\<And>s r s'. m s = (r, s') \<Longrightarrow> sent s' = sent s) \<Longrightarrow> (\<And>s x s'. m s = (Inr x, s') \<Longrightarrow> Q x) \<Longrightarrow>
   op_yields sends_no_order (on_fst m) Q"
  by (rule op_yieldsI) (fastforce simp: on_fst_def sends_no_order_def split: prod.splits)+

lemma yields_crypto:
  "(\<And>s x s'. m s = (Inr x, s') \<Longrightarrow> Q x) \<Longrightarrow> op_yields sends_no_order (on_snd m) Q"
  by (rule op_yieldsI) (auto simp: on_snd_def sends_no_order_def split: prod.splits)

lemma yields_send:
  assumes "byteorder_ok B" "length p \<notin> {84, 88}"
  shows "op_yields sends_no_order (on_fst (op_rc (send_plain B cmd p))) (\<lambda>_. True)"
proof (rule op_yieldsI)
  fix s :: "io \<times> 'a" and r s' assume "on_fst (op_rc (send_plain B cmd p)) s = (r, s')"
  then obtain rc where "send_plain B cmd p (fst s) = (rc, fst s')"
    by (auto simp: on_fst_def op_rc_def split: prod.splits)
  then show "sends_no_order s s'"
    using assms by (auto simp: send_plain_def build_plain_frame sends_no_order_def dest: transport_write_effect(1) split: if_splits)
qed simp

lemma yields_recv: "op_yields sends_no_order (on_fst (recv_plain B c n)) (\<lambda>p. length p = n)"
proof (rule yields_quiet)
  show "sent s' = sent s" if "recv_plain B c n s = (r, s')" for s r s'
    using recv_plain_rx [OF that] by (simp add: rx_step_def same_output_def)
  show "length p = n" if "recv_plain B c n s = (Inr p, s')" for s p s'
    using that by (auto simp: recv_plain_def Let_def split: prod.splits if_splits sum.splits)
qed

lemma yields_rand: "op_yields sends_no_order (on_fst (op_get (sys_rand_get n))) (\<lambda>p. length p = n)"
  by (rule yields_quiet) (auto simp: op_get_def sys_rand_get_def)

lemma pairing_run_sends:
  assumes B: "byteorder_ok B" and P: "psa_spec P kv X"
  shows "op_yields sends_no_order (nuki_pairing_run B P) (\<lambda>_. True)"
proof -
  note t = sends_no_order_order(1) and rf = sends_no_order_order(2)
  have init: "op_yields sends_no_order (on_snd (op_rc (nuki_crypto_init P))) (\<lambda>_. True)"
    by (rule yields_crypto) simp
  have kp: "op_yields sends_no_order (on_snd (nuki_crypto_keypair P)) (\<lambda>(pub, priv). length pub = 32)"
    by (rule yields_crypto) (use keypair_result [OF P] in fastforce)
  have dh: "op_yields sends_no_order (on_snd (nuki_crypto_dh1 P x y)) (\<lambda>_. True)" for x y
    by (rule yields_crypto) simp
  have h1: "op_yields sends_no_order (on_snd (nuki_crypto_h1 P x y)) (\<lambda>h. length h = 32)" for x y
    by (rule yields_crypto) (use h1_result [OF P] in fastforce)
  note send = yields_send [OF B]
  show ?thesis
    unfolding pairing_run_defs Let_def
    by (rule op_yields_bind [OF t] op_yields_case_prod init kp dh h1 send yields_recv yields_rand
         op_yields_guard [OF rf] op_yields_return [OF rf] |
        simp add: frame_bytes [OF B] auth_data_body_length [OF B] split: prod.splits)+
qed

section \<open>The operations\<close>

lemmas connect_air = connect_frame(2)

lemma get_state_orders:
  assumes B: "byteorder_ok B" and ok: "app_ok a" and r: "nuki_app_get_state L B E a = (r, a')"
    and p: "nuki_storage_get_pairing (g_storage a) = Some p"
  shows "orders (shared_key p) a a' = {}"
proof -
  let ?a = "a\<lparr>g_op_lock := True\<rparr>"
  obtain a1 where l: "get_state_locked L B E ?a = (r, a1)" "a' = a1\<lparr>g_op_lock := False\<rparr>" using public_ops(1) [OF r] by blast
  have p': "nuki_storage_get_pairing (g_storage ?a) = Some p" and ok': "app_ok ?a" using p ok by simp_all
  from p' l(1) show ?thesis
  proof (cases rule: get_state_locked_cases)
    case (refused e)
    then show ?thesis using connect_air [OF refused(3)] l(2) by simp
  next
    case (served a2 s)
    note idle = session_idle [OF served(1) ok'] and k = app_ok_key [OF ok p]
    have "tr_ok (tr (session_io E (g_usdio a2)))" using idle(1) by (simp add: io_idle_def)
    from get_state_result [OF B k this served(2)] obtain w where
      w: "sent s = [w]" "is_wire (shared_key p) (auth_id p) NUKI_CMD_REQUEST_DATA (le16 NUKI_CMD_KEYTURNER_STATES) w" by auto
    have "air a' = air a @ [w]" using l(2) served(3) connect_air [OF served(1)] w(1) by simp
    then show ?thesis using order_wire_other [OF w(2) k] by (simp add: orders_new)
  qed
qed

lemma challenged_orders:
  assumes ch: "challenged B key aid cmd pay s rc cap s'" and s: "sent s = []" and k: "length key = 32"
    and pay: "\<And>nk w y. length nk = 32 \<Longrightarrow> is_wire key aid cmd (pay nk) w \<Longrightarrow> order_wire key y w \<longleftrightarrow> y = x"
  shows "{y. \<exists>w\<in>set (sent s'). order_wire key y w} \<subseteq> {x} \<and> (rc = 0 \<longrightarrow> {y. \<exists>w\<in>set (sent s'). order_wire key y w} = {x})"
  using ch unfolding challenged_def s append_Nil
proof (elim disjE exE conjE)
  fix w1 assume "sent s' = [w1]" "rc \<noteq> 0" "is_wire key aid NUKI_CMD_REQUEST_DATA (le16 NUKI_CMD_CHALLENGE) w1"
  then show ?thesis using order_wire_other [OF _ k] by simp
next
  fix w1 w2 nk assume "sent s' = [w1, w2]" "length nk = 32" "is_wire key aid NUKI_CMD_REQUEST_DATA (le16 NUKI_CMD_CHALLENGE) w1"
    "is_wire key aid cmd (pay nk) w2"
  moreover from this have "\<not> order_wire key y w1" for y using order_wire_other [OF _ k] by simp
  ultimately show ?thesis using pay by (simp del: order_wire.simps)
qed

lemma calibrate_orders:
  assumes B: "byteorder_ok B" and ok: "app_ok a" and r: "nuki_app_calibrate L B pin E a = (rc, a')"
    and p: "nuki_storage_get_pairing (g_storage a) = Some p"
  shows "orders (shared_key p) a a' \<subseteq> {Calibrate pin}" "rc = 0 \<Longrightarrow> orders (shared_key p) a a' = {Calibrate pin}"
proof -
  let ?a = "a\<lparr>g_op_lock := True\<rparr>"
  obtain a1 where l: "calibrate_locked L B pin E ?a = (rc, a1)" "a' = a1\<lparr>g_op_lock := False\<rparr>" using public_ops(3) [OF r] by blast
  have p': "nuki_storage_get_pairing (g_storage ?a) = Some p" and ok': "app_ok ?a" using p ok by simp_all
  from p' l(1) have "orders (shared_key p) a a' \<subseteq> {Calibrate pin} \<and> (rc = 0 \<longrightarrow> orders (shared_key p) a a' = {Calibrate pin})"
  proof (cases rule: calibrate_locked_cases)
    case refused
    then show ?thesis using connect_air [OF refused(2)] l(2) by simp
  next
    case (served a2 s)
    note idle = session_idle [OF served(1) ok'] and k = app_ok_key [OF ok p]
    have "tr_ok (tr (session_io E (g_usdio a2)))" using idle(1) by (simp add: io_idle_def)
    from calibrate_challenged [OF B k this served(2)] obtain cap where
      ch: "challenged B (shared_key p) (auth_id p) NUKI_CMD_REQUEST_CALIBRATION (\<lambda>nk. nk @ le16 pin) (session_io E (g_usdio a2)) rc cap s" ..
    have air: "air a' = air a @ sent s" using l(2) served(3) connect_air [OF served(1)] by simp
    have "order_wire (shared_key p) y w \<longleftrightarrow> y = Calibrate pin"
      if "length nk = 32" "is_wire (shared_key p) (auth_id p) NUKI_CMD_REQUEST_CALIBRATION (nk @ le16 pin) w" for nk w y
      using order_wire_calibrate [OF that(2,1) k] that order_wire.simps(2) by blast
    then show ?thesis unfolding orders_new [OF air] using challenged_orders [OF ch _ k, of "Calibrate pin"] by simp
  qed
  then show "orders (shared_key p) a a' \<subseteq> {Calibrate pin}" "rc = 0 \<Longrightarrow> orders (shared_key p) a a' = {Calibrate pin}" by simp_all
qed

lemma lock_action_orders:
  assumes B: "byteorder_ok B" and ok: "app_ok a" and r: "nuki_app_lock_action L B action E a = (rc, a')"
    and p: "nuki_storage_get_pairing (g_storage a) = Some p"
  shows "orders (shared_key p) a a' \<subseteq> {Lock_action action}" "rc = 0 \<Longrightarrow> orders (shared_key p) a a' = {Lock_action action}"
proof -
  let ?a = "a\<lparr>g_op_lock := True\<rparr>"
  obtain a1 where l: "lock_action_locked L B action E ?a = (rc, a1)" "a' = a1\<lparr>g_op_lock := False\<rparr>" using public_ops(2) [OF r] by blast
  have p': "nuki_storage_get_pairing (g_storage ?a) = Some p" and ok': "app_ok ?a" using p ok by simp_all
  note k = app_ok_key [OF ok p]
  have air: "air a' = air a1" "air ?a = air a" using l(2) by simp_all
  have "orders (shared_key p) a a' \<subseteq> {Lock_action action} \<and> (rc = 0 \<longrightarrow> orders (shared_key p) a a' = {Lock_action action})"
    using lock_action_locked_safe [OF B ok' p' l(1)]
  proof (elim disjE [of "rc \<noteq> 0 \<and> _"] disjE [of "\<exists>w1. rc \<noteq> 0 \<and> _ w1"] exE conjE)
    assume "rc \<noteq> 0" "air a1 = air ?a"
    then show ?thesis using air by simp
  next
    fix w1 assume "rc \<noteq> 0" "air a1 = air ?a @ [w1]"
      "is_wire (shared_key p) (auth_id p) NUKI_CMD_REQUEST_DATA (le16 NUKI_CMD_CHALLENGE) w1"
    then show ?thesis using order_wire_other [OF _ k] air by (simp add: orders_new)
  next
    fix w1 w2 nk assume s: "air a1 = air ?a @ [w1, w2]" "length nk = 32"
        "is_wire (shared_key p) (auth_id p) NUKI_CMD_REQUEST_DATA (le16 NUKI_CMD_CHALLENGE) w1"
        "is_wire (shared_key p) (auth_id p) NUKI_CMD_LOCK_ACTION ([action] @ le32 (app_id p) @ [0] @ nk) w2"
    have new: "air a' = air a @ [w1, w2]" using s(1) unfolding air .
    have "order_wire (shared_key p) (Lock_action action) w2" using s(2,4) unfolding order_wire.simps by blast
    moreover have "\<not> order_wire (shared_key p) x w1" for x by (rule order_wire_other [OF s(3) k]) simp_all
    moreover have "order_wire (shared_key p) x w2 \<Longrightarrow> x = Lock_action action" for x by (rule order_wire_action [OF s(4) k])
    ultimately have "(order_wire (shared_key p) x w1 \<or> order_wire (shared_key p) x w2) = (x = Lock_action action)" for x by blast
    then have "orders (shared_key p) a a' = {Lock_action action}" unfolding orders_new [OF new] by (simp del: order_wire.simps)
    then show ?thesis by simp
  qed
  then show "orders (shared_key p) a a' \<subseteq> {Lock_action action}" "rc = 0 \<Longrightarrow> orders (shared_key p) a a' = {Lock_action action}" by simp_all
qed

lemma pair_orders:
  assumes B: "byteorder_ok B" and P: "psa_spec P kv X" and k: "length key = 32"
    and r: "nuki_app_pair L B P S E (a, ps, flash) = (rc, a', ps', flash')"
  shows "orders key a a' = {}"
proof -
  let ?a = "a\<lparr>g_op_lock := True\<rparr>"
  obtain a1 where l: "pair_locked L B P S E (?a, ps, flash) = (rc, a1, ps', flash')" "a' = a1\<lparr>g_op_lock := False\<rparr>"
    using public_ops(4) [OF r] by blast
  have quiet: "\<forall>w\<in>set (sent s). length w \<notin> {88, 92}" if "nuki_pairing_run B P (session_io E t, ps) = (d, s, ps')" for t d s
    using op_yieldsD [OF pairing_run_sends [OF B P] that] by (simp add: sends_no_order_def)
  have "\<exists>ms. air a' = air a @ ms \<and> (\<forall>w\<in>set ms. length w \<notin> {88, 92})"
    using l(1)
  proof (cases rule: pair_locked_cases)
    case refused
    then show ?thesis using connect_air [OF refused(2)] l(2) by simp
  next
    case (unsupported a2)
    then show ?thesis using connect_air [OF unsupported(1)] l(2) by simp
  next
    case (failed a2 s)
    then show ?thesis using connect_air [OF failed(1)] l(2) quiet [OF failed(3)] by simp
  next
    case (paired a2 s d d' st)
    then show ?thesis using connect_air [OF paired(1)] l(2) quiet [OF paired(3)] by simp
  qed
  then obtain ms where "air a' = air a @ ms" "\<forall>w\<in>set ms. length w \<notin> {88, 92}" by blast
  then show ?thesis by (auto simp: orders_new dest!: order_wire_length [OF _ k])
qed

lemma unpaired_orders:
  assumes "nuki_storage_get_pairing (g_storage a) = None"
  shows "nuki_app_get_state L B E a = (r, a') \<Longrightarrow> air a' = air a"
    "nuki_app_lock_action L B action E a = (rc, a') \<Longrightarrow> air a' = air a"
    "nuki_app_calibrate L B pin E a = (rc, a') \<Longrightarrow> air a' = air a"
  using assms by (auto simp: nuki_app_get_state_def get_state_locked_def nuki_app_lock_action_def lock_action_locked_def
      nuki_app_calibrate_def calibrate_locked_def)

end
