(* ===== verification/Nuki_System.thy ===== *)
theory Nuki_System
  imports Nuki_Main Nuki_Traffic "HOL-Library.Sublist"
begin

text \<open>
  The running firmware as a state machine: the UART interrupt, the UART thread, the poller, the shell and the Bluetooth callbacks
  act on the shared state in any order, and the device may lose power at any time.

  An operation is one step, because it holds \<open>g_op_lock\<close>, and the interrupt handler touches only the receiver and the queue, which no
  operation touches. The message queue of the kernel is the record argument \<open>msgq\<close>; \<open>msgq_ok\<close> states its documented
  behaviour for the four slots that \<open>nuki_uart_proto.c\<close> gives it, through the list of waiting frames.
\<close>

section \<open>The message queue\<close>

record 'q msgq =
  k_msgq_put :: "'q \<Rightarrow> rx_frame \<Rightarrow> 'q"
  k_msgq_get :: "'q \<Rightarrow> (rx_frame \<times> 'q) option"

definition NUKI_UART_MSGQ_LEN :: nat where "NUKI_UART_MSGQ_LEN = 4"

definition msgq_ok :: "'q msgq \<Rightarrow> ('q \<Rightarrow> rx_frame list) \<Rightarrow> bool" where
  "msgq_ok K items \<longleftrightarrow>
     (\<forall>q f. items (k_msgq_put K q f) = (if length (items q) < NUKI_UART_MSGQ_LEN then items q @ [f] else items q)) \<and>
     (\<forall>q. case k_msgq_get K q of None \<Rightarrow> items q = [] | Some (f, q') \<Rightarrow> items q = f # items q')"

lemma msgq_puts:
  assumes "msgq_ok K items" "length (items q) \<le> NUKI_UART_MSGQ_LEN"
  shows "items (fold (\<lambda>f q. k_msgq_put K q f) fs q) = take NUKI_UART_MSGQ_LEN (items q @ fs)"
  using assms(2)
proof (induction fs arbitrary: q)
  case (Cons f fs)
  have p: "items (k_msgq_put K q f) = (if length (items q) < NUKI_UART_MSGQ_LEN then items q @ [f] else items q)"
    using assms(1) by (simp add: msgq_ok_def)
  show ?case
  proof (cases "length (items q) < NUKI_UART_MSGQ_LEN")
    case True
    then show ?thesis using Cons.IH [of "k_msgq_put K q f"] p by simp
  next
    case False
    then show ?thesis using Cons.IH [of "k_msgq_put K q f"] p Cons.prems by simp
  qed
qed simp

lemma msgq_get:
  "msgq_ok K items \<Longrightarrow> k_msgq_get K q = Some (f, q') \<Longrightarrow> items q = f # items q'"
  by (auto simp: msgq_ok_def split: option.splits dest: spec [of _ q])

section \<open>The machine\<close>

record ('s, 'f, 'q) sys =
  s_app :: app
  s_psa :: 's
  s_flash :: 'f
  s_uart :: bool
  s_rx :: uart_rx
  s_queue :: 'q
  s_out :: bytes
  s_bytes :: bytes
  s_served :: "rx_frame list"

text \<open>
  \<open>s_uart\<close>: whether \<open>nuki_uart_proto_init\<close> succeeded, \<open>s_out\<close>: everything sent on the UART. For the statements only: the
  bytes received since the start and the frames taken from the queue.
\<close>

datatype sys_act =
  Interrupt bool bool bytes
| Serve env int
| Poll env
| Typed "string list" env
| Host bt_event

text \<open>The body of the UART thread's loop.\<close>

definition serve ::
    "bt_lib \<Rightarrow> byteorder \<Rightarrow> 's psa \<Rightarrow> 'f settings \<Rightarrow> 'q msgq \<Rightarrow> env \<Rightarrow> int \<Rightarrow> ('s, 'f, 'q) sys \<Rightarrow> ('s, 'f, 'q) sys" where
  "serve L B P S K E now s =
     (case k_msgq_get K (s_queue s) of
        None \<Rightarrow> s
      | Some (frame, q) \<Rightarrow>
          let (out, a, ps, flash) = dispatch_frame L B P S E now frame (s_app s, s_psa s, s_flash s)
          in s\<lparr>s_app := a, s_psa := ps, s_flash := flash, s_queue := q, s_out := s_out s @ out,
               s_served := s_served s @ [frame]\<rparr>)"

fun sys_step ::
    "bt_lib \<Rightarrow> byteorder \<Rightarrow> 's psa \<Rightarrow> 'f settings \<Rightarrow> 'q msgq \<Rightarrow> sys_act \<Rightarrow> ('s, 'f, 'q) sys \<Rightarrow> ('s, 'f, 'q) sys" where
  "sys_step L B P S K (Interrupt irq_update rx_ready fifo) s =
     (if s_uart s then
        let (r, q) = serial_cb (k_msgq_put K) irq_update rx_ready fifo (s_rx s, s_queue s)
        in s\<lparr>s_rx := r, s_queue := q, s_bytes := s_bytes s @ (if irq_update \<and> rx_ready then fifo else [])\<rparr>
      else s)"
| "sys_step L B P S K (Serve E now) s = (if s_uart s then serve L B P S K E now s else s)"
| "sys_step L B P S K (Poll E) s = (let (_, a) = state_poll_round L B E (s_app s) in s\<lparr>s_app := a\<rparr>)"
| "sys_step L B P S K (Typed argv E) s =
     (case nuki_cmds L B P S argv E (s_app s, s_psa s, s_flash s) of
        None \<Rightarrow> s
      | Some (rc, out, a, ps, flash) \<Rightarrow> s\<lparr>s_app := a, s_psa := ps, s_flash := flash\<rparr>)"
| "sys_step L B P S K (Host e) s = s\<lparr>s_app := bt_handle L e (s_app s)\<rparr>"

definition sys_boot :: "'q \<Rightarrow> app \<Rightarrow> 's \<Rightarrow> 'f \<Rightarrow> bool \<Rightarrow> ('s, 'f, 'q) sys" where
  "sys_boot q a ps flash uart =
     \<lparr>s_app = a, s_psa = ps, s_flash = flash, s_uart = uart, s_rx = uart_rx_boot, s_queue = q, s_out = [],
      s_bytes = [], s_served = []\<rparr>"

text \<open>What the flash holds has the sizes of the C structure.\<close>

definition flash_ok :: "(string \<Rightarrow> nuki_pairing_data option) \<Rightarrow> bool" where
  "flash_ok m \<longleftrightarrow> (\<forall>d. m ''nuki/pairing'' = Some d \<longrightarrow> length (shared_key d) = 32 \<and> length (lock_uuid d) = 16)"

inductive reach ::
    "bt_lib \<Rightarrow> byteorder \<Rightarrow> 's psa \<Rightarrow> 'f settings \<Rightarrow> ('f \<Rightarrow> string \<Rightarrow> nuki_pairing_data option) \<Rightarrow> 'q msgq \<Rightarrow> 'q
     \<Rightarrow> ('s, 'f, 'q) sys \<Rightarrow> bool" for L B P S stored K q0 where
  power_on:
    "flash_ok (stored flash) \<Longrightarrow> main bt_rc P settings_rc S stored flash ready cb ps = (rc, Some (a, uart), ps') \<Longrightarrow>
     reach L B P S stored K q0 (sys_boot q0 a ps' flash uart)"
| step:
    "reach L B P S stored K q0 s \<Longrightarrow> reach L B P S stored K q0 (sys_step L B P S K act s)"
| restart:
    "reach L B P S stored K q0 s \<Longrightarrow>
     main bt_rc P settings_rc S stored (s_flash s) ready cb ps = (rc, Some (a, uart), ps') \<Longrightarrow>
     reach L B P S stored K q0 (sys_boot q0 a ps' (s_flash s) uart)"

section \<open>Operations on the shared state\<close>

lemma main_starts:
  "main bt_rc P settings_rc S stored flash ready cb ps = (rc, Some (a, uart), ps') \<Longrightarrow> a = app_boot (settings_load S stored flash)"
  by (auto simp: main_def nuki_app_init_def app_boot_def split: prod.splits if_splits)

lemma storage_ok_load: "flash_ok (stored flash) \<Longrightarrow> storage_ok (settings_load S stored flash)"
  by (auto simp: settings_load_def nuki_settings_set_def storage_ok_def flash_ok_def storage_boot_def pairing_zero_def
      split: option.split)

text \<open>What the steps keep of the application's state and of the flash.\<close>

definition world_ok :: "('f \<Rightarrow> string \<Rightarrow> nuki_pairing_data option) \<Rightarrow> app \<times> 's \<times> 'f \<Rightarrow> bool" where
  "world_ok stored w \<longleftrightarrow> (case w of (a, ps, flash) \<Rightarrow> app_ok a \<and> \<not> g_op_lock a \<and> flash_ok (stored flash))"

lemma pair_flash_ok:
  assumes "settings_ok S stored" "nuki_app_pair L B P S E (a, ps, flash) = (rc, a', ps', flash')" "flash_ok (stored flash)"
  shows "flash_ok (stored flash')"
proof -
  obtain a1 where "pair_locked L B P S E (a\<lparr>g_op_lock := True\<rparr>, ps, flash) = (rc, a1, ps', flash')"
    using public_ops(4) [OF assms(2)] by blast
  then show ?thesis
  proof (cases rule: pair_locked_cases)
    case (paired a2 s d d' st)
    note save_pairing_effect(3) [OF assms(1) paired(5)]
    then show ?thesis using pairing_run_lengths [OF paired(3)] paired(4) assms(3) by (auto simp: flash_ok_def)
  qed (use assms(3) in simp_all)
qed

text \<open>
  What a step asks the application to do, the operation that it runs for it, and that each step runs exactly this operation.
\<close>

datatype request = Nothing | Pairing | Query | Polling | Action u8 | Calibration u16

definition frame_request :: "rx_frame \<Rightarrow> request" where
  "frame_request f =
     (if f_cmd f = NUKI_UART_CMD_PAIR then Pairing
      else if f_cmd f = NUKI_UART_CMD_LOCK then Action NUKI_LOCK_ACTION_LOCK
      else if f_cmd f = NUKI_UART_CMD_UNLOCK then Action NUKI_LOCK_ACTION_UNLOCK
      else if f_cmd f = NUKI_UART_CMD_UNLATCH then Action NUKI_LOCK_ACTION_UNLATCH
      else if f_cmd f = NUKI_UART_CMD_CALIBRATE \<and> f_len f = 2 then Calibration (req_pin (calibrate_overlay (f_payload f)))
      else Nothing)"

definition typed_request :: "string list \<Rightarrow> request" where
  "typed_request argv =
     (case argv of
        [] \<Rightarrow> Nothing
      | name # args \<Rightarrow>
          if name = ''pair'' then Pairing
          else if name = ''state'' then Query
          else if name = ''lock'' then Action NUKI_LOCK_ACTION_LOCK
          else if name = ''unlock'' then Action NUKI_LOCK_ACTION_UNLOCK
          else if name = ''unlatch'' then Action NUKI_LOCK_ACTION_UNLATCH
          else if name = ''calibrate'' \<and> length args = 1 \<and> snd (strtoul (hd args)) = [] \<and> fst (strtoul (hd args)) \<le> 0xFFFF
          then Calibration (of_nat (fst (strtoul (hd args))))
          else Nothing)"

fun performs ::
    "bt_lib \<Rightarrow> byteorder \<Rightarrow> 's psa \<Rightarrow> 'f settings \<Rightarrow> env \<Rightarrow> request \<Rightarrow> ('s, 'f) world \<Rightarrow> ('s, 'f) world" where
  "performs L B P S E Nothing w = w"
| "performs L B P S E Pairing w = snd (nuki_app_pair L B P S E w)"
| "performs L B P S E Query w = (case w of (a, ps, flash) \<Rightarrow> (snd (nuki_app_get_state L B E a), ps, flash))"
| "performs L B P S E Polling w = (case w of (a, ps, flash) \<Rightarrow> (snd (state_poll_round L B E a), ps, flash))"
| "performs L B P S E (Action act) w = (case w of (a, ps, flash) \<Rightarrow> (snd (nuki_app_lock_action L B act E a), ps, flash))"
| "performs L B P S E (Calibration pin) w = (case w of (a, ps, flash) \<Rightarrow> (snd (nuki_app_calibrate L B pin E a), ps, flash))"

lemma dispatch_performs: "snd (dispatch_frame L B P S E now f w) = performs L B P S E (frame_request f) w"
proof -
  obtain a ps flash where w: "w = (a, ps, flash)" by (metis prod_cases3)
  have l: "snd (handle_lock_action L B action cmd E now a) = snd (nuki_app_lock_action L B action E a)" for action cmd
    by (simp add: handle_lock_action_def Let_def split: prod.split)
  have p: "snd (handle_pair L B P S E w) = snd (nuki_app_pair L B P S E w)"
    by (simp add: handle_pair_def split: prod.split)
  have c: "snd (handle_calibrate L B f E a) =
      (if f_len f = 2 then snd (nuki_app_calibrate L B (req_pin (calibrate_overlay (f_payload f))) E a) else a)"
    by (simp add: handle_calibrate_def Let_def split: prod.split)
  have fs: "snd (case x of (out, a) \<Rightarrow> (out, a, ps, flash)) = (snd x, ps, flash)" for x :: "bytes \<times> app" by (cases x) simp
  show ?thesis
    using p unfolding w dispatch_frame_def frame_request_def
    by (simp add: fs l c Let_def)
qed

lemma cmds_performs:
  "(case nuki_cmds L B P S argv E w of None \<Rightarrow> w | Some (rc, out, w') \<Rightarrow> w') = performs L B P S E (typed_request argv) w"
proof -
  obtain a ps flash where w: "w = (a, ps, flash)" by (metis prod_cases3)
  have l: "snd (snd (do_lock_action L B action name E a)) = snd (nuki_app_lock_action L B action E a)" for action name
    by (simp add: do_lock_action_def Let_def split: prod.split)
  have p: "snd (snd (cmd_nuki_pair L B P S E w)) = snd (nuki_app_pair L B P S E w)"
    by (simp add: cmd_nuki_pair_def Let_def split: prod.split)
  have g: "snd (snd (cmd_nuki_state L B E a)) = snd (nuki_app_get_state L B E a)"
    by (simp add: cmd_nuki_state_def split: prod.split sum.split)
  have c: "snd (snd (cmd_nuki_calibrate L B (n # args) E a)) =
      (if length args = 1 \<and> snd (strtoul (hd args)) = [] \<and> fst (strtoul (hd args)) \<le> 0xFFFF
       then snd (nuki_app_calibrate L B (of_nat (fst (strtoul (hd args)))) E a) else a)" for n args
    by (cases args) (auto simp: cmd_nuki_calibrate_def Let_def split: prod.split)
  have fs: "(case (case x of (rc, out, a) \<Rightarrow> Some (rc, out, a, ps, flash)) of None \<Rightarrow> w | Some (rc, out, w') \<Rightarrow> w') = (snd (snd x), ps, flash)"
    for x :: "int \<times> shell_line list \<times> app" by (cases x) simp
  show ?thesis
  proof (cases argv)
    case (Cons n args)
    then show ?thesis
      using p unfolding nuki_cmds_def typed_request_def cmd_nuki_lock_def cmd_nuki_unlock_def cmd_nuki_unlatch_def
      by (simp add: w fs [unfolded w] l g c Let_def cmd_nuki_status_def case_prod_beta)
  qed (simp add: nuki_cmds_def typed_request_def)
qed

lemma pair_world_ok:
  assumes "settings_ok S stored" "world_ok stored w"
  shows "world_ok stored (snd (nuki_app_pair L B P S E w))"
proof -
  obtain a ps flash where w: "w = (a, ps, flash)" by (metis prod_cases3)
  obtain rc a' ps' flash' where r: "nuki_app_pair L B P S E (a, ps, flash) = (rc, a', ps', flash')" by (metis prod_cases4)
  have ok: "app_ok a" "flash_ok (stored flash)" using assms(2) by (simp_all add: w world_ok_def)
  show ?thesis
    unfolding w using public_ops_app_ok(4) [OF ok(1) r] pair_flash_ok [OF assms(1) r ok(2)] by (simp add: r world_ok_def)
qed

lemma poll_op_lock:
  assumes "\<not> g_op_lock a" "state_poll_round L B E a = (n, a')"
  shows "\<not> g_op_lock a'"
proof -
  obtain r a1 where g: "nuki_app_get_state L B E a = (r, a1)" by fastforce
  then have "\<not> g_op_lock a1" using public_ops(1) [OF g] by auto
  then show ?thesis using assms g by (auto simp: state_poll_round_def split: if_splits sum.splits)
qed

lemma performs_ok:
  assumes "settings_ok S stored" "world_ok stored w"
  shows "world_ok stored (performs L B P S E req w)"
proof -
  obtain a ps flash where w: "w = (a, ps, flash)" by (metis prod_cases3)
  have ok: "app_ok a" "\<not> g_op_lock a" "flash_ok (stored flash)" using assms(2) by (simp_all add: w world_ok_def)
  note ops = public_ops_app_ok(1-3) [OF ok(1) prod.collapse [symmetric]]
    poll_app_ok [OF ok(1) prod.collapse [symmetric]] poll_op_lock [OF ok(2) prod.collapse [symmetric]]
  show ?thesis
    using pair_world_ok [OF assms] by (cases req) (simp_all add: w world_ok_def ok ops)
qed

section \<open>Orders\<close>

lemma poll_orders:
  assumes "byteorder_ok B" "app_ok a" "state_poll_round L B E a = (n, a')" "nuki_storage_get_pairing (g_storage a) = Some p"
  shows "orders (shared_key p) a a' = {}"
proof -
  obtain r a1 where g: "nuki_app_get_state L B E a = (r, a1)" by fastforce
  have "air a' \<in> {air a, air a1}" using assms(3) g by (auto simp: state_poll_round_def split: if_splits sum.splits)
  then show ?thesis using get_state_orders [OF assms(1,2) g assms(4)] by (auto simp: orders_def)
qed

text \<open>Under the stored key, an operation orders nothing but what was requested.\<close>

fun request_order :: "request \<Rightarrow> order option" where
  "request_order (Action action) = Some (Lock_action action)"
| "request_order (Calibration pin) = Some (Calibrate pin)"
| "request_order _ = None"

lemma performs_orders:
  assumes B: "byteorder_ok B" and P: "psa_spec P kv X" and ok: "app_ok a" and p: "nuki_storage_get_pairing (g_storage a) = Some p"
    and r: "performs L B P S E req (a, ps, flash) = (a', ps', flash')"
  shows "orders (shared_key p) a a' \<subseteq> set_option (request_order req)"
proof (cases req)
  case Pairing
  then obtain rc where "nuki_app_pair L B P S E (a, ps, flash) = (rc, a', ps', flash')" using r by (metis performs.simps(2) prod.collapse)
  from pair_orders [OF B P app_ok_key [OF ok p] this] show ?thesis by simp
next
  case Query
  then show ?thesis using get_state_orders [OF B ok prod.collapse [symmetric] p, of L E] r by simp
next
  case Polling
  then show ?thesis using poll_orders [OF B ok prod.collapse [symmetric] p, of L E] r by simp
next
  case (Action act)
  then show ?thesis using lock_action_orders(1) [OF B ok prod.collapse [symmetric] p, of L act E] r by simp
next
  case (Calibration pin)
  then show ?thesis using calibrate_orders(1) [OF B ok prod.collapse [symmetric] p, of L pin E] r by simp
qed (use r in simp)

text \<open>The requests that order something, as they arrive on the serial line and as they are typed.\<close>

definition frame_orders :: "u8 \<times> bytes \<Rightarrow> order \<Rightarrow> bool" where
  "frame_orders f x \<longleftrightarrow>
     (fst f, x) \<in> {(NUKI_UART_CMD_LOCK, Lock_action 2), (NUKI_UART_CMD_UNLOCK, Lock_action 1), (NUKI_UART_CMD_UNLATCH, Lock_action 3)} \<or>
     fst f = NUKI_UART_CMD_CALIBRATE \<and> x = Calibrate (of_nat (le_val (snd f)))"

definition typed_orders :: "string list \<Rightarrow> order \<Rightarrow> bool" where
  "typed_orders argv x \<longleftrightarrow>
     (\<exists>name args. argv = name # args \<and> (name, x) \<in> {(''lock'', Lock_action 2), (''unlock'', Lock_action 1), (''unlatch'', Lock_action 3)}) \<or>
     (\<exists>arg n. argv = [''calibrate'', arg] \<and> strtoul arg = (n, []) \<and> n \<le> 0xFFFF \<and> x = Calibrate (of_nat n))"

lemma frame_request_order: "request_order (frame_request f) = Some x \<Longrightarrow> frame_orders (frame_of f) x"
  by (auto simp: frame_request_def frame_orders_def frame_of_def calibrate_overlay_def split: if_splits)

lemma typed_request_order:
  assumes "request_order (typed_request argv) = Some x"
  shows "typed_orders argv x"
proof (cases argv)
  case (Cons name args)
  show ?thesis
  proof (cases "name = ''calibrate''")
    case True
    then obtain arg where "args = [arg]" using assms Cons by (auto simp: typed_request_def length_Suc_conv split: if_splits)
    then show ?thesis
      using assms Cons True by (auto simp: typed_request_def typed_orders_def prod_eq_iff split: if_splits)
  next
    case False
    then show ?thesis using assms Cons by (auto simp: typed_request_def typed_orders_def split: if_splits)
  qed
qed (use assms in \<open>simp add: typed_request_def\<close>)

section \<open>The invariant\<close>

definition serial_ok :: "('q \<Rightarrow> rx_frame list) \<Rightarrow> ('s, 'f, 'q) sys \<Rightarrow> bool" where
  "serial_ok items s \<longleftrightarrow>
     length (items (s_queue s)) \<le> NUKI_UART_MSGQ_LEN \<and>
     (\<exists>fs. receive (s_bytes s) uart_rx_boot = (s_rx s, fs) \<and> subseq (s_served s @ items (s_queue s)) fs) \<and>
     (\<exists>outs. s_out s = concat outs \<and> list_all2 (\<lambda>f. responds (f_cmd f) (response_len (f_cmd f))) (s_served s) outs)"

abbreviation sys_world :: "('s, 'f, 'q) sys \<Rightarrow> ('s, 'f) world" where
  "sys_world s \<equiv> (s_app s, s_psa s, s_flash s)"

text \<open>What a step asks for, and the world after it.\<close>

definition act_request :: "'q msgq \<Rightarrow> sys_act \<Rightarrow> ('s, 'f, 'q) sys \<Rightarrow> request" where
  "act_request K act s =
     (case act of
        Serve E now \<Rightarrow> (case k_msgq_get K (s_queue s) of Some (f, q) \<Rightarrow> if s_uart s then frame_request f else Nothing | None \<Rightarrow> Nothing)
      | Poll E \<Rightarrow> Polling
      | Typed argv E \<Rightarrow> typed_request argv
      | _ \<Rightarrow> Nothing)"

primrec act_env :: "sys_act \<Rightarrow> env option" where
  "act_env (Interrupt u r bs) = None"
| "act_env (Serve E now) = Some E"
| "act_env (Poll E) = Some E"
| "act_env (Typed argv E) = Some E"
| "act_env (Host e) = None"

lemma step_performs:
  assumes "act_env act = Some E"
  shows "sys_world (sys_step L B P S K act s) = performs L B P S E (act_request K act s) (sys_world s)"
proof (cases act)
  case (Serve E' now)
  show ?thesis
  proof (cases "k_msgq_get K (s_queue s)")
    case (Some fq)
    then show ?thesis
      using Serve assms dispatch_performs [of L B P S E now "fst fq" "sys_world s"]
      by (cases fq) (auto simp: act_request_def serve_def split: prod.split)
  qed (use Serve in \<open>simp add: act_request_def serve_def\<close>)
next
  case (Typed argv E')
  then show ?thesis
    using assms cmds_performs [where w = "sys_world s" and argv = argv and E = E and L = L and B = B and P = P and S = S] by (auto simp: act_request_def split: option.splits)
qed (use assms in \<open>auto simp: act_request_def split: prod.split\<close>)

lemma step_world_ok:
  assumes "settings_ok S stored" "world_ok stored (sys_world s)"
  shows "world_ok stored (sys_world (sys_step L B P S K act s))"
proof (cases "act_env act")
  case (Some E)
  show ?thesis unfolding step_performs [OF Some] by (rule performs_ok [OF assms])
next
  case None
  then show ?thesis
    using assms(2) app_ok_events [of "s_app s" L "[e]" for e]
    by (cases act) (auto simp: world_ok_def split: prod.split)
qed

lemma interrupt_queue:
  assumes "msgq_ok K items" "length (items (s_queue s)) \<le> NUKI_UART_MSGQ_LEN" "s_uart s"
    and "receive bs (s_rx s) = (r, fs)"
  shows "sys_step L B P S K (Interrupt True True bs) s =
      s\<lparr>s_rx := r, s_queue := fold (\<lambda>f q. k_msgq_put K q f) fs (s_queue s), s_bytes := s_bytes s @ bs\<rparr>"
    "items (s_queue (sys_step L B P S K (Interrupt True True bs) s)) = take NUKI_UART_MSGQ_LEN (items (s_queue s) @ fs)"
proof -
  show *: "sys_step L B P S K (Interrupt True True bs) s =
      s\<lparr>s_rx := r, s_queue := fold (\<lambda>f q. k_msgq_put K q f) fs (s_queue s), s_bytes := s_bytes s @ bs\<rparr>"
    using assms(3,4) serial_bytes_put [of "k_msgq_put K" bs "s_rx s" "s_queue s"] by (simp add: serial_cb_def)
  show "items (s_queue (sys_step L B P S K (Interrupt True True bs) s)) = take NUKI_UART_MSGQ_LEN (items (s_queue s) @ fs)"
    unfolding * using msgq_puts [OF assms(1,2)] by simp
qed

lemma step_serial_ok:
  assumes K: "msgq_ok K items" and ok: "serial_ok items s"
  shows "serial_ok items (sys_step L B P S K act s)"
proof (cases act)
  case (Interrupt u v bs)
  show ?thesis
  proof (cases "s_uart s \<and> u \<and> v")
    case True
    obtain fs where fs: "receive (s_bytes s) uart_rx_boot = (s_rx s, fs)" "subseq (s_served s @ items (s_queue s)) fs"
      and len: "length (items (s_queue s)) \<le> NUKI_UART_MSGQ_LEN" using ok by (auto simp: serial_ok_def)
    obtain r new where new: "receive bs (s_rx s) = (r, new)" by fastforce
    note q = interrupt_queue [OF K len _ new, of L B P S]
    have "subseq (take NUKI_UART_MSGQ_LEN (items (s_queue s) @ new)) (items (s_queue s) @ new)"
      by (rule prefix_imp_subseq [OF take_is_prefix])
    then have "subseq (s_served s @ take NUKI_UART_MSGQ_LEN (items (s_queue s) @ new)) (s_served s @ items (s_queue s) @ new)"
      by (rule list_emb_append_mono [OF subseq_order.refl])
    also have "subseq (s_served s @ items (s_queue s) @ new) (fs @ new)"
      using list_emb_append_mono [OF fs(2), of new new] by simp
    finally have sub: "subseq (s_served s @ take NUKI_UART_MSGQ_LEN (items (s_queue s) @ new)) (fs @ new)" .
    have all: "receive (s_bytes s @ bs) uart_rx_boot = (r, fs @ new)"
      unfolding receive_append [of "s_bytes s" bs uart_rx_boot] by (simp only: fs(1) new prod.case)
    have eq: "sys_step L B P S K act s =
        s\<lparr>s_rx := r, s_queue := fold (\<lambda>f q. k_msgq_put K q f) new (s_queue s), s_bytes := s_bytes s @ bs\<rparr>"
      using q(1) True Interrupt by simp
    show ?thesis
      using ok sub all msgq_puts [OF K len, of new] unfolding eq serial_ok_def by auto
  qed (use ok Interrupt in \<open>auto simp: serial_cb_def serial_ok_def\<close>)
next
  case (Serve E now)
  show ?thesis
  proof (cases "k_msgq_get K (s_queue s)")
    case (Some fq)
    obtain f q where fq: "fq = (f, q)" by fastforce
    obtain out w where d: "dispatch_frame L B P S E now f (sys_world s) = (out, w)" by (metis surj_pair)
    have "responds (f_cmd f) (response_len (f_cmd f)) out" using dispatch_responds [of f L B P S E now "sys_world s"] d by simp
    moreover obtain outs where "s_out s = concat outs"
      "list_all2 (\<lambda>f. responds (f_cmd f) (response_len (f_cmd f))) (s_served s) outs" using ok by (auto simp: serial_ok_def)
    ultimately have "\<exists>outs. s_out s @ out = concat outs \<and>
        list_all2 (\<lambda>f. responds (f_cmd f) (response_len (f_cmd f))) (s_served s @ [f]) outs"
      by (intro exI [of _ "outs @ [out]"]) (simp add: list_all2_appendI)
    then show ?thesis
      using ok Serve Some fq d msgq_get [OF K Some [unfolded fq]] by (cases w) (auto simp: serial_ok_def serve_def)
  qed (use ok Serve in \<open>simp add: serve_def\<close>)
next
  case (Poll E)
  then show ?thesis using ok by (simp add: serial_ok_def split: prod.split)
next
  case (Typed argv E)
  then show ?thesis using ok by (simp add: serial_ok_def split: option.split)
next
  case (Host e)
  then show ?thesis using ok by (simp add: serial_ok_def)
qed

lemma serial_ok_boot: "items q0 = [] \<Longrightarrow> serial_ok items (sys_boot q0 a ps flash uart)"
  by (simp add: serial_ok_def sys_boot_def)

lemma boot_world_ok:
  assumes "flash_ok (stored flash)" "main bt_rc P settings_rc S stored flash ready cb ps = (rc, Some (a, uart), ps')"
  shows "world_ok stored (sys_world (sys_boot q0 a ps' flash uart))"
  using app_ok_boot [OF storage_ok_load [where stored = stored and S = S, OF assms(1)]] assms
  by (simp add: world_ok_def sys_boot_def main_starts [OF assms(2)]) (simp add: app_boot_def)

lemma reach_ok:
  assumes "settings_ok S stored" "msgq_ok K items" "items q0 = []" "reach L B P S stored K q0 s"
  shows "world_ok stored (sys_world s) \<and> serial_ok items s"
  using assms(4)
proof induction
  case (power_on flash bt_rc settings_rc ready cb ps rc a uart ps')
  from boot_world_ok [OF this] show ?case by (intro conjI serial_ok_boot assms(3))
next
  case (step s act)
  then show ?case using step_world_ok [OF assms(1)] step_serial_ok [OF assms(2)] by blast
next
  case (restart s bt_rc settings_rc ready cb ps rc a uart ps')
  have "flash_ok (stored (s_flash s))" using restart.IH by (simp add: world_ok_def)
  from boot_world_ok [OF this restart.hyps(2)] show ?case by (intro conjI serial_ok_boot assms(3))
qed

lemma serial_parses:
  assumes "serial_ok items s"
  obtains fs where "receive (s_bytes s) uart_rx_boot = (s_rx s, fs)" "map frame_of fs = parse_stream (s_bytes s)"
    "subseq (s_served s @ items (s_queue s)) fs"
proof -
  obtain fs where fs: "receive (s_bytes s) uart_rx_boot = (s_rx s, fs)" "subseq (s_served s @ items (s_queue s)) fs"
    using assms by (auto simp: serial_ok_def)
  have "r_state uart_rx_boot = RX_WAIT_SOF" by (simp add: uart_rx_boot_def)
  from receive_parses [OF uart_rx_boot_ok this, of "s_bytes s"] show thesis using that fs by simp
qed

lemma new_requests:
  assumes "serial_ok items s" "receive bs (s_rx s) = (r, new)"
  shows "map frame_of new = drop (length (parse_stream (s_bytes s))) (parse_stream (s_bytes s @ bs))"
proof -
  obtain fs where fs: "receive (s_bytes s) uart_rx_boot = (s_rx s, fs)" "map frame_of fs = parse_stream (s_bytes s)"
    using serial_parses [OF assms(1)] by blast
  have "receive (s_bytes s @ bs) uart_rx_boot = (r, fs @ new)"
    unfolding receive_append [of "s_bytes s" bs uart_rx_boot] by (simp only: fs(1) assms(2) prod.case)
  moreover have "r_state uart_rx_boot = RX_WAIT_SOF" by (simp add: uart_rx_boot_def)
  ultimately have "parse_stream (s_bytes s @ bs) = map frame_of (fs @ new)"
    using receive_parses [OF uart_rx_boot_ok, of "s_bytes s @ bs"] by (simp only: snd_conv)
  then show ?thesis unfolding fs(2) [symmetric] by simp
qed

lemma waiting_payload_length:
  assumes "serial_ok items s" "f \<in> set (items (s_queue s))"
  shows "length (f_payload f) = 32"
proof -
  obtain fs where fs: "receive (s_bytes s) uart_rx_boot = (s_rx s, fs)" "subseq (s_served s @ items (s_queue s)) fs"
    using serial_parses [OF assms(1)] by blast
  have "f \<in> set (s_served s @ items (s_queue s))" using assms(2) by simp
  then have "f \<in> set fs" by (rule list_emb_set [OF fs(2)]) simp
  then show ?thesis using receive_payload_length [OF uart_rx_boot_ok, of f "s_bytes s"] fs(1) by simp
qed

lemma served_received:
  assumes "msgq_ok K items" "serial_ok items s" "k_msgq_get K (s_queue s) = Some (f, q)"
  shows "frame_of f \<in> set (parse_stream (s_bytes s))"
proof -
  obtain fs where fs: "map frame_of fs = parse_stream (s_bytes s)" "subseq (s_served s @ items (s_queue s)) fs"
    using serial_parses [OF assms(2)] by metis
  have "f \<in> set (s_served s @ items (s_queue s))" using msgq_get [OF assms(1,3)] by simp
  then have "f \<in> set fs" by (rule list_emb_set [OF fs(2)]) simp
  then show ?thesis using fs(1) by (metis image_eqI list.set_map)
qed

section \<open>An example\<close>

definition demo_msgq :: "rx_frame list msgq" where
  "demo_msgq = \<lparr>k_msgq_put = (\<lambda>q f. if length q < NUKI_UART_MSGQ_LEN then q @ [f] else q),
                k_msgq_get = (\<lambda>q. case q of [] \<Rightarrow> None | f # q \<Rightarrow> Some (f, q))\<rparr>"

lemma demo_msgq_ok: "msgq_ok demo_msgq (\<lambda>q. q)"
  by (simp add: msgq_ok_def demo_msgq_def split: list.split)

text \<open>A paired bridge is switched on, and the bytes of an UNLOCK request arrive.\<close>

abbreviation demo_reach :: "(bytes option list, (string \<times> nuki_pairing_data) list, rx_frame list) sys \<Rightarrow> bool" where
  "demo_reach \<equiv> reach demo_lib le_byteorder demo_psa demo_settings map_of demo_msgq []"

abbreviation demo_flash :: "(string \<times> nuki_pairing_data) list" where
  "demo_flash \<equiv> [(''nuki/pairing'', pairing demo_storage)]"

definition demo_sys :: "(bytes option list, (string \<times> nuki_pairing_data) list, rx_frame list) sys" where
  "demo_sys = sys_boot [] (app_boot demo_storage) (snd (nuki_crypto_init demo_psa [])) demo_flash True"

definition demo_asked :: "(bytes option list, (string \<times> nuki_pairing_data) list, rx_frame list) sys" where
  "demo_asked = sys_step demo_lib le_byteorder demo_psa demo_settings demo_msgq (Interrupt True True [0xA5, 5, 0]) demo_sys"

lemma demo_boot:
  "flash_ok (map_of demo_flash)"
  "main 0 demo_psa 0 demo_settings map_of demo_flash True 0 [] =
     (0, Some (app_boot demo_storage, True), snd (nuki_crypto_init demo_psa []))"
proof -
  show "flash_ok (map_of demo_flash)" by (simp add: flash_ok_def demo_storage_def pairing_zero_def)
  have l: "settings_load demo_settings map_of demo_flash = demo_storage"
    by (simp add: settings_load_def nuki_settings_set_def storage_boot_def demo_storage_def demo_settings_def)
  show "main 0 demo_psa 0 demo_settings map_of demo_flash True 0 [] =
      (0, Some (app_boot demo_storage, True), snd (nuki_crypto_init demo_psa []))"
    by (simp add: main_def l demo_keypair nuki_app_init_def nuki_uart_proto_init_def app_boot_def)
qed

lemma demo_sys_reach: "demo_reach demo_sys"
  unfolding demo_sys_def by (rule reach.power_on [OF demo_boot])

lemma demo_asked_reach: "demo_reach demo_asked"
  unfolding demo_asked_def by (rule reach.step [OF demo_sys_reach])

lemma demo_asked_queue:
  "\<exists>f. s_queue demo_asked = [f] \<and> f_cmd f = 5 \<and> s_uart demo_asked \<and> s_app demo_asked = app_boot demo_storage"
  by (simp add: demo_asked_def demo_sys_def sys_boot_def serial_cb_def serial_byte_def uart_rx_boot_def demo_msgq_def
      NUKI_UART_MSGQ_LEN_def)

section \<open>Properties\<close>

text \<open>
  C15: the invariant of the running firmware: in every state that interrupts, threads, shell, Bluetooth callbacks and power failures can produce, in
  whatever order, the transports are inside their buffers, the stored key and identifier have their sizes in RAM and in flash, the retry
  counter is at most 3, no operation holds the mutex between steps, the receiver is inside its buffer and at most four requests wait.
\<close>

theorem reachable_states_ok:
  assumes "settings_ok S stored" "msgq_ok K items" "items q0 = []" "reach L B P S stored K q0 s"
  shows "app_ok (s_app s) \<and> \<not> g_op_lock (s_app s) \<and> flash_ok (stored (s_flash s)) \<and> uart_rx_ok (s_rx s) \<and>
         length (items (s_queue s)) \<le> 4"
proof -
  note ok = reach_ok [OF assms]
  obtain fs where "receive (s_bytes s) uart_rx_boot = (s_rx s, fs)" using ok serial_parses by blast
  then have "uart_rx_ok (s_rx s)" using receive_ok [OF uart_rx_boot_ok, of "s_bytes s"] by simp
  then show ?thesis using ok by (simp add: world_ok_def serial_ok_def NUKI_UART_MSGQ_LEN_def)
qed

theorem reachable_states_ok_witness:
  "demo_reach demo_asked \<and> app_ok (s_app demo_asked) \<and> length (s_queue demo_asked) \<le> 4"
  using reachable_states_ok [OF demo_settings_ok demo_msgq_ok _ demo_asked_reach] demo_asked_reach by simp

text \<open>
  C16: the serial line is served in order: in every reachable state the requests answered so far and those waiting are, in this order, among the
  requests that were received; the output is one response for each answered request, in the same order; and an interrupt loses
  nothing as long as the waiting and the new requests fit into the four slots.
\<close>

theorem serial_line_in_order:
  assumes "settings_ok S stored" "msgq_ok K items" "items q0 = []" "reach L B P S stored K q0 s"
  shows "subseq (map frame_of (s_served s @ items (s_queue s))) (parse_stream (s_bytes s)) \<and>
    (\<exists>outs. s_out s = concat outs \<and> list_all2 (\<lambda>f. responds (f_cmd f) (response_len (f_cmd f))) (s_served s) outs) \<and>
    (let new = drop (length (parse_stream (s_bytes s))) (parse_stream (s_bytes s @ bs)) in
       s_uart s \<and> length (items (s_queue s)) + length new \<le> 4 \<longrightarrow>
       map frame_of (items (s_queue (sys_step L B P S K (Interrupt True True bs) s))) = map frame_of (items (s_queue s)) @ new)"
proof -
  have ok: "serial_ok items s" using reach_ok [OF assms] by blast
  obtain fs where fs: "receive (s_bytes s) uart_rx_boot = (s_rx s, fs)" "map frame_of fs = parse_stream (s_bytes s)"
    "subseq (s_served s @ items (s_queue s)) fs" using serial_parses [OF ok] .
  have len: "length (items (s_queue s)) \<le> NUKI_UART_MSGQ_LEN" using ok by (simp add: serial_ok_def)
  obtain r new where new: "receive bs (s_rx s) = (r, new)" by fastforce
  note d = new_requests [OF ok new, symmetric]
  have "map frame_of (items (s_queue (sys_step L B P S K (Interrupt True True bs) s))) = map frame_of (items (s_queue s)) @ map frame_of new"
    if "s_uart s" "length (items (s_queue s)) + length (map frame_of new) \<le> 4"
    using interrupt_queue(2) [OF assms(2) len that(1) new, of L B P S] that(2) by (simp add: NUKI_UART_MSGQ_LEN_def)
  moreover have "subseq (map frame_of (s_served s @ items (s_queue s))) (parse_stream (s_bytes s))"
    using subseq_map [OF fs(3), of frame_of] by (simp only: fs(2))
  ultimately show ?thesis using ok unfolding Let_def d serial_ok_def by blast
qed

theorem serial_line_in_order_witness:
  "demo_reach demo_sys \<and> map frame_of (s_queue demo_asked) = [(5, [])]"
proof -
  have "s_bytes demo_sys = []" "s_queue demo_sys = []" "s_uart demo_sys" by (simp_all add: demo_sys_def sys_boot_def)
  then show ?thesis
    using serial_line_in_order [OF demo_settings_ok demo_msgq_ok _ demo_sys_reach, of "[0xA5, 5, 0]"] demo_sys_reach
    by (simp add: demo_asked_def del: sys_step.simps)
qed

text \<open>
  C2: the lock is never operated unasked: whatever happens, in any reachable state of a paired bridge, a message that orders a lock action or a
  calibration under the stored key goes on the air only in a step in which the UART thread serves a request that was received on the serial line, or
  in which a command is typed in the shell; and what is ordered is what was asked for: lock, unlock and unlatch their action, calibrate a calibration
  with the PIN of the request. The poller, state queries, pairing, Bluetooth callbacks and interrupts never order anything.
\<close>

theorem no_unrequested_order:
  assumes "byteorder_ok B" "psa_spec P kv X" "settings_ok S stored" "msgq_ok K items" "items q0 = []"
    and "reach L B P S stored K q0 s" "nuki_storage_get_pairing (g_storage (s_app s)) = Some p"
    and "x \<in> orders (shared_key p) (s_app s) (s_app (sys_step L B P S K act s))"
  shows "(\<exists>E now f q. act = Serve E now \<and> k_msgq_get K (s_queue s) = Some (f, q) \<and> frame_of f \<in> set (parse_stream (s_bytes s)) \<and>
            frame_orders (frame_of f) x) \<or>
         (\<exists>E argv. act = Typed argv E \<and> typed_orders argv x)"
proof -
  note r = reach_ok [OF assms(3-6)]
  have ok: "app_ok (s_app s)" using r by (simp add: world_ok_def)
  show ?thesis
  proof (cases "act_env act")
    case None
    then have "air (s_app (sys_step L B P S K act s)) = air (s_app s)" by (cases act) (simp_all split: prod.split)
    then show ?thesis using assms(8) by simp
  next
    case (Some E)
    have req: "request_order (act_request K act s) = Some x"
      using performs_orders [OF assms(1,2) ok assms(7) step_performs [OF Some, symmetric]] assms(8) by (auto simp: in_mono)
    show ?thesis
    proof (cases act)
      case (Serve E' now)
      with req obtain f q where f: "k_msgq_get K (s_queue s) = Some (f, q)" "request_order (frame_request f) = Some x"
        by (auto simp: act_request_def split: option.splits if_splits)
      from Serve f(1) served_received [OF assms(4) conjunct2 [OF r] f(1)] frame_request_order [OF f(2)]
      show ?thesis by (intro disjI1 exI conjI)
    next
      case (Typed argv E')
      then show ?thesis using typed_request_order [of argv x] req by (simp add: act_request_def)
    qed (use req in \<open>simp_all add: act_request_def\<close>)
  qed
qed

theorem no_unrequested_order_witness:
  "\<exists>ws f. Lock_action 1 \<in> orders (shared_key (pairing demo_storage)) (s_app demo_asked)
       (s_app (sys_step demo_lib le_byteorder demo_psa demo_settings demo_msgq (Serve (demo_env ws) 0) demo_asked)) \<and>
     s_queue demo_asked = [f] \<and> frame_of f \<in> set (parse_stream (s_bytes demo_asked))"
proof -
  obtain ws a' where r: "nuki_app_lock_action demo_lib le_byteorder 1 (demo_env ws) (app_boot demo_storage) = (0, a')"
    using demo_lock_action by blast
  let ?act = "Serve (demo_env ws) 0"
  let ?s = "sys_step demo_lib le_byteorder demo_psa demo_settings demo_msgq ?act demo_asked"
  obtain f where f: "s_queue demo_asked = [f]" "f_cmd f = 5" "s_uart demo_asked" "s_app demo_asked = app_boot demo_storage"
    using demo_asked_queue by blast
  have g: "k_msgq_get demo_msgq (s_queue demo_asked) = Some (f, [])" by (simp add: f demo_msgq_def)
  have "act_request demo_msgq ?act demo_asked = Action 1" using f g by (simp add: act_request_def frame_request_def)
  then have "s_app ?s = a'"
    using step_performs [of ?act "demo_env ws" demo_lib le_byteorder demo_psa demo_settings demo_msgq demo_asked] r f(4)
    by (simp del: sys_step.simps)
  then have o1: "Lock_action 1 \<in> orders (shared_key (pairing demo_storage)) (s_app demo_asked) (s_app ?s)"
    using lock_action_orders(2) [OF le_byteorder_ok app_ok_boot [OF demo_storage_ok] r demo_paired] f(4) by simp
  have p: "nuki_storage_get_pairing (g_storage (s_app demo_asked)) = Some (pairing demo_storage)" using demo_paired f(4) by simp
  from no_unrequested_order [OF le_byteorder_ok demo_psa_ok demo_settings_ok demo_msgq_ok refl demo_asked_reach p o1]
  have "frame_of f \<in> set (parse_stream (s_bytes demo_asked))" using g by auto
  then show ?thesis using o1 f(1) by blast
qed

end
