(* ===== verification/Nuki_Live.thy ===== *)
theory Nuki_Live
  imports Nuki_System
begin

text \<open>
  The running firmware with a Bluetooth host that follows its rules (\<open>host_step\<close>). \<open>host_ok\<close> says that the events an operation meets are events that
  the host may produce in the state in which they happen; \<open>live\<close> are the states of the machine and of the link that arise in this way.

  In all of them the references of the connection are balanced; and whenever the link is down, a request is served if the lock is in range, after
  which the link is down again.
\<close>

section \<open>Operations under the rules of the host\<close>

definition connects :: "bt_lib \<Rightarrow> env \<Rightarrow> bool \<Rightarrow> link \<Rightarrow> app \<Rightarrow> link \<Rightarrow> bool" where
  "connects L E need k a k' \<longleftrightarrow> (if scan_rc E \<noteq> 0 then k' = k else host_run L k (attempt need a) (connect_events E) k')"

definition closes :: "bt_lib \<Rightarrow> env \<Rightarrow> link \<Rightarrow> app \<Rightarrow> link \<Rightarrow> bool" where
  "closes L E k a k' \<longleftrightarrow> (if g_conn a = None then k' = k else host_run L k (disconnecting a) (disconnect_events E) k')"

text \<open>A command over the Keyturner characteristic, given what it does to the transport.\<close>

definition command_ok :: "bt_lib \<Rightarrow> env \<Rightarrow> (io \<Rightarrow> io) \<Rightarrow> link \<Rightarrow> app \<Rightarrow> link \<Rightarrow> bool" where
  "command_ok L E run k a k' \<longleftrightarrow>
     (\<exists>k1. connects L E False k a k1 \<and>
        (case connect_to_lock L False E a of (e, a1) \<Rightarrow>
           if e \<noteq> 0 then k' = k1
           else let s = run (session_io E (g_usdio a1)) in
             \<exists>k2. host_run L k1 (a1\<lparr>g_usdio := tr s, air := air a1 @ sent s, waited := waited a1 + blocked s\<rparr>) (op_events E) k2 \<and>
                  closes L E k2 (usdio_session L E s a1) k'))"

text \<open>The handshake; the new pairing is in place before the connection is closed.\<close>

definition pair_ok :: "bt_lib \<Rightarrow> byteorder \<Rightarrow> 's psa \<Rightarrow> 'f settings \<Rightarrow> env \<Rightarrow> link \<Rightarrow> app \<times> 's \<times> 'f \<Rightarrow> link \<Rightarrow> bool" where
  "pair_ok L B P S E k w k' \<longleftrightarrow>
     (case w of (a, ps, flash) \<Rightarrow>
      \<exists>k1. connects L E True k a k1 \<and>
        (case connect_to_lock L True E a of (e, a1) \<Rightarrow>
           if e \<noteq> 0 then k' = k1
           else if \<not> g_gdio_ready a1 then closes L E k1 a1 k'
           else case nuki_pairing_run B P (session_io E (g_gdio a1), ps) of (r, s, ps') \<Rightarrow>
             \<exists>k2. host_run L k1 (a1\<lparr>g_gdio := tr s, air := air a1 @ sent s, waited := waited a1 + blocked s\<rparr>) (op_events E) k2 \<and>
               closes L E k2
                 (let a2 = gdio_session L E s a1
                  in case r of
                       Inl _ \<Rightarrow> a2
                     | Inr d \<Rightarrow> a2\<lparr>g_storage := fst (snd (nuki_storage_save_pairing S (d\<lparr>addr := bt_conn_get_dst L (g_conn a2)\<rparr>) (g_storage a2) flash))\<rparr>)
                 k'))"

text \<open>What a command does to the transport.\<close>

fun command_io :: "byteorder \<Rightarrow> nuki_pairing_data \<Rightarrow> request \<Rightarrow> io \<Rightarrow> io" where
  "command_io B p (Action act) s = snd (snd (nuki_command_lock_action B (auth_id p) (app_id p) (shared_key p) act True s))"
| "command_io B p (Calibration pin) s = snd (nuki_command_calibrate B (auth_id p) (shared_key p) pin s)"
| "command_io B p _ s = snd (nuki_command_get_state B (auth_id p) (shared_key p) s)"

lemma command_io_eta:
  "command_io B p (Action act) = (\<lambda>s. snd (snd (nuki_command_lock_action B (auth_id p) (app_id p) (shared_key p) act True s)))"
  "command_io B p (Calibration pin) = (\<lambda>s. snd (nuki_command_calibrate B (auth_id p) (shared_key p) pin s))"
  "command_io B p Query = (\<lambda>s. snd (nuki_command_get_state B (auth_id p) (shared_key p) s))"
  "command_io B p Polling = (\<lambda>s. snd (nuki_command_get_state B (auth_id p) (shared_key p) s))"
  by (rule ext, simp)+

definition host_ok ::
    "bt_lib \<Rightarrow> byteorder \<Rightarrow> 's psa \<Rightarrow> 'f settings \<Rightarrow> env \<Rightarrow> request \<Rightarrow> link \<Rightarrow> app \<times> 's \<times> 'f \<Rightarrow> link \<Rightarrow> bool" where
  "host_ok L B P S E req k w k' \<longleftrightarrow>
     (case w of (a, ps, flash) \<Rightarrow>
      let a = a\<lparr>g_op_lock := True\<rparr>
      in (case req of
           Nothing \<Rightarrow> k' = k
         | Pairing \<Rightarrow> pair_ok L B P S E k (a, ps, flash) k'
         | _ \<Rightarrow> (case nuki_storage_get_pairing (g_storage a) of
                   None \<Rightarrow> k' = k
                 | Some p \<Rightarrow> command_ok L E (command_io B p req) k a k')))"

section \<open>References\<close>

lemma conn_inv_cong: "same_link a a' \<Longrightarrow> conn_inv k a' = conn_inv k a"
  using conn_inv_same_link [of a a' k] conn_inv_same_link [of a' a k] by (auto simp: same_link_def)

lemma conn_inv_other [simp]:
  "conn_inv k (a\<lparr>g_op_lock := b\<rparr>) = conn_inv k a" "conn_inv k (a\<lparr>g_storage := st\<rparr>) = conn_inv k a"
  "conn_inv k (cache_action rc cap now a) = conn_inv k a"
  by (rule conn_inv_cong, simp add: same_link_def cache_action_def split: option.split)+

lemma closes_conn_inv: "conn_inv k a \<Longrightarrow> closes L E k a k' \<Longrightarrow> conn_inv k' (disconnect_from_lock L E a)"
  unfolding closes_def by (rule disconnect_conn_inv)

lemma connects_conn_inv:
  "conn_inv k a \<Longrightarrow> connects L E need k a k' \<Longrightarrow> connect_to_lock L need E a = (e, a') \<Longrightarrow> conn_inv k' a'"
  using connect_conn_inv [of k a E k' L need] by (simp add: connects_def)

text \<open>The two ways in which a command on a paired lock ends.\<close>

lemma command_conn_inv:
  assumes inv: "conn_inv k a" and ok: "command_ok L E run k a k'" and c: "connect_to_lock L False E a = (e, a1)"
    and keep: "same_conn (session_io E (g_usdio a1)) (run (session_io E (g_usdio a1)))"
  shows "e \<noteq> 0 \<Longrightarrow> conn_inv k' a1"
    "e = 0 \<Longrightarrow> conn_inv k' (disconnect_from_lock L E (usdio_session L E (run (session_io E (g_usdio a1))) a1))"
proof -
  let ?s = "run (session_io E (g_usdio a1))"
  obtain k1 where k1: "connects L E False k a k1"
    "if e \<noteq> 0 then k' = k1
     else \<exists>k2. host_run L k1 (a1\<lparr>g_usdio := tr ?s, air := air a1 @ sent ?s, waited := waited a1 + blocked ?s\<rparr>) (op_events E) k2 \<and>
            closes L E k2 (usdio_session L E ?s a1) k'"
    using ok c unfolding command_ok_def by (auto simp only: Let_def prod.case)
  have inv1: "conn_inv k1 a1" by (rule connects_conn_inv [OF inv k1(1) c])
  show "e \<noteq> 0 \<Longrightarrow> conn_inv k' a1" using k1(2) inv1 by simp
  have t: "t_conn (tr ?s) = t_conn (g_usdio a1)" using keep by (simp add: same_conn_def)
  assume "e = 0"
  then obtain k2 where
    k2: "host_run L k1 (a1\<lparr>g_usdio := tr ?s, air := air a1 @ sent ?s, waited := waited a1 + blocked ?s\<rparr>) (op_events E) k2"
    "closes L E k2 (usdio_session L E ?s a1) k'" using k1(2) by auto
  show "conn_inv k' (disconnect_from_lock L E (usdio_session L E ?s a1))"
    by (rule closes_conn_inv [OF usdio_conn_inv [OF inv1 t k2(1)] k2(2)])
qed

lemma get_state_conn_inv:
  assumes "conn_inv k a" "nuki_storage_get_pairing (g_storage a) = Some p" "get_state_locked L B E a = (r, a')"
    and "command_ok L E (\<lambda>s. snd (nuki_command_get_state B (auth_id p) (shared_key p) s)) k a k'"
  shows "conn_inv k' a'"
  using assms(2,3)
proof (cases rule: get_state_locked_cases)
  case (refused e)
  show ?thesis
    by (rule command_conn_inv(1) [OF assms(1,4) refused(3) _ refused(1)]) (rule conn_kept.get_state_rel [OF prod.collapse [symmetric]])
next
  case (served a1 s)
  have "conn_inv k' (disconnect_from_lock L E (usdio_session L E (snd (nuki_command_get_state B (auth_id p) (shared_key p) (session_io E (g_usdio a1)))) a1))"
    by (rule command_conn_inv(2) [OF assms(1,4) served(1) _ refl]) (rule conn_kept.get_state_rel [OF prod.collapse [symmetric]])
  then show ?thesis by (simp add: served(2,3))
qed

lemma calibrate_conn_inv:
  assumes "conn_inv k a" "nuki_storage_get_pairing (g_storage a) = Some p" "calibrate_locked L B pin E a = (rc, a')"
    and "command_ok L E (\<lambda>s. snd (nuki_command_calibrate B (auth_id p) (shared_key p) pin s)) k a k'"
  shows "conn_inv k' a'"
  using assms(2,3)
proof (cases rule: calibrate_locked_cases)
  case refused
  show ?thesis
    by (rule command_conn_inv(1) [OF assms(1,4) refused(2) _ refused(1)]) (rule conn_kept.calibrate_rel [OF prod.collapse [symmetric]])
next
  case (served a1 s)
  have "conn_inv k' (disconnect_from_lock L E (usdio_session L E (snd (nuki_command_calibrate B (auth_id p) (shared_key p) pin (session_io E (g_usdio a1)))) a1))"
    by (rule command_conn_inv(2) [OF assms(1,4) served(1) _ refl]) (rule conn_kept.calibrate_rel [OF prod.collapse [symmetric]])
  then show ?thesis by (simp add: served(2,3))
qed

lemma lock_action_conn_inv:
  assumes "conn_inv k a" "nuki_storage_get_pairing (g_storage a) = Some p" "lock_action_locked L B act E a = (rc, a')"
    and "command_ok L E (\<lambda>s. snd (snd (nuki_command_lock_action B (auth_id p) (app_id p) (shared_key p) act True s))) k a k'"
  shows "conn_inv k' a'"
proof -
  let ?run = "\<lambda>s. snd (snd (nuki_command_lock_action B (auth_id p) (app_id p) (shared_key p) act True s))"
  have keep: "same_conn s (?run s)" for s
    using conn_kept.lock_action_rel [of B "auth_id p" "app_id p" "shared_key p" act True s] by (metis prod.collapse)
  from assms(2,3) show ?thesis
  proof (cases rule: lock_action_locked_cases)
    case refused
    show ?thesis by (rule command_conn_inv(1) [OF assms(1,4) refused(2) keep refused(1)])
  next
    case (served a1 s cap)
    have "conn_inv k' (disconnect_from_lock L E (usdio_session L E (?run (session_io E (g_usdio a1))) a1))"
      by (rule command_conn_inv(2) [OF assms(1,4) served(1) keep refl])
    then show ?thesis by (simp add: served(2,3))
  qed
qed

lemma pair_conn_inv:
  assumes inv: "conn_inv k a" and r: "pair_locked L B P S E (a, ps, flash) = (rc, a', ps', flash')"
    and ok: "pair_ok L B P S E k (a, ps, flash) k'"
  shows "conn_inv k' a'"
  using r
proof (cases rule: pair_locked_cases)
  case refused
  then show ?thesis using ok connects_conn_inv [OF inv _ refused(2)] by (auto simp: pair_ok_def)
next
  case (unsupported a1)
  then show ?thesis
    using ok connects_conn_inv [OF inv _ unsupported(1)] closes_conn_inv by (fastforce simp: pair_ok_def)
next
  case (failed a1 s)
  obtain k1 k2 where k: "connects L E True k a k1"
    "host_run L k1 (a1\<lparr>g_gdio := tr s, air := air a1 @ sent s, waited := waited a1 + blocked s\<rparr>) (op_events E) k2"
    "closes L E k2 (gdio_session L E s a1) k'"
    using ok failed by (auto simp: pair_ok_def)
  have "t_conn (tr s) = t_conn (g_gdio a1)" using conn_kept.pairing_run_rel [OF failed(3)] by (simp add: same_conn_def)
  from gdio_conn_inv [OF connects_conn_inv [OF inv k(1) failed(1)] this k(2)] show ?thesis
    unfolding failed(4) using closes_conn_inv k(3) by blast
next
  case (paired a1 s d d' st)
  obtain k1 k2 where k: "connects L E True k a k1"
    "host_run L k1 (a1\<lparr>g_gdio := tr s, air := air a1 @ sent s, waited := waited a1 + blocked s\<rparr>) (op_events E) k2"
    "closes L E k2 (gdio_session L E s a1\<lparr>g_storage := st\<rparr>) k'"
    using ok paired connect_frame(1) [OF paired(1)] by (auto simp: pair_ok_def Let_def)
  have "t_conn (tr s) = t_conn (g_gdio a1)" using conn_kept.pairing_run_rel [OF paired(3)] by (simp add: same_conn_def)
  from gdio_conn_inv [OF connects_conn_inv [OF inv k(1) paired(1)] this k(2)]
  have "conn_inv k2 (gdio_session L E s a1\<lparr>g_storage := st\<rparr>)" by simp
  then show ?thesis unfolding paired(6) using closes_conn_inv k(3) by blast
qed

text \<open>The poller updates only the cache and its counter after the query.\<close>

lemma poll_same_link:
  assumes "state_poll_round L B E a = (n, a')"
  obtains a1 where "a1 = (if nuki_app_is_paired a then snd (nuki_app_get_state L B E a) else a)" "same_link a1 a'"
  using assms by (auto simp: state_poll_round_def same_link_def case_prod_beta split: if_splits sum.splits)

lemma query_conn_inv:
  assumes "conn_inv k a" "case nuki_storage_get_pairing (g_storage a) of None \<Rightarrow> k' = k
      | Some p \<Rightarrow> command_ok L E (\<lambda>s. snd (nuki_command_get_state B (auth_id p) (shared_key p) s)) k (a\<lparr>g_op_lock := True\<rparr>) k'"
  shows "conn_inv k' (snd (nuki_app_get_state L B E a))"
proof -
  obtain r a1 where l: "get_state_locked L B E (a\<lparr>g_op_lock := True\<rparr>) = (r, a1)" by fastforce
  have "conn_inv k' a1"
  proof (cases "nuki_storage_get_pairing (g_storage a)")
    case None
    then show ?thesis using l assms by (auto simp: get_state_locked_def)
  next
    case (Some p)
    then show ?thesis using get_state_conn_inv [OF _ _ l] assms by simp
  qed
  then show ?thesis using l by (simp add: nuki_app_get_state_def)
qed

lemma performs_conn_inv:
  assumes "conn_inv k (fst w)" "host_ok L B P S E req k w k'"
  shows "conn_inv k' (fst (performs L B P S E req w))"
proof -
  obtain a ps flash where w: "w = (a, ps, flash)" by (metis prod_cases3)
  let ?a = "a\<lparr>g_op_lock := True\<rparr>"
  have inv: "conn_inv k ?a" "conn_inv k a" using assms(1) by (simp_all add: w)
  show ?thesis
  proof (cases req)
    case Nothing
    then show ?thesis using assms by (simp add: host_ok_def w Let_def command_io_eta)
  next
    case Pairing
    obtain rc a1 ps' flash' where l: "pair_locked L B P S E (?a, ps, flash) = (rc, a1, ps', flash')" by (metis prod_cases4)
    have "conn_inv k' a1" using pair_conn_inv [OF inv(1) l] assms(2) Pairing by (simp add: host_ok_def w Let_def command_io_eta)
    then show ?thesis using l Pairing by (simp add: w nuki_app_pair_def)
  next
    case Query
    then show ?thesis using query_conn_inv [OF inv(2), of k' L E B] assms(2) by (simp add: host_ok_def w Let_def command_io_eta split: option.splits)
  next
    case Polling
    obtain n a' where r: "state_poll_round L B E a = (n, a')" by fastforce
    obtain a1 where a1: "a1 = (if nuki_app_is_paired a then snd (nuki_app_get_state L B E a) else a)" "same_link a1 a'"
      by (rule poll_same_link [OF r])
    have "conn_inv k' a1"
      using query_conn_inv [OF inv(2), of k' L E B] inv(2) assms(2) Polling
      by (auto simp: host_ok_def w Let_def command_io_eta a1(1) nuki_app_is_paired_def split: option.splits)
    then show ?thesis using conn_inv_same_link [OF a1(2)] Polling r by (simp add: w)
  next
    case (Action act)
    obtain rc a1 where l: "lock_action_locked L B act E ?a = (rc, a1)" by fastforce
    have "conn_inv k' a1"
    proof (cases "nuki_storage_get_pairing (g_storage a)")
      case None
      then show ?thesis using l assms(2) Action inv by (auto simp: lock_action_locked_def host_ok_def w Let_def)
    next
      case (Some p)
      then show ?thesis using lock_action_conn_inv [OF inv(1) _ l] assms(2) Action by (simp add: host_ok_def w Let_def command_io_eta)
    qed
    then show ?thesis using l Action by (simp add: w nuki_app_lock_action_def)
  next
    case (Calibration pin)
    obtain rc a1 where l: "calibrate_locked L B pin E ?a = (rc, a1)" by fastforce
    have "conn_inv k' a1"
    proof (cases "nuki_storage_get_pairing (g_storage a)")
      case None
      then show ?thesis using l assms(2) Calibration inv by (auto simp: calibrate_locked_def host_ok_def w Let_def)
    next
      case (Some p)
      then show ?thesis using calibrate_conn_inv [OF inv(1) _ l] assms(2) Calibration by (simp add: host_ok_def w Let_def command_io_eta)
    qed
    then show ?thesis using l Calibration by (simp add: w nuki_app_calibrate_def)
  qed
qed

section \<open>The machine and the link\<close>

inductive live ::
    "bt_lib \<Rightarrow> byteorder \<Rightarrow> 's psa \<Rightarrow> 'f settings \<Rightarrow> ('f \<Rightarrow> string \<Rightarrow> nuki_pairing_data option) \<Rightarrow> 'q msgq \<Rightarrow> 'q
     \<Rightarrow> link \<Rightarrow> ('s, 'f, 'q) sys \<Rightarrow> bool" for L B P S stored K q0 where
  power_on:
    "flash_ok (stored flash) \<Longrightarrow> main bt_rc P settings_rc S stored flash ready cb ps = (rc, Some (a, uart), ps') \<Longrightarrow>
     live L B P S stored K q0 Down (sys_boot q0 a ps' flash uart)"
| operation:
    "live L B P S stored K q0 k s \<Longrightarrow> act_env act = Some E \<Longrightarrow> host_ok L B P S E (act_request K act s) k (sys_world s) k' \<Longrightarrow>
     live L B P S stored K q0 k' (sys_step L B P S K act s)"
| interrupt:
    "live L B P S stored K q0 k s \<Longrightarrow> live L B P S stored K q0 k (sys_step L B P S K (Interrupt u r bs) s)"
| callback:
    "live L B P S stored K q0 k s \<Longrightarrow> host_step L k (s_app s) e k' \<Longrightarrow>
     live L B P S stored K q0 k' (sys_step L B P S K (Host e) s)"
| restart:
    "live L B P S stored K q0 k s \<Longrightarrow>
     main bt_rc P settings_rc S stored (s_flash s) ready cb ps = (rc, Some (a, uart), ps') \<Longrightarrow>
     live L B P S stored K q0 Down (sys_boot q0 a ps' (s_flash s) uart)"

lemma live_reach: "live L B P S stored K q0 k s \<Longrightarrow> reach L B P S stored K q0 s"
  by (induction rule: live.induct) (auto intro: reach.intros simp del: sys_step.simps)

lemma boot_conn_inv:
  "main bt_rc P settings_rc S stored flash ready cb ps = (rc, Some (a, uart), ps') \<Longrightarrow> conn_inv Down a"
  by (drule main_starts) (simp add: demo_down)

lemma live_conn_inv: "live L B P S stored K q0 k s \<Longrightarrow> conn_inv k (s_app s)"
proof (induction rule: live.induct)
  case (power_on flash bt_rc settings_rc ready cb ps rc a uart ps')
  then show ?case using boot_conn_inv by (fastforce simp: sys_boot_def)
next
  case (operation k s act E k')
  have "fst (sys_world (sys_step L B P S K act s)) = fst (performs L B P S E (act_request K act s) (sys_world s))"
    by (simp only: step_performs [OF operation.hyps(2)])
  then show ?case using performs_conn_inv [OF _ operation.hyps(3)] operation.IH by (simp del: sys_step.simps)
next
  case (interrupt k s u r bs)
  then show ?case by (simp split: prod.split)
next
  case (callback k s e k')
  then show ?case using conn_inv_event by simp
next
  case (restart k s bt_rc settings_rc ready cb ps rc a uart ps')
  then show ?case using boot_conn_inv by (fastforce simp: sys_boot_def)
qed

section \<open>With the lock in range\<close>

lemma in_range_host_ok:
  assumes L: "bt_lib_ok L" and inv: "conn_inv Down a" and p: "nuki_storage_get_pairing (g_storage a) = Some p"
    and E: "scan_rc E = 0" "in_range L p c (connect_events E)" "op_events E = []" "disconnect_events E = [Disconnected c]"
  shows "host_ok L B P S E (Action action) Down (a, ps, flash) Down"
proof -
  let ?a = "a\<lparr>g_op_lock := True\<rparr>"
  have a: "nuki_storage_get_pairing (g_storage ?a) = Some p" "conn_inv Down ?a" using p inv by simp_all
  obtain a1 where c: "connect_to_lock L False E ?a = (0, a1)" "conn_inv (Up c Quiet) a1"
    "host_run L Down (attempt False ?a) (connect_events E) (Up c Quiet)" by (rule connect_in_range [OF L a E(1,2)])
  have "closes L E (Up c Quiet) (usdio_session L E s a1) Down" for s
  proof -
    have "g_conn (usdio_session L E s a1) = Some c" using c(2) by (simp add: usdio_session_def E(3) conn_inv_def)
    then show ?thesis by (simp add: closes_def E(4) host_step.lost)
  qed
  moreover have "connects L E False Down ?a (Up c Quiet)" using c(3) E(1) by (simp add: connects_def)
  ultimately have "command_ok L E run Down ?a Down" for run
    unfolding command_ok_def c(1) by (intro exI [of _ "Up c Quiet"]) (simp add: E(3) Let_def)
  then show ?thesis using p by (simp add: host_ok_def)
qed

text \<open>Serving a request for an action.\<close>

lemma serve_action:
  assumes "s_uart s" "k_msgq_get K (s_queue s) = Some (f, q)"
    and "(f_cmd f, action) \<in> {(NUKI_UART_CMD_LOCK, 2), (NUKI_UART_CMD_UNLOCK, 1), (NUKI_UART_CMD_UNLATCH, 3)}"
    and "nuki_app_lock_action L B action E (s_app s) = (0, a')"
  shows "\<exists>out. sys_step L B P S K (Serve E now) s = s\<lparr>s_app := a', s_queue := q, s_out := s_out s @ out, s_served := s_served s @ [f]\<rparr> \<and>
           length out = 24 \<and> take 3 out = [0x5A, f_cmd f, 21] \<and> resp_rc (decode_state (drop 3 out)) = 0"
proof -
  obtain out a1 ps flash where d: "dispatch_frame L B P S E now f (sys_world s) = (out, a1, ps, flash)" by (metis prod_cases4)
  have f: "f_cmd f \<in> {NUKI_UART_CMD_LOCK, NUKI_UART_CMD_UNLOCK, NUKI_UART_CMD_UNLATCH}"
    and act: "action = (if f_cmd f = NUKI_UART_CMD_LOCK then 2 else if f_cmd f = NUKI_UART_CMD_UNLOCK then 1 else 3)"
    using assms(3) by auto
  obtain rc where rc: "nuki_app_lock_action L B action E (s_app s) = (rc, a1)" "ps = s_psa s" "flash = s_flash s"
    "decode_state (drop 3 out) =
       (if rc = 0 \<and> g_cache_valid a1
        then fill_state_fields resp_state_zero (g_cached_state a1) (word_of_int ((now - g_cache_uptime_ms a1) sdiv 1000))
        else resp_state_zero\<lparr>resp_rc := word_of_int rc\<rparr>)"
    using lock_commands [OF f d act] by blast
  have r: "rc = 0" "a1 = a'" using rc(1) assms(4) by simp_all
  have "responds (f_cmd f) 21 out" using dispatch_responds [of f L B P S E now "sys_world s"] d f by (auto simp: response_len_def)
  then have o1: "length out = 24" "take 3 out = [0x5A, f_cmd f, 21]" by (auto simp: responds_def)
  have o2: "resp_rc (decode_state (drop 3 out)) = 0" by (simp add: rc(4) r fill_state_fields_def resp_state_zero_def)
  have "sys_step L B P S K (Serve E now) s = s\<lparr>s_app := a', s_queue := q, s_out := s_out s @ out, s_served := s_served s @ [f]\<rparr>"
    using assms(1,2) d rc(2,3) r(2) by (simp add: serve_def)
  then show ?thesis using o1 o2 by blast
qed

lemma demo_asked_live:
  "live demo_lib le_byteorder demo_psa demo_settings map_of demo_msgq [] Down demo_asked"
proof -
  have "live demo_lib le_byteorder demo_psa demo_settings map_of demo_msgq [] Down demo_sys"
    unfolding demo_sys_def by (rule live.power_on [OF demo_boot])
  from live.interrupt [OF this] show ?thesis unfolding demo_asked_def .
qed

section \<open>Properties\<close>

text \<open>
  C14: the references of the connection are balanced at all times: in every state that the firmware can reach with a host that follows its rules, through any
  sequence of operations, callbacks, interrupts and restarts, the module's connection is that of the link, it holds one reference for itself and
  one for each ready transport, no transport is ready without a connection, and none is left when the link is down.
\<close>

theorem references_balanced:
  assumes "live L B P S stored K q0 k s"
  shows "conn_inv k (s_app s) \<and>
    g_conn (s_app s) = (case k of Down \<Rightarrow> None | Pending c \<Rightarrow> Some c | Up c ph \<Rightarrow> Some c) \<and>
    conn_refs (s_app s) = (case k of Down \<Rightarrow> 0 | _ \<Rightarrow> 1) + (if g_gdio_ready (s_app s) then 1 else 0) +
      (if g_usdio_ready (s_app s) then 1 else 0)"
  using live_conn_inv [OF assms] by (auto simp: conn_inv_def split: link.splits)

theorem references_balanced_witness: "conn_inv Down (s_app demo_asked) \<and> conn_refs (s_app demo_asked) = 0"
  using references_balanced [OF demo_asked_live] by (simp add: conn_inv_def)

text \<open>
  C11: a waiting request is carried out: in every reachable state of a paired bridge in which the link is down, if the lock is in range, connects, and answers
  the challenge request and the action with a completed status, in any fragmentation, then serving a waiting LOCK, UNLOCK or UNLATCH
  request sends exactly this action, answers with success, removes the request from the queue, and leaves the link down again, so that the next request meets
  the same situation.
\<close>

theorem request_is_served:
  assumes "bt_lib_ok L" "byteorder_ok B" "settings_ok S stored" "msgq_ok K items" "items q0 = []"
    and "live L B P S stored K q0 Down s" "s_uart s" "k_msgq_get K (s_queue s) = Some (f, q)"
    and "(f_cmd f, action) \<in> {(NUKI_UART_CMD_LOCK, 2), (NUKI_UART_CMD_UNLOCK, 1), (NUKI_UART_CMD_UNLATCH, 3)}"
    and "nuki_storage_get_pairing (g_storage (s_app s)) = Some p"
    and "scan_rc E = 0" "in_range L p c (connect_events E)" "op_events E = []" "disconnect_events E = [Disconnected c]"
    and "lock_writes E = o1 # o2 # os" "write_ok o1" "write_ok o2"
    and "wires (shared_key p) ((NUKI_CMD_CHALLENGE, nk) # ms) ws" "delivers ws (lock_inbound E)" "length nk = 32"
    and "drain_msgs 10 B ms True None = Some (0, cap)"
  shows "\<exists>s' out. sys_step L B P S K (Serve E now) s = s' \<and> live L B P S stored K q0 Down s' \<and>
     orders (shared_key p) (s_app s) (s_app s') = {Lock_action action} \<and> s_queue s' = q \<and> s_served s' = s_served s @ [f] \<and>
     s_out s' = s_out s @ out \<and> length out = 24 \<and> take 3 out = [0x5A, f_cmd f, 21] \<and> resp_rc (decode_state (drop 3 out)) = 0"
proof -
  have ok: "app_ok (s_app s)" using reach_ok [OF assms(3-5) live_reach [OF assms(6)]] by (simp add: world_ok_def)
  note inv = live_conn_inv [OF assms(6)]
  let ?a = "s_app s\<lparr>g_op_lock := True\<rparr>"
  have a: "app_ok ?a" "conn_inv Down ?a" "nuki_storage_get_pairing (g_storage ?a) = Some p" using ok inv assms(10) by simp_all
  obtain a1 where "lock_action_locked L B action E ?a = (0, a1)"
    using lock_action_locked_live [OF assms(1,2) a assms(11-21)] by blast
  then have r: "nuki_app_lock_action L B action E (s_app s) = (0, a1\<lparr>g_op_lock := False\<rparr>)" (is "_ = (0, ?a')")
    by (simp add: nuki_app_lock_action_def)
  obtain out where out: "sys_step L B P S K (Serve E now) s = s\<lparr>s_app := ?a', s_queue := q, s_out := s_out s @ out, s_served := s_served s @ [f]\<rparr>"
    "length out = 24" "take 3 out = [0x5A, f_cmd f, 21]" "resp_rc (decode_state (drop 3 out)) = 0"
    using serve_action [OF assms(7-9) r] by blast
  have req: "act_request K (Serve E now) s = Action action"
    using assms(7-9) by (auto simp: act_request_def frame_request_def)
  have "live L B P S stored K q0 Down (sys_step L B P S K (Serve E now) s)"
    by (rule live.operation [OF assms(6) act_env.simps(2)], unfold req) (rule in_range_host_ok [OF assms(1) inv assms(10-14)])
  then show ?thesis using out lock_action_orders(2) [OF assms(2) ok r assms(10)] by simp
qed

theorem request_is_served_witness:
  "\<exists>ws s'. sys_step demo_lib le_byteorder demo_psa demo_settings demo_msgq (Serve (demo_env ws) 0) demo_asked = s' \<and>
     orders (shared_key (pairing demo_storage)) (s_app demo_asked) (s_app s') = {Lock_action 1} \<and> s_queue s' = []"
proof -
  obtain ws where ws: "wires (shared_key (pairing demo_storage)) [(NUKI_CMD_CHALLENGE, replicate 32 5), (NUKI_CMD_STATUS, [NUKI_STATUS_COMPLETE])] ws"
    using demo_wires by blast
  note E = demo_in_range [of ws]
  obtain f where f: "s_queue demo_asked = [f]" "f_cmd f = 5" "s_uart demo_asked" "s_app demo_asked = app_boot demo_storage"
    using demo_asked_queue by blast
  have g: "k_msgq_get demo_msgq (s_queue demo_asked) = Some (f, [])" by (simp add: f demo_msgq_def)
  have c: "(f_cmd f, 1) \<in> {(NUKI_UART_CMD_LOCK, 2), (NUKI_UART_CMD_UNLOCK, 1), (NUKI_UART_CMD_UNLATCH, 3 :: u8)}" using f(2) by simp
  show ?thesis
    using request_is_served [OF demo_lib_ok le_byteorder_ok demo_settings_ok demo_msgq_ok refl demo_asked_live f(3) g c
        demo_paired [folded f(4)] E(1-5) demo_write_ok demo_write_ok ws E(6) length_replicate demo_drain, of 0] by blast
qed

end
