(* ===== verification/Nuki_Time.thy ===== *)
theory Nuki_Time
  imports Nuki_Uart_Proto
begin

text \<open>
  How long the operations can block. The transport adds up the timeouts that it passes to its blocking calls in \<open>blocked\<close>, the application in
  \<open>waited\<close>; since such a call returns at the latest after its timeout (\<open>Nuki_Wait\<close>), a bound on the sum bounds the time for which an
  operation holds the mutex \<open>g_op_lock\<close>, except for computation and for what the Bluetooth host's own calls (\<open>bt_gatt_write\<close> among them)
  may block, for which the code chooses no timeout. The wait for the mutex has no timeout either: it lasts as long as the operations that hold the mutex
  before, which \<open>holders\<close> runs one after the other.

  \<open>op_cost\<close> is a small calculus for such bounds on sequences with early return.
\<close>

section \<open>Bounds along a sequence\<close>

definition op_cost :: "('s \<Rightarrow> nat) \<Rightarrow> nat \<Rightarrow> ('s, 'a) op \<Rightarrow> bool" where
  "op_cost f n m \<longleftrightarrow> (\<forall>s r s'. m s = (r, s') \<longrightarrow> f s' \<le> f s + n)"

lemma op_costD: "op_cost f n m \<Longrightarrow> m s = (r, s') \<Longrightarrow> f s' \<le> f s + n"
  by (simp add: op_cost_def)

lemma op_cost_return: "op_cost f 0 (op_return x)"
  by (simp add: op_cost_def op_return_def)

lemma op_cost_guard: "op_cost f 0 (op_guard ok e)"
  by (simp add: op_cost_def op_guard_def op_return_def op_fail_def)

lemma op_cost_bind:
  assumes "op_cost f n m" "\<And>x. op_cost f k (g x)"
  shows "op_cost f (n + k) (op_bind m g)"
  unfolding op_cost_def
proof (intro allI impI)
  fix s r s' assume b: "op_bind m g s = (r, s')"
  obtain x s1 where m: "m s = (x, s1)" by fastforce
  have 1: "f s1 \<le> f s + n" by (rule op_costD [OF assms(1) m])
  show "f s' \<le> f s + (n + k)"
  proof (cases x)
    case (Inl e)
    then show ?thesis using b m 1 by (simp add: op_bind_def)
  next
    case (Inr y)
    then have "g y s1 = (r, s')" using b m by (simp add: op_bind_def)
    from op_costD [OF assms(2) this] 1 show ?thesis by simp
  qed
qed

lemma op_cost_case_prod: "(\<And>a b. op_cost f n (g a b)) \<Longrightarrow> op_cost f n (case_prod g x)"
  by (cases x) simp

lemma op_cost_rc: "(\<And>s rc s'. m s = (rc, s') \<Longrightarrow> f s' \<le> f s + n) \<Longrightarrow> op_cost f n (op_rc m)"
  by (auto simp: op_cost_def op_rc_def split: prod.splits)

lemma op_cost_get: "(\<And>s x s'. m s = (x, s') \<Longrightarrow> f s' \<le> f s + n) \<Longrightarrow> op_cost f n (op_get m)"
  by (auto simp: op_cost_def op_get_def split: prod.splits)

lemma op_cost_on_fst: "op_cost f n m \<Longrightarrow> op_cost (\<lambda>s. f (fst s)) n (on_fst m)"
  by (auto simp: op_cost_def on_fst_def split: prod.splits)

lemma op_cost_on_snd: "op_cost (\<lambda>s. f (fst s)) 0 (on_snd m)"
  by (auto simp: op_cost_def on_snd_def split: prod.splits)

section \<open>Commands\<close>

lemma wait_cost: "nuki_transport_wait_min n d s = (rc, s') \<Longrightarrow> blocked s' = blocked s + d"
  by (auto simp: nuki_transport_wait_min_def split: prod.splits)

lemma reset_cost [simp]: "blocked (nuki_transport_reset s) = blocked s"
  by (simp add: nuki_transport_reset_def)

lemma rand_cost: "sys_rand_get n s = (bs, s') \<Longrightarrow> blocked s' = blocked s"
  by (auto simp: sys_rand_get_def)

lemma send_encrypted_cost: "send_encrypted B aid key cmd p s = (rc, s') \<Longrightarrow> blocked s' \<le> blocked s + 5"
  by (auto simp: send_encrypted_def Let_def sys_rand_get_def dest!: transport_write_effect(8)
      split: option.splits sum.splits)

lemma recv_encrypted_cost:
  assumes "recv_encrypted B key n s = (r, s')"
  shows "blocked s' \<le> blocked s + 20"
proof -
  obtain e1 s1 where w1: "nuki_transport_wait_min ADATA_HDR_LEN 10 s = (e1, s1)" by fastforce
  let ?n = "ADATA_HDR_LEN + unat (sys_get_le16 B (drop 28 (nuki_transport_peek s1 ADATA_HDR_LEN)))"
  obtain e2 s2 where w2: "nuki_transport_wait_min ?n 10 s1 = (e2, s2)" by fastforce
  have "s' \<in> {s1, s2, nuki_transport_reset s1, nuki_transport_reset s2}"
    using assms w1 w2 by (auto simp: recv_encrypted_def Let_def split: if_splits sum.splits prod.splits)
  then show ?thesis using wait_cost [OF w1] wait_cost [OF w2] by auto
qed

lemma request_challenge_cost:
  assumes "request_challenge B aid key s = (r, s')"
  shows "blocked s' \<le> blocked s + 25"
proof -
  obtain rc s1 where e: "send_encrypted B aid key NUKI_CMD_REQUEST_DATA (sys_put_le16 B NUKI_CMD_CHALLENGE) s = (rc, s1)" by fastforce
  obtain x s2 where q: "recv_encrypted B key MAX_PLAINTEXT s1 = (x, s2)" by fastforce
  have "s' \<in> {s1, s2}" using assms e q by (auto simp: request_challenge_def split: if_splits sum.splits prod.splits)
  then show ?thesis using send_encrypted_cost [OF e] recv_encrypted_cost [OF q] by auto
qed

lemma get_state_cost:
  assumes "nuki_command_get_state B aid key s = (r, s')"
  shows "blocked s' \<le> blocked s + 25"
proof -
  obtain rc s1 where e: "send_encrypted B aid key NUKI_CMD_REQUEST_DATA (sys_put_le16 B NUKI_CMD_KEYTURNER_STATES) s = (rc, s1)" by fastforce
  obtain x s2 where q: "recv_encrypted B key MAX_PLAINTEXT s1 = (x, s2)" by fastforce
  have "s' \<in> {s1, s2}" using assms e q by (auto simp: nuki_command_get_state_def split: if_splits sum.splits prod.splits)
  then show ?thesis using send_encrypted_cost [OF e] recv_encrypted_cost [OF q] by auto
qed

lemma drain_loop_cost: "drain_loop n B key want cap s = (rc, cap', s') \<Longrightarrow> blocked s' \<le> blocked s + 20 * n"
proof (induction n arbitrary: cap s)
  case (Suc n)
  obtain x s1 where q: "recv_encrypted B key MAX_PLAINTEXT s = (x, s1)" by fastforce
  have "s' = s1 \<or> (\<exists>cap1. drain_loop n B key want cap1 s1 = (rc, cap', s'))"
    using Suc.prems q by (auto split: if_splits sum.splits prod.splits)
  then show ?case using Suc.IH [of _ s1] recv_encrypted_cost [OF q] by fastforce
qed simp

lemma lock_action_cost:
  assumes "nuki_command_lock_action B aid apid key action want s = (rc, cap, s')"
  shows "blocked s' \<le> blocked s + 230"
proof -
  obtain x s1 where c: "request_challenge B aid key s = (x, s1)" by fastforce
  show ?thesis
  proof (cases x)
    case (Inl e)
    then show ?thesis using assms c request_challenge_cost [OF c] by (simp add: nuki_command_lock_action_def)
  next
    case (Inr nk)
    obtain e s2 where q: "send_encrypted B aid key NUKI_CMD_LOCK_ACTION ([action] @ sys_put_le32 B apid @ [0] @ nk) s1 = (e, s2)"
      by fastforce
    have "s' = s2 \<or> drain_loop 10 B key want None s2 = (rc, cap, s')"
      using assms c Inr q by (auto simp: nuki_command_lock_action_def drain_until_complete_def split: if_splits)
    then show ?thesis
      using request_challenge_cost [OF c] send_encrypted_cost [OF q] drain_loop_cost [of 10 B key want None s2] by fastforce
  qed
qed

lemma calibrate_cost:
  assumes "nuki_command_calibrate B aid key pin s = (rc, s')"
  shows "blocked s' \<le> blocked s + 230"
proof -
  obtain x s1 where c: "request_challenge B aid key s = (x, s1)" by fastforce
  show ?thesis
  proof (cases x)
    case (Inl e)
    then show ?thesis using assms c request_challenge_cost [OF c] by (simp add: nuki_command_calibrate_def)
  next
    case (Inr nk)
    obtain e s2 where q: "send_encrypted B aid key NUKI_CMD_REQUEST_CALIBRATION (nk @ sys_put_le16 B pin) s1 = (e, s2)" by fastforce
    have "s' = s2 \<or> (\<exists>cap. drain_loop 10 B key False None s2 = (rc, cap, s'))"
      using assms c Inr q by (auto simp: nuki_command_calibrate_def drain_until_complete_def split: if_splits prod.splits)
    then show ?thesis
      using request_challenge_cost [OF c] send_encrypted_cost [OF q] drain_loop_cost [of 10 B key False None s2] by fastforce
  qed
qed

section \<open>The handshake\<close>

lemma send_plain_cost: "send_plain B cmd p s = (rc, s') \<Longrightarrow> blocked s' \<le> blocked s + 5"
  by (auto simp: send_plain_def dest: transport_write_effect(8) split: option.splits)

lemma recv_plain_cost:
  assumes "recv_plain B c n s = (r, s')"
  shows "blocked s' \<le> blocked s + 30"
proof -
  obtain e1 s1 where w1: "nuki_transport_wait_min 2 15 s = (e1, s1)" by fastforce
  have "\<exists>m e2 s2. s' = s1 \<or> nuki_transport_wait_min m 15 s1 = (e2, s2) \<and> (s' = s2 \<or> s' = nuki_transport_reset s2)"
    using assms w1 by (auto simp: recv_plain_def Let_def split: prod.splits if_splits sum.splits)
  then show ?thesis using wait_cost [OF w1] wait_cost [of _ 15 s1] by fastforce
qed

text \<open>Five messages sent and five received.\<close>

lemma pairing_run_cost:
  assumes "nuki_pairing_run B P (s, ps) = (r, s', ps')"
  shows "blocked s' \<le> blocked s + 175"
proof -
  let ?f = "\<lambda>s :: io \<times> 'a. blocked (fst s)"
  have send: "op_cost ?f 5 (on_fst (op_rc (send_plain B c p)))" for c p
    by (intro op_cost_on_fst op_cost_rc send_plain_cost)
  have recv: "op_cost ?f 30 (on_fst (recv_plain B c n))" for c n
    by (intro op_cost_on_fst) (simp add: op_cost_def recv_plain_cost)
  have rnd: "op_cost ?f 0 (on_fst (op_get (sys_rand_get n)))" for n
    by (intro op_cost_on_fst op_cost_get) (simp add: rand_cost)
  have "\<exists>n. op_cost ?f n (nuki_pairing_run B P) \<and> n = 175" (is "\<exists>n. ?c n \<and> _")
    unfolding pairing_run_defs Let_def
    by (rule exI, rule conjI, (rule op_cost_bind op_cost_case_prod op_cost_return op_cost_guard op_cost_on_snd send recv rnd)+, simp)
  then have "?c 175" by blast
  then show ?thesis using assms unfolding op_cost_def by (metis fst_conv)
qed

section \<open>Operations\<close>

lemma connect_waited:
  assumes "connect_to_lock L need E a = (r, a')"
  shows "waited a' \<le> waited a + 20"
proof (cases rule: connect_to_lock_cases [of E L need a])
  case timeout
  then show ?thesis using assms by (auto simp: Let_def split: option.split)
qed (use assms in auto)

lemma disconnect_waited: "waited (disconnect_from_lock L E a) \<le> waited a + 5"
  by (simp add: disconnect_from_lock_def Let_def split: option.split)

lemma session_waited [simp]:
  "waited (usdio_session L E s a) = waited a + blocked s" "waited (gdio_session L E s a) = waited a + blocked s"
  by (simp_all add: usdio_session_def gdio_session_def)

lemma session_io_blocked [simp]: "blocked (session_io E t) = 0"
  by (simp add: session_io_def)

lemma served_waited:
  assumes "connect_to_lock L need E a = (r, a1)" "waited b \<le> waited a1 + n"
  shows "waited (disconnect_from_lock L E b) \<le> waited a + n + 25"
  using connect_waited [OF assms(1)] disconnect_waited [of L E b] assms(2) by simp

lemma get_state_locked_waited:
  assumes "get_state_locked L B E a = (r, a')"
  shows "waited a' \<le> waited a + 50"
proof (cases "nuki_storage_get_pairing (g_storage a)")
  case None
  then show ?thesis using assms by (simp add: get_state_locked_def)
next
  case (Some p)
  then show ?thesis using assms
  proof (cases rule: get_state_locked_cases)
    case (served a1 s)
    show ?thesis using served_waited [OF served(1), of "usdio_session L E s a1" 25] get_state_cost [OF served(2)] served(3) by simp
  qed (use connect_waited in fastforce)
qed

lemma calibrate_locked_waited:
  assumes "calibrate_locked L B pin E a = (rc, a')"
  shows "waited a' \<le> waited a + 255"
proof (cases "nuki_storage_get_pairing (g_storage a)")
  case None
  then show ?thesis using assms by (simp add: calibrate_locked_def)
next
  case (Some p)
  then show ?thesis using assms
  proof (cases rule: calibrate_locked_cases)
    case (served a1 s)
    show ?thesis using served_waited [OF served(1), of "usdio_session L E s a1" 230] calibrate_cost [OF served(2)] served(3) by simp
  qed (use connect_waited in fastforce)
qed

lemma lock_action_locked_waited:
  assumes "lock_action_locked L B action E a = (rc, a')"
  shows "waited a' \<le> waited a + 255"
proof (cases "nuki_storage_get_pairing (g_storage a)")
  case None
  then show ?thesis using assms by (simp add: lock_action_locked_def)
next
  case (Some p)
  then show ?thesis using assms
  proof (cases rule: lock_action_locked_cases)
    case (served a1 s cap)
    have "waited a' = waited (disconnect_from_lock L E (usdio_session L E s a1))"
      using served(3) by (simp add: cache_action_def split: option.split)
    then show ?thesis using served_waited [OF served(1), of "usdio_session L E s a1" 230] lock_action_cost [OF served(2)] by simp
  qed (use connect_waited in fastforce)
qed

lemma pair_locked_waited:
  assumes "pair_locked L B P S E (a, ps, flash) = (rc, a', ps', flash')"
  shows "waited a' \<le> waited a + 200"
  using assms
proof (cases rule: pair_locked_cases)
  case (unsupported a1)
  then show ?thesis using served_waited [OF unsupported(1), of a1 0] by simp
next
  case (failed a1 s)
  then show ?thesis using served_waited [OF failed(1), of "gdio_session L E s a1" 175] pairing_run_cost [OF failed(3)] by simp
next
  case (paired a1 s d d' st)
  then show ?thesis
    using served_waited [OF paired(1), of "gdio_session L E s a1\<lparr>g_storage := st\<rparr>" 175] pairing_run_cost [OF paired(3)] by simp
qed (use connect_waited in fastforce)

lemma public_ops_waited:
  "nuki_app_get_state L B E a = (r, a') \<Longrightarrow> waited a' \<le> waited a + 50"
  "nuki_app_lock_action L B action E a = (rc, a') \<Longrightarrow> waited a' \<le> waited a + 255"
  "nuki_app_calibrate L B pin E a = (rc, a') \<Longrightarrow> waited a' \<le> waited a + 255"
  "nuki_app_pair L B P S E (a, ps, flash) = (rc, a', ps', flash') \<Longrightarrow> waited a' \<le> waited a + 200"
  using get_state_locked_waited [of L B E "a\<lparr>g_op_lock := True\<rparr>"] lock_action_locked_waited [of L B action E "a\<lparr>g_op_lock := True\<rparr>"]
    calibrate_locked_waited [of L B pin E "a\<lparr>g_op_lock := True\<rparr>"] pair_locked_waited [of L B P S E "a\<lparr>g_op_lock := True\<rparr>" ps flash]
  by (fastforce dest: public_ops(1), fastforce dest: public_ops(2), fastforce dest: public_ops(3), fastforce dest: public_ops(4))

lemma dispatch_waited:
  "case dispatch_frame L B P S E now f (a, ps, flash) of (out, a', ps', flash') \<Rightarrow> waited a' \<le> waited a + 255"
proof -
  have l: "waited (snd (handle_lock_action L B action cmd E now a)) \<le> waited a + 255" for action cmd
    using public_ops_waited(2) [of L B action E a] by (auto simp: handle_lock_action_def Let_def split: prod.split)
  have c: "waited (snd (handle_calibrate L B f E a)) \<le> waited a + 255"
    using public_ops_waited(3) [of L B _ E a] by (auto simp: handle_calibrate_def Let_def split: prod.split)
  have p: "waited (fst (snd (handle_pair L B P S E (a, ps, flash)))) \<le> waited a + 255"
    using public_ops_waited(4) [of L B P S E a ps flash] by (fastforce simp: handle_pair_def split: prod.split)
  show ?thesis
    using l c p by (auto simp: dispatch_frame_def Let_def case_prod_beta)
qed

section \<open>Waiting for the mutex\<close>

text \<open>The operations that get the mutex \<open>g_op_lock\<close> before another one, and their effect one after the other.\<close>

datatype mutex_op = Holds_get_state env | Holds_lock_action u8 env | Holds_calibrate u16 env | Holds_pair env

fun holder :: "bt_lib \<Rightarrow> byteorder \<Rightarrow> 's psa \<Rightarrow> 'f settings \<Rightarrow> mutex_op \<Rightarrow> app \<times> 's \<times> 'f \<Rightarrow> app \<times> 's \<times> 'f" where
  "holder L B P S (Holds_get_state E) (a, ps, flash) = (snd (nuki_app_get_state L B E a), ps, flash)"
| "holder L B P S (Holds_lock_action action E) (a, ps, flash) = (snd (nuki_app_lock_action L B action E a), ps, flash)"
| "holder L B P S (Holds_calibrate pin E) (a, ps, flash) = (snd (nuki_app_calibrate L B pin E a), ps, flash)"
| "holder L B P S (Holds_pair E) (a, ps, flash) = snd (nuki_app_pair L B P S E (a, ps, flash))"

abbreviation holders :: "bt_lib \<Rightarrow> byteorder \<Rightarrow> 's psa \<Rightarrow> 'f settings \<Rightarrow> mutex_op list \<Rightarrow> app \<times> 's \<times> 'f \<Rightarrow> app \<times> 's \<times> 'f" where
  "holders L B P S ops w \<equiv> fold (holder L B P S) ops w"

lemma holder_waited: "waited (fst (holder L B P S op w)) \<le> waited (fst w) + 255"
proof -
  obtain a ps flash where w: "w = (a, ps, flash)" by (metis prod_cases3)
  show ?thesis
  proof (cases op)
    case (Holds_get_state E)
    then show ?thesis using public_ops_waited(1) [OF prod.collapse [symmetric], of L B E a] by (simp add: w)
  next
    case (Holds_lock_action action E)
    then show ?thesis using public_ops_waited(2) [OF prod.collapse [symmetric], of L B action E a] by (simp add: w)
  next
    case (Holds_calibrate pin E)
    then show ?thesis using public_ops_waited(3) [OF prod.collapse [symmetric], of L B pin E a] by (simp add: w)
  next
    case (Holds_pair E)
    obtain rc a' ps' flash' where r: "nuki_app_pair L B P S E (a, ps, flash) = (rc, a', ps', flash')" by (metis prod_cases4)
    then show ?thesis using public_ops_waited(4) [OF r] Holds_pair by (simp add: w)
  qed
qed

lemma holders_waited: "waited (fst (holders L B P S ops w)) \<le> waited (fst w) + 255 * length ops"
proof (induction ops arbitrary: w)
  case (Cons op ops)
  show ?case using Cons.IH [of "holder L B P S op w"] holder_waited [of L B P S op w] by simp
qed simp

lemma dispatch_after_waited:
  "case dispatch_frame L B P S E now f (holders L B P S ahead (a, ps, flash)) of
     (out, a', ps', flash') \<Rightarrow> waited a' \<le> waited a + 255 * (length ahead + 1)"
proof -
  obtain a1 ps1 flash1 where h: "holders L B P S ahead (a, ps, flash) = (a1, ps1, flash1)" by (metis prod_cases3)
  have "waited a1 \<le> waited a + 255 * length ahead" using holders_waited [of L B P S ahead "(a, ps, flash)"] by (simp add: h)
  then show ?thesis using dispatch_waited [where L = L and B = B and P = P and S = S and E = E and now = now and f = f and a = a1 and ps = ps1 and flash = flash1] by (simp add: h split: prod.splits)
qed

section \<open>Properties\<close>

text \<open>
  C22: no operation holds the lock of the module for ever: whatever the radio, the host and the lock do, each operation returns with
  the mutex released, and the timeouts that the code chooses for the blocking calls it makes meanwhile add up to at most 50 s for a state query, 255 s for
  a lock action or a calibration and 200 s for pairing. So a request on the serial line that finds \<open>n\<close> operations of other threads ahead of it
  at the mutex is answered after at most \<open>255 (n + 1)\<close> s of such timeouts. Computation and blocking
  inside the Bluetooth host are not counted.
\<close>

theorem operations_bounded:
  "(case nuki_app_get_state L B E a of (r, a') \<Rightarrow> \<not> g_op_lock a' \<and> waited a' \<le> waited a + 50) \<and>
   (case nuki_app_lock_action L B action E a of (rc, a') \<Rightarrow> \<not> g_op_lock a' \<and> waited a' \<le> waited a + 255) \<and>
   (case nuki_app_calibrate L B pin E a of (rc, a') \<Rightarrow> \<not> g_op_lock a' \<and> waited a' \<le> waited a + 255) \<and>
   (case nuki_app_pair L B P S E (a, ps, flash) of (rc, a', ps', flash') \<Rightarrow> \<not> g_op_lock a' \<and> waited a' \<le> waited a + 200) \<and>
   (case dispatch_frame L B P S E now f (holders L B P S ahead (a, ps, flash)) of
      (out, a', ps', flash') \<Rightarrow> waited a' \<le> waited a + 255 * (length ahead + 1))"
proof (intro conjI)
  show "case nuki_app_get_state L B E a of (r, a') \<Rightarrow> \<not> g_op_lock a' \<and> waited a' \<le> waited a + 50"
    using public_ops_waited(1) [of L B E a] public_ops(1) [of L B E a] by (fastforce split: prod.split)
  show "case nuki_app_lock_action L B action E a of (rc, a') \<Rightarrow> \<not> g_op_lock a' \<and> waited a' \<le> waited a + 255"
    using public_ops_waited(2) [of L B action E a] public_ops(2) [of L B action E a] by (fastforce split: prod.split)
  show "case nuki_app_calibrate L B pin E a of (rc, a') \<Rightarrow> \<not> g_op_lock a' \<and> waited a' \<le> waited a + 255"
    using public_ops_waited(3) [of L B pin E a] public_ops(3) [of L B pin E a] by (fastforce split: prod.split)
  show "case nuki_app_pair L B P S E (a, ps, flash) of (rc, a', ps', flash') \<Rightarrow> \<not> g_op_lock a' \<and> waited a' \<le> waited a + 200"
    using public_ops_waited(4) [of L B P S E a ps flash] public_ops(4) [of L B P S E a ps flash] by (fastforce split: prod.split)
  show "case dispatch_frame L B P S E now f (holders L B P S ahead (a, ps, flash)) of
      (out, a', ps', flash') \<Rightarrow> waited a' \<le> waited a + 255 * (length ahead + 1)"
    by (rule dispatch_after_waited)
qed

end
