(* ===== verification/Nuki_Wait.thy ===== *)
theory Nuki_Wait
  imports Nuki_Transport
begin

text \<open>
  The blocking wait of \<open>src/src/nuki_transport.c\<close> with its semaphore and the clock, below the scripts of \<open>Nuki_Transport\<close>.

  \<open>rx_world\<close> is what the waiting thread shares with the indication callback: the transport, the counter of \<open>rx_sem\<close>, the time, and
  the indications still to come, each with its time. The kernel is not part of the repository: \<open>k_sem_take\<close> is an argument, a function of the
  point in time at which the wait ends, and \<open>sem_take_ok\<close> its documented behaviour. The loop of \<open>nuki_transport_wait_min\<close>
  has no bound of its own, so that it returns is a theorem; what it returns is what the scripted loop returns for a script with the
  same indications.
\<close>

section \<open>The code\<close>

record rx_world =
  rtr :: nuki_transport
  rx_sem :: nat
  clock :: nat
  arrivals :: "(nat \<times> bytes option) list"

partial_function (option) wait_sem ::
    "(nat \<Rightarrow> rx_world \<Rightarrow> rx_world) \<Rightarrow> nat \<Rightarrow> nat \<Rightarrow> rx_world \<Rightarrow> (int \<times> rx_world) option" where
  "wait_sem k_sem_take min_len end w =
     (if rx_len (rtr w) \<ge> min_len then Some (0, w)
      else if end \<le> clock w then Some (- EAGAIN, w)
      else wait_sem k_sem_take min_len end (k_sem_take end w))"

definition wait_min_sem ::
    "(nat \<Rightarrow> rx_world \<Rightarrow> rx_world) \<Rightarrow> nat \<Rightarrow> nat \<Rightarrow> rx_world \<Rightarrow> (int \<times> rx_world) option" where
  "wait_min_sem k_sem_take min_len timeout w = wait_sem k_sem_take min_len (clock w + timeout) w"

section \<open>Documented behaviour of the semaphore\<close>

text \<open>The effect of indications on the transport, and how often they give the semaphore: a call without data does not.\<close>

abbreviation notified :: "(nat \<times> bytes option) list \<Rightarrow> nuki_transport \<Rightarrow> nuki_transport" where
  "notified ds t \<equiv> fold (\<lambda>d t. snd (notify_cb t d)) (map snd ds) t"

definition gives :: "(nat \<times> bytes option) list \<Rightarrow> nat" where
  "gives ds = length (filter (\<lambda>(_, d). d \<noteq> None) ds)"

text \<open>
  While the thread waits, a prefix \<open>ds\<close> of the indications happens. Either the counter is positive then, and the thread takes one as soon as it is
  (no time passes after the last indication); or the counter stayed zero until the end of the wait, and the next indication
  comes later.
\<close>

definition sem_take_ok :: "(nat \<Rightarrow> rx_world \<Rightarrow> rx_world) \<Rightarrow> bool" where
  "sem_take_ok T \<longleftrightarrow>
     (\<forall>e w. clock w < e \<longrightarrow>
        (\<exists>ds. arrivals w = ds @ arrivals (T e w) \<and> rtr (T e w) = notified ds (rtr w) \<and>
              clock w \<le> clock (T e w) \<and> clock (T e w) \<le> e \<and>
              (rx_sem w + gives ds = rx_sem (T e w) + 1 \<and>
                 (clock (T e w) = clock w \<or> clock (T e w) \<in> fst ` set ds) \<or>
               clock (T e w) = e \<and> rx_sem w + gives ds = 0 \<and> rx_sem (T e w) = 0 \<and>
                 (arrivals (T e w) = [] \<or> e < fst (hd (arrivals (T e w)))))))"

lemma sem_takeE:
  assumes "sem_take_ok T" "clock w < e"
  obtains (taken) ds where "arrivals w = ds @ arrivals (T e w)" "rtr (T e w) = notified ds (rtr w)"
      "clock w \<le> clock (T e w)" "clock (T e w) \<le> e" "rx_sem w + gives ds = rx_sem (T e w) + 1"
      "clock (T e w) = clock w \<or> clock (T e w) \<in> fst ` set ds"
  | (timed_out) ds where "arrivals w = ds @ arrivals (T e w)" "rtr (T e w) = notified ds (rtr w)"
      "clock (T e w) = e" "arrivals (T e w) = [] \<or> e < fst (hd (arrivals (T e w)))"
  using assms unfolding sem_take_ok_def by metis

lemma gives_append [simp]: "gives (ds @ ds') = gives ds + gives ds'"
  by (simp add: gives_def)

section \<open>The loop\<close>

text \<open>One turn of the loop, as a rewrite rule.\<close>

lemma wait_sem_turn:
  "\<not> n \<le> rx_len (rtr w) \<Longrightarrow> clock w < e \<Longrightarrow> wait_sem T n e w = wait_sem T n e (T e w)"
  "n \<le> rx_len (rtr w) \<Longrightarrow> wait_sem T n e w = Some (0, w)"
  "\<not> n \<le> rx_len (rtr w) \<Longrightarrow> e \<le> clock w \<Longrightarrow> wait_sem T n e w = Some (- EAGAIN, w)"
  by (subst wait_sem.simps; simp)+

lemma wait_script_turn:
  "\<not> n \<le> rx_len t \<Longrightarrow>
   wait_min_loop n t (Burst (map snd ds) # evs) = wait_min_loop n (notified ds t) evs"
  by (subst wait_min_loop.simps) simp

primrec burst_of :: "wait_event \<Rightarrow> bytes option list" where
  "burst_of (Burst ds) = ds"
| "burst_of Deadline = []"

text \<open>
  The loop returns, and refines the scripted one: the relation between the state before and after, in terms of the indications
  \<open>used\<close> meanwhile.
\<close>

definition waits :: "nat \<Rightarrow> nat \<Rightarrow> rx_world \<Rightarrow> int \<Rightarrow> rx_world \<Rightarrow> (nat \<times> bytes option) list \<Rightarrow> bool" where
  "waits n e w rc w' used \<longleftrightarrow>
     arrivals w = used @ arrivals w' \<and> rtr w' = notified used (rtr w) \<and>
     (\<exists>evs. wait_min_loop n (rtr w) evs = (rc, rtr w', []) \<and> concat (map burst_of evs) = map snd used) \<and>
     rc = (if n \<le> rx_len (rtr w') then 0 else - EAGAIN) \<and> clock w \<le> clock w' \<and> clock w' \<le> max (clock w) e \<and>
     (rc \<noteq> 0 \<longrightarrow> e \<le> clock w' \<and> (clock w < e \<longrightarrow> (\<exists>a\<in>fst ` set used. e \<le> a) \<or> arrivals w' = [] \<or> e < fst (hd (arrivals w'))))"

lemma waits_done: "n \<le> rx_len (rtr w) \<Longrightarrow> waits n e w 0 w []"
  by (auto simp: waits_def wait_min_loop.simps [of n "rtr w"] intro: exI [of _ "[]"])

lemma waits_expired: "\<not> n \<le> rx_len (rtr w) \<Longrightarrow> e \<le> clock w \<Longrightarrow> waits n e w (- EAGAIN) w []"
  by (auto simp: waits_def wait_min_loop.simps [of n "rtr w"] intro: exI [of _ "[]"])

lemma waits_turn:
  assumes n: "\<not> n \<le> rx_len (rtr w)"
    and ds: "arrivals w = ds @ arrivals w1" "rtr w1 = notified ds (rtr w)" "clock w \<le> clock w1" "clock w1 \<le> e"
    and late: "clock w1 = e \<Longrightarrow> clock w < e \<Longrightarrow> (\<exists>a\<in>fst ` set ds. e \<le> a) \<or> arrivals w1 = [] \<or> e < fst (hd (arrivals w1))"
    and rest: "waits n e w1 rc w' used"
  shows "waits n e w rc w' (ds @ used)"
proof -
  obtain evs where e1: "wait_min_loop n (rtr w1) evs = (rc, rtr w', [])" "concat (map burst_of evs) = map snd used"
    using rest by (auto simp: waits_def)
  have "wait_min_loop n (rtr w) (Burst (map snd ds) # evs) = (rc, rtr w', [])"
    using wait_script_turn [OF n] e1(1) ds(2) by simp
  moreover have "concat (map burst_of (Burst (map snd ds) # evs)) = map snd (ds @ used)" using e1(2) by simp
  moreover have "(\<exists>a\<in>fst ` set (ds @ used). e \<le> a) \<or> arrivals w' = [] \<or> e < fst (hd (arrivals w'))"
    if "rc \<noteq> 0" "clock w < e"
  proof (cases "clock w1 < e")
    case True
    then show ?thesis using rest that(1) by (auto simp: waits_def)
  next
    case False
    then have "clock w1 = e" using ds(4) by simp
    from late [OF this that(2)] show ?thesis
    proof (elim disjE)
      assume "e < fst (hd (arrivals w1))"
      then show ?thesis using rest by (cases used) (auto simp: waits_def)
    next
      assume "arrivals w1 = []"
      then show ?thesis using rest by (auto simp: waits_def)
    qed auto
  qed
  ultimately show ?thesis
    using rest ds unfolding waits_def by (auto intro!: exI [of _ "Burst (map snd ds) # evs"])
qed

lemma wait_sem_returns:
  assumes "sem_take_ok T"
  shows "\<exists>rc w' used. wait_sem T n e w = Some (rc, w') \<and> waits n e w rc w' used"
proof (induction "rx_sem w + gives (arrivals w)" arbitrary: w rule: less_induct)
  case less
  consider "n \<le> rx_len (rtr w)" | "\<not> n \<le> rx_len (rtr w)" "e \<le> clock w" | "\<not> n \<le> rx_len (rtr w)" "clock w < e" by linarith
  then show ?case
  proof cases
    case 1
    then show ?thesis using wait_sem_turn(2) waits_done by blast
  next
    case 2
    then show ?thesis using wait_sem_turn(3) waits_expired by blast
  next
    case 3
    from assms 3(2) show ?thesis
    proof (cases rule: sem_takeE)
      case (taken ds)
      have "rx_sem (T e w) + gives (arrivals (T e w)) < rx_sem w + gives (arrivals w)"
        using taken(1,5) by (metis add.assoc add_less_cancel_right gives_append less_add_one)
      from less [OF this] obtain rc w' used where
        r: "wait_sem T n e (T e w) = Some (rc, w')" "waits n e (T e w) rc w' used" by blast
      have "waits n e w rc w' (ds @ used)"
        by (rule waits_turn [OF 3(1) taken(1-4) _ r(2)]) (use taken(6) in force)
      then show ?thesis using r(1) wait_sem_turn(1) [OF 3] by metis
    next
      case (timed_out ds)
      have c: "e \<le> clock (T e w)" "clock w \<le> clock (T e w)" "clock (T e w) \<le> e" using timed_out(3) 3(2) by simp_all
      obtain rc where r: "wait_sem T n e (T e w) = Some (rc, T e w)" "waits n e (T e w) rc (T e w) []"
        using wait_sem_turn(2) [of n "T e w"] wait_sem_turn(3) [of n "T e w" e] waits_done [of n "T e w"] waits_expired [of n "T e w"] c(1)
        by (cases "n \<le> rx_len (rtr (T e w))") blast+
      have "waits n e w rc (T e w) (ds @ [])"
        by (rule waits_turn [OF 3(1) timed_out(1,2) c(2,3) _ r(2)]) (use timed_out(4) in blast)
      then show ?thesis using r(1) wait_sem_turn(1) [OF 3] by metis
    qed
  qed
qed

text \<open>Indications never shorten what is in the buffer.\<close>

lemma notified_mono: "rx_len t \<le> rx_len (notified ds t)"
proof (induction ds arbitrary: t)
  case (Cons d ds)
  have "rx_len t \<le> rx_len (snd (notify_cb t (snd d)))" by (simp add: notify_cb_def Let_def split: option.split)
  with Cons [of "snd (notify_cb t (snd d))"] show ?case by simp
qed simp

lemma waits_complete:
  assumes w: "waits n e w rc w' used" and c: "clock w < e"
    and pre: "arrivals w = pre @ suf" "\<forall>x\<in>set pre. fst x < e" "n \<le> rx_len (notified pre (rtr w))"
  shows "rc = 0"
proof (rule ccontr)
  assume rc: "rc \<noteq> 0"
  have eq: "used @ arrivals w' = pre @ suf" using w pre(1) by (simp add: waits_def)
  have "\<exists>more. used = pre @ more"
  proof (rule ccontr)
    assume no: "\<nexists>more. used = pre @ more"
    then obtain x xs where x: "pre = used @ x # xs" using eq by (metis append_eq_append_conv2 append_Nil2 neq_Nil_conv)
    then have "arrivals w' \<noteq> []" "hd (arrivals w') = x" using eq by auto
    moreover have "\<not> e \<le> a" if "a \<in> fst ` set used" for a using pre(2) x that by (auto simp: not_le)
    ultimately have "e < fst x" using w rc c by (auto simp: waits_def)
    then show False using pre(2) x by auto
  qed
  then obtain more where "used = pre @ more" ..
  then have "n \<le> rx_len (rtr w')" using w pre(3) notified_mono [of "notified pre (rtr w)" more] by (simp add: waits_def)
  then show False using w rc by (simp add: waits_def)
qed

section \<open>A kernel for examples\<close>

text \<open>A semaphore that wakes its waiter at once.\<close>

fun demo_take_run ::
    "nat \<Rightarrow> nat \<Rightarrow> nat \<Rightarrow> nuki_transport \<Rightarrow> (nat \<times> bytes option) list \<Rightarrow> rx_world" where
  "demo_take_run e c (Suc k) t arr = \<lparr>rtr = t, rx_sem = k, clock = c, arrivals = arr\<rparr>"
| "demo_take_run e c 0 t [] = \<lparr>rtr = t, rx_sem = 0, clock = e, arrivals = []\<rparr>"
| "demo_take_run e c 0 t ((a, d) # arr) =
     (if e < a then \<lparr>rtr = t, rx_sem = 0, clock = e, arrivals = (a, d) # arr\<rparr>
      else demo_take_run e (max c a) (if d = None then 0 else 1) (snd (notify_cb t d)) arr)"

definition demo_take :: "nat \<Rightarrow> rx_world \<Rightarrow> rx_world" where
  "demo_take e w = demo_take_run e (clock w) (rx_sem w) (rtr w) (arrivals w)"

lemma demo_take_run_ok:
  assumes "c \<le> e"
  shows "\<exists>ds. arr = ds @ arrivals (demo_take_run e c k t arr) \<and> rtr (demo_take_run e c k t arr) = notified ds t \<and>
     c \<le> clock (demo_take_run e c k t arr) \<and> clock (demo_take_run e c k t arr) \<le> e \<and>
     (k + gives ds = rx_sem (demo_take_run e c k t arr) + 1 \<and>
        (clock (demo_take_run e c k t arr) = c \<or> clock (demo_take_run e c k t arr) \<in> fst ` set ds) \<or>
      clock (demo_take_run e c k t arr) = e \<and> k + gives ds = 0 \<and> rx_sem (demo_take_run e c k t arr) = 0 \<and>
        (arrivals (demo_take_run e c k t arr) = [] \<or> e < fst (hd (arrivals (demo_take_run e c k t arr)))))"
  using assms
proof (induction e c k t arr rule: demo_take_run.induct)
  case (1 e c k t arr)
  then show ?case by (intro exI [of _ "[]"]) (simp add: gives_def)
next
  case (2 e c t)
  then show ?case by (intro exI [of _ "[]"]) (simp add: gives_def)
next
  case (3 e c t a d arr)
  show ?case
  proof (cases "e < a")
    case True
    then show ?thesis using 3 by (intro exI [of _ "[]"]) (simp add: gives_def)
  next
    case False
    let ?w = "demo_take_run e (max c a) (if d = None then 0 else 1) (snd (notify_cb t d)) arr"
    have eq: "demo_take_run e c 0 t ((a, d) # arr) = ?w" using False by simp
    have m: "max c a \<le> e" using False 3(2) by simp
    obtain ds where ds: "arr = ds @ arrivals ?w" "rtr ?w = notified ds (snd (notify_cb t d))" "max c a \<le> clock ?w" "clock ?w \<le> e"
      "(if d = None then 0 else 1) + gives ds = rx_sem ?w + 1 \<and> (clock ?w = max c a \<or> clock ?w \<in> fst ` set ds) \<or>
       clock ?w = e \<and> (if d = None then 0 else 1) + gives ds = 0 \<and> rx_sem ?w = 0 \<and> (arrivals ?w = [] \<or> e < fst (hd (arrivals ?w)))"
      using 3(1) [OF False m] by blast
    have g: "gives ((a, d) # ds) = (if d = None then 0 else 1) + gives ds" by (simp add: gives_def)
    show ?thesis
      unfolding eq by (intro exI [of _ "(a, d) # ds"] conjI) (use ds g in \<open>auto simp: max_def split: if_splits\<close>)
  qed
qed

lemma demo_take_ok: "sem_take_ok demo_take"
  unfolding sem_take_ok_def demo_take_def using demo_take_run_ok by (metis less_imp_le)

section \<open>Properties\<close>

text \<open>
  C23: the blocking wait returns, on time, and does what its script says: with any semaphore that behaves as documented, with any
  left-over count and for any indications, the loop ends, at the latest when the timeout has passed; it behaves as the scripted loop on the
  indications that happened meanwhile; it reports a timeout only when the time is up; and it reports success if enough bytes arrive before that.
\<close>

theorem wait_min_implements:
  assumes "sem_take_ok k_sem_take"
  shows "\<exists>rc w' used evs. wait_min_sem k_sem_take n timeout w = Some (rc, w') \<and>
      arrivals w = used @ arrivals w' \<and> concat (map burst_of evs) = map snd used \<and>
      wait_min_loop n (rtr w) evs = (rc, rtr w', []) \<and>
      clock w \<le> clock w' \<and> clock w' \<le> clock w + timeout \<and> (rc \<noteq> 0 \<longrightarrow> rc = - EAGAIN \<and> clock w' = clock w + timeout) \<and>
      (\<forall>pre suf. arrivals w = pre @ suf \<and> 0 < timeout \<and> (\<forall>x\<in>set pre. fst x < clock w + timeout) \<and>
         n \<le> rx_len (notified pre (rtr w)) \<longrightarrow> rc = 0)"
proof -
  obtain rc w' used where r: "wait_sem k_sem_take n (clock w + timeout) w = Some (rc, w')" "waits n (clock w + timeout) w rc w' used"
    using wait_sem_returns [OF assms] by blast
  obtain evs where "wait_min_loop n (rtr w) evs = (rc, rtr w', [])" "concat (map burst_of evs) = map snd used"
    using r(2) by (auto simp: waits_def)
  then show ?thesis
    using r waits_complete [OF r(2)] unfolding waits_def wait_min_sem_def
    by (intro exI [of _ rc] exI [of _ w'] exI [of _ used] exI [of _ evs]) (auto split: if_splits)
qed

theorem wait_min_implements_witness:
  "\<exists>w'. wait_min_sem demo_take 2 10
     \<lparr>rtr = \<lparr>t_conn = Some 0, t_value_handle = 1, t_ccc_handle = 2, rx_buf = replicate 256 0, rx_len = 0, write_err = 0\<rparr>,
      rx_sem = 3, clock = 100, arrivals = [(104, Some [7]), (105, None), (109, Some [8, 9])]\<rparr> = Some (0, w')"
proof -
  let ?t = "\<lparr>t_conn = Some 0, t_value_handle = 1, t_ccc_handle = 2, rx_buf = replicate 256 0, rx_len = 0, write_err = 0\<rparr>"
  let ?arr = "[(104, Some [7]), (105, None), (109, Some [8, 9])] :: (nat \<times> bytes option) list"
  let ?w = "\<lparr>rtr = ?t, rx_sem = 3, clock = 100, arrivals = ?arr\<rparr>"
  obtain rc w' where r: "wait_min_sem demo_take 2 10 ?w = Some (rc, w')"
    and c: "\<And>pre suf. arrivals ?w = pre @ suf \<and> 0 < (10 :: nat) \<and> (\<forall>x\<in>set pre. fst x < clock ?w + 10) \<and>
         2 \<le> rx_len (notified pre (rtr ?w)) \<Longrightarrow> rc = 0"
    using wait_min_implements [OF demo_take_ok, of 2 10 ?w] by blast
  have "rc = 0" by (rule c [of ?arr "[]"]) (simp add: notify_cb_def Let_def)
  then show ?thesis using r by blast
qed

end
