(* ===== verification/Nuki_Bridge.thy ===== *)
theory Nuki_Bridge
  imports Nuki_System
begin

text \<open>
  The specification of the bridge and its refinement by the firmware.

  The specification knows no radio, no buffers, no threads and no cryptography: a bridge is paired or not, knows the last state of the lock or not,
  and has a list of waiting requests. A step receives bytes, answers the first waiting request, polls, or follows a typed
  command, and its label says which. What a step may do depends on the word of the lock: the states that it sealed under a key in this step and the pairings that it agreed to.
  The label also carries the orders that the step gives to the lock: only the request that is answered or the command that is typed in this step can be
  the reason for one.

  The firmware implements it: the abstraction of every step of a reachable state is a step of the specification, with the orders that were put on
  the air. So every run of the firmware is a run of the specification, and what is shown of the latter holds of the firmware.
\<close>

section \<open>The specification\<close>

record bridge =
  b_line :: bool
  b_paired :: "nuki_pairing_data option"
  b_saved :: "nuki_pairing_data option"
  b_known :: "(nuki_keyturner_state \<times> int) option"
  b_bytes :: bytes
  b_waiting :: "(u8 \<times> bytes) list"
  b_out :: bytes

text \<open>\<open>b_line\<close>: the serial line works; \<open>b_paired\<close>, \<open>b_saved\<close>: the pairing in use and the one that a restart brings back.\<close>

record lock_word =
  w_state :: "bytes \<Rightarrow> nuki_keyturner_state \<times> int \<Rightarrow> bool"
  w_agreed :: "nuki_pairing_data \<Rightarrow> bool"

text \<open>What a received request asks for.\<close>

definition wire_request :: "u8 \<times> bytes \<Rightarrow> request" where
  "wire_request f =
     (if fst f = NUKI_UART_CMD_PAIR then Pairing
      else if fst f = NUKI_UART_CMD_LOCK then Action NUKI_LOCK_ACTION_LOCK
      else if fst f = NUKI_UART_CMD_UNLOCK then Action NUKI_LOCK_ACTION_UNLOCK
      else if fst f = NUKI_UART_CMD_UNLATCH then Action NUKI_LOCK_ACTION_UNLATCH
      else if fst f = NUKI_UART_CMD_CALIBRATE \<and> length (snd f) = 2 then Calibration (of_nat (le_val (snd f)))
      else Nothing)"

text \<open>
  What an operation may do: nothing; give the order that was asked for; learn the state that the lock sealed under the key of the pairing, when
  polling or together with an action; replace the pairing by one that the lock agreed to, in RAM, and in flash too unless the write fails, which may
  leave the old one or none there.
\<close>

inductive bridge_op :: "lock_word \<Rightarrow> request \<Rightarrow> order set \<Rightarrow> bridge \<Rightarrow> bridge \<Rightarrow> bool" for W where
  no_effect: "bridge_op W req {} b b"
| ordered: "b_paired b = Some p \<Longrightarrow> request_order req = Some x \<Longrightarrow> bridge_op W req {x} b b"
| polled: "b_paired b = Some p \<Longrightarrow> w_state W (shared_key p) k \<Longrightarrow> bridge_op W Polling {} b (b\<lparr>b_known := Some k\<rparr>)"
| acted: "b_paired b = Some p \<Longrightarrow> w_state W (shared_key p) k \<Longrightarrow>
    bridge_op W (Action action) {Lock_action action} b (b\<lparr>b_known := Some k\<rparr>)"
| paired: "w_agreed W d \<Longrightarrow> v \<in> {b_saved b, Some d, None} \<Longrightarrow> bridge_op W Pairing {} b (b\<lparr>b_paired := Some d, b_saved := v\<rparr>)"

text \<open>
  The answer to a request, given the orders and the state after it. A zero result is a promise: the lock was given the order, or
  the pairing is in place and saved.
\<close>

definition state_report :: "int \<Rightarrow> int \<Rightarrow> bridge \<Rightarrow> nuki_uart_resp_state" where
  "state_report rc now b =
     (if rc \<noteq> 0 then resp_state_zero\<lparr>resp_rc := word_of_int rc\<rparr>
      else case b_known b of
             None \<Rightarrow> resp_state_zero
           | Some (st, t) \<Rightarrow> fill_state_fields resp_state_zero st (word_of_int ((now - t) sdiv 1000)))"

definition carried_out :: "request \<Rightarrow> order set \<Rightarrow> bridge \<Rightarrow> bool" where
  "carried_out req xs b \<longleftrightarrow>
     (case req of
        Pairing \<Rightarrow> b_paired b \<noteq> None \<and> b_saved b = b_paired b
      | Action action \<Rightarrow> xs = {Lock_action action}
      | Calibration pin \<Rightarrow> xs = {Calibrate pin}
      | _ \<Rightarrow> False)"

definition answers :: "int \<Rightarrow> u8 \<times> bytes \<Rightarrow> order set \<Rightarrow> bridge \<Rightarrow> bytes \<Rightarrow> bool" where
  "answers now f xs b out \<longleftrightarrow>
     (if fst f = NUKI_UART_CMD_STATUS then
        (\<exists>conn ready. out = [NUKI_UART_FRAME_SOF_RESP, fst f, 7] @
           status_image \<lparr>status_rc = 0, status_paired = (if b_paired b = None then 0 else 1), status_connected = conn, status_ready = ready\<rparr>)
      else if fst f = NUKI_UART_CMD_STATE then
        out = [NUKI_UART_FRAME_SOF_RESP, fst f, 21] @ state_image (state_report (if b_known b = None then - ENODATA else 0) now b)
      else
        (\<exists>rc. out = (if fst f \<in> {NUKI_UART_CMD_LOCK, NUKI_UART_CMD_UNLOCK, NUKI_UART_CMD_UNLATCH}
                     then [NUKI_UART_FRAME_SOF_RESP, fst f, 21] @ state_image (state_report rc now b)
                     else [NUKI_UART_FRAME_SOF_RESP, fst f, 4] @ le32 (word_of_int rc)) \<and>
              (rc = 0 \<longrightarrow> carried_out (wire_request f) xs b) \<and> (wire_request f = Nothing \<longrightarrow> rc = - EINVAL)))"

text \<open>After a restart only what was saved is left.\<close>

definition bridge_restart :: "bool \<Rightarrow> bridge \<Rightarrow> bridge" where
  "bridge_restart line b = \<lparr>b_line = line, b_paired = b_saved b, b_saved = b_saved b, b_known = None, b_bytes = [], b_waiting = [], b_out = []\<rparr>"

text \<open>
  What a step is: bytes arrive, the first waiting request is taken up (at an uptime), the poller polls, a command is typed, or a callback comes from the radio.
  A step without a request, without a working line or with nothing to answer changes nothing.
\<close>

datatype trigger = Bytes bytes | Serving int | Polls | Command "string list" | Callback

datatype bridge_label = Step trigger lock_word "order set" | Restart bool

inductive bridge_step :: "bridge_label \<Rightarrow> bridge \<Rightarrow> bridge \<Rightarrow> bool" where
  receive: "b_line b \<Longrightarrow> fs = drop (length (parse_stream (b_bytes b))) (parse_stream (b_bytes b @ bs)) \<Longrightarrow>
    bridge_step (Step (Bytes bs) W {}) b (b\<lparr>b_bytes := b_bytes b @ bs, b_waiting := take 4 (b_waiting b @ fs)\<rparr>)"
| deaf: "\<not> b_line b \<Longrightarrow> bridge_step (Step (Bytes bs) W {}) b b"
| nothing_asked: "\<not> b_line b \<or> b_waiting b = [] \<Longrightarrow> bridge_step (Step (Serving now) W {}) b b"
| answer: "b_line b \<Longrightarrow> b_waiting b = f # fs \<Longrightarrow> bridge_op W (wire_request f) xs b b' \<Longrightarrow> answers now f xs b' out \<Longrightarrow>
    bridge_step (Step (Serving now) W xs) b (b'\<lparr>b_waiting := fs, b_out := b_out b @ out\<rparr>)"
| poll: "bridge_op W Polling xs b b' \<Longrightarrow> bridge_step (Step Polls W xs) b b'"
| typed: "bridge_op W (typed_request argv) xs b b' \<Longrightarrow> bridge_step (Step (Command argv) W xs) b b'"
| callback: "bridge_step (Step Callback W {}) b b"
| restart: "bridge_step (Restart line) b (bridge_restart line b)"

section \<open>The abstraction\<close>

definition known :: "app \<Rightarrow> (nuki_keyturner_state \<times> int) option" where
  "known a = (if g_cache_valid a then Some (g_cached_state a, g_cache_uptime_ms a) else None)"

text \<open>The part of the specification's state that the operations work on.\<close>

definition view :: "('f \<Rightarrow> string \<Rightarrow> nuki_pairing_data option) \<Rightarrow> app \<Rightarrow> 'f \<Rightarrow> bridge \<Rightarrow> bridge" where
  "view stored a flash b =
     b\<lparr>b_paired := nuki_storage_get_pairing (g_storage a), b_saved := stored flash ''nuki/pairing'', b_known := known a\<rparr>"

definition bridge_of ::
    "('f \<Rightarrow> string \<Rightarrow> nuki_pairing_data option) \<Rightarrow> ('q \<Rightarrow> rx_frame list) \<Rightarrow> ('s, 'f, 'q) sys \<Rightarrow> bridge" where
  "bridge_of stored items s =
     \<lparr>b_line = s_uart s, b_paired = nuki_storage_get_pairing (g_storage (s_app s)), b_saved = stored (s_flash s) ''nuki/pairing'', b_known = known (s_app s),
      b_bytes = s_bytes s, b_waiting = map frame_of (items (s_queue s)), b_out = s_out s\<rparr>"

text \<open>The orders given under the key of the pairing, and the word of the lock in an operation.\<close>

definition ordered_by :: "app \<Rightarrow> app \<Rightarrow> order set" where
  "ordered_by a a' = (case nuki_storage_get_pairing (g_storage a) of None \<Rightarrow> {} | Some p \<Rightarrow> orders (shared_key p) a a')"

text \<open>
  The handshake of the pairing operation completed with the result \<open>d\<close>: the operation connected, the handshake ran over its pairing transport \<open>g_gdio\<close>, and
  the address is that of the peer of the connection \<open>g_conn\<close> that the module holds when the handshake returns.
\<close>

definition handshake :: "bt_lib \<Rightarrow> byteorder \<Rightarrow> 's psa \<Rightarrow> env \<Rightarrow> app \<Rightarrow> 's \<Rightarrow> nuki_pairing_data \<Rightarrow> bool" where
  "handshake L B P E a ps d \<longleftrightarrow>
     (\<exists>a1 d0 s ps'. connect_to_lock L True E (a\<lparr>g_op_lock := True\<rparr>) = (0, a1) \<and> g_gdio_ready a1 \<and>
        nuki_pairing_run B P (session_io E (g_gdio a1), ps) = (Inr d0, s, ps') \<and>
        d = d0\<lparr>addr := bt_conn_get_dst L (g_conn (gdio_session L E s a1))\<rparr>)"

definition lock_says :: "bt_lib \<Rightarrow> byteorder \<Rightarrow> 's psa \<Rightarrow> env \<Rightarrow> app \<Rightarrow> 's \<Rightarrow> lock_word" where
  "lock_says L B P E a ps =
     \<lparr>w_state = (\<lambda>key (st, t). t = uptime E \<and> (\<exists>q. nuki_keyturner_state_parse B q = Inr st \<and>
                    got_during key (lock_inbound E) NUKI_CMD_KEYTURNER_STATES q)),
      w_agreed = handshake L B P E a ps\<rparr>"

text \<open>If the host keeps to its rules and reports no loss of the connection during the handshake, the address is that of the connected peer.\<close>

lemma conn_stays:
  "g_conn a = Some c \<Longrightarrow> \<forall>e\<in>set evs. e \<noteq> Disconnected c \<and> (\<forall>c' err rc. e = Connected c' err rc \<longrightarrow> err = 0) \<Longrightarrow>
   g_conn (bt_handles L evs a) = Some c"
proof (induction evs arbitrary: a)
  case (Cons e evs)
  then have "g_conn (bt_handle L e a) = Some c"
    by (cases e) (auto simp: callback_defs device_found_eq Let_def split: option.split)
  with Cons show ?case by simp
qed simp

lemma handshake_peer:
  assumes "handshake L B P E a ps d" "conn_inv Down a" "host_run L Down (attempt True (a\<lparr>g_op_lock := True\<rparr>)) (connect_events E) (Up c ph)"
    and "\<forall>e\<in>set (op_events E). e \<noteq> Disconnected c \<and> (\<forall>c' err rc. e = Connected c' err rc \<longrightarrow> err = 0)"
  shows "addr d = bt_conn_get_dst L (Some c)"
proof -
  from assms(1) obtain a1 d0 s where c: "connect_to_lock L True E (a\<lparr>g_op_lock := True\<rparr>) = (0, a1)"
    and d: "addr d = bt_conn_get_dst L (g_conn (gdio_session L E s a1))" by (auto simp: handshake_def)
  have "scan_rc E = 0" using c by (auto simp: connect_to_lock_def Let_def split: if_splits)
  moreover have "conn_inv Down (a\<lparr>g_op_lock := True\<rparr>)" using assms(2) by (simp add: conn_inv_def)
  ultimately have "conn_inv (Up c ph) a1" using connect_conn_inv [of Down _ E "Up c ph" L True] assms(3) c by fastforce
  then have "g_conn a1 = Some c" by (simp add: conn_inv_def)
  then have "g_conn (gdio_session L E s a1) = Some c" unfolding gdio_session_def by (intro conn_stays assms(4)) simp
  then show ?thesis using d by simp
qed

lemma ordered_by_same [simp]: "air a' = air a \<Longrightarrow> ordered_by a a' = {}"
  by (simp add: ordered_by_def split: option.split)

lemma view_same: "g_storage a' = g_storage a \<Longrightarrow> same_cache a a' \<Longrightarrow> view stored a' flash b = view stored a flash b"
  by (simp add: view_def known_def same_cache_def)

lemma view_known: "g_storage a' = g_storage a \<Longrightarrow> cached st t a' \<Longrightarrow> view stored a' flash b = (view stored a flash b)\<lparr>b_known := Some (st, t)\<rparr>"
  by (simp add: view_def known_def cached_def)

lemma view_paired [simp]: "b_paired (view stored a flash b) = nuki_storage_get_pairing (g_storage a)"
  by (simp add: view_def)

section \<open>The operations\<close>

lemma unpaired_ops:
  assumes "nuki_storage_get_pairing (g_storage a) = None"
  shows "nuki_app_get_state L B E a = (Inl (- ENOENT), a\<lparr>g_op_lock := False\<rparr>)"
    "nuki_app_lock_action L B action E a = (- ENOENT, a\<lparr>g_op_lock := False\<rparr>)"
    "nuki_app_calibrate L B pin E a = (- ENOENT, a\<lparr>g_op_lock := False\<rparr>)"
  using assms by (simp_all add: nuki_app_get_state_def get_state_locked_def nuki_app_lock_action_def lock_action_locked_def
      nuki_app_calibrate_def calibrate_locked_def)

lemma get_state_view:
  assumes B: "byteorder_ok B" and ok: "app_ok a" and r: "nuki_app_get_state L B E a = (r, a')"
    and p: "nuki_storage_get_pairing (g_storage a) = Some p"
  shows "g_storage a' = g_storage a \<and> same_cache a a' \<and>
    (\<forall>st. r = Inr st \<longrightarrow> w_state (lock_says L B P E a ps) (shared_key p) (st, uptime E))"
proof -
  let ?a = "a\<lparr>g_op_lock := True\<rparr>"
  obtain a1 where l: "get_state_locked L B E ?a = (r, a1)" "a' = a1\<lparr>g_op_lock := False\<rparr>" using public_ops(1) [OF r] by blast
  have p': "nuki_storage_get_pairing (g_storage ?a) = Some p" and ok': "app_ok ?a" using p ok by simp_all
  from p' l(1) show ?thesis
  proof (cases rule: get_state_locked_cases)
    case (refused e)
    then show ?thesis using connect_frame [OF refused(3)] l(2) by (simp add: same_cache_def)
  next
    case (served a2 s)
    note idle = session_idle [OF served(1) ok'] and k = app_ok_key [OF ok p]
    have "tr_ok (tr (session_io E (g_usdio a2)))" using idle(1) by (simp add: io_idle_def)
    from get_state_result [OF B k this served(2)]
    have "\<exists>q. nuki_keyturner_state_parse B q = Inr st \<and> got_during (shared_key p) (lock_inbound E) NUKI_CMD_KEYTURNER_STATES q"
      if "r = Inr st" for st using that got_during_now unfolding idle(2) by fastforce
    then show ?thesis using connect_frame [OF served(1)] served(3) l(2) by (simp add: same_cache_def lock_says_def)
  qed
qed

lemma got_during_inner: "evs = x @ y @ z \<Longrightarrow> got_during key y cmd p \<Longrightarrow> got_during key evs cmd p"
  unfolding got_during_def by (metis append_assoc)

lemma lock_action_view:
  assumes B: "byteorder_ok B" and ok: "app_ok a" and r: "nuki_app_lock_action L B action E a = (rc, a')"
    and p: "nuki_storage_get_pairing (g_storage a) = Some p"
  shows "g_storage a' = g_storage a \<and>
    (same_cache a a' \<or> rc = 0 \<and> (\<exists>st. w_state (lock_says L B P E a ps) (shared_key p) (st, uptime E) \<and> cached st (uptime E) a'))"
proof -
  let ?a = "a\<lparr>g_op_lock := True\<rparr>"
  obtain a1 where l: "lock_action_locked L B action E ?a = (rc, a1)" "a' = a1\<lparr>g_op_lock := False\<rparr>" using public_ops(2) [OF r] by blast
  have p': "nuki_storage_get_pairing (g_storage ?a) = Some p" and ok': "app_ok ?a" using p ok by simp_all
  have "g_storage a1 = g_storage a"
    using p' l(1) by (cases rule: lock_action_locked_cases) (simp_all add: connect_frame(1))
  moreover have "same_cache a a' \<longleftrightarrow> same_cache ?a a1" "cached st t a' \<longleftrightarrow> cached st t a1" for st t
    by (simp_all add: l(2) same_cache_def cached_def)
  moreover have "same_cache ?a a1 \<or> rc = 0 \<and> (\<exists>q st. got_during (shared_key p) (lock_inbound E) NUKI_CMD_KEYTURNER_STATES q \<and>
      nuki_keyturner_state_parse B q = Inr st \<and> cached st (uptime E) a1)"
    using lock_action_locked_safe [OF B ok' p' l(1)]
    by (elim disjE exE conjE) (simp_all, use got_during_inner in blast)
  ultimately show ?thesis using l(2) by (auto simp: lock_says_def)
qed

lemma calibrate_view:
  assumes r: "nuki_app_calibrate L B pin E a = (rc, a')" and p: "nuki_storage_get_pairing (g_storage a) = Some p"
  shows "g_storage a' = g_storage a \<and> same_cache a a'"
proof -
  let ?a = "a\<lparr>g_op_lock := True\<rparr>"
  obtain a1 where l: "calibrate_locked L B pin E ?a = (rc, a1)" "a' = a1\<lparr>g_op_lock := False\<rparr>" using public_ops(3) [OF r] by blast
  have p': "nuki_storage_get_pairing (g_storage ?a) = Some p" using p by simp
  from p' l(1) show ?thesis
    by (cases rule: calibrate_locked_cases) (use connect_frame l(2) in \<open>simp_all add: same_cache_def\<close>)
qed

text \<open>Pairing: what it may change, and what a zero result means.\<close>

lemma pair_view:
  assumes S: "settings_ok S stored" and r: "nuki_app_pair L B P S E (a, ps, flash) = (rc, a', ps', flash')"
  shows "same_cache a a'"
    and "rc \<noteq> 0 \<and> g_storage a' = g_storage a \<and> stored flash' = stored flash \<or>
      (\<exists>d. w_agreed (lock_says L B P E a ps) d \<and> nuki_storage_get_pairing (g_storage a') = Some d \<and>
         (rc = 0 \<longrightarrow> stored flash' ''nuki/pairing'' = Some d) \<and> stored flash' ''nuki/pairing'' \<in> {stored flash ''nuki/pairing'', Some d, None})"
proof -
  obtain a1 where l: "pair_locked L B P S E (a\<lparr>g_op_lock := True\<rparr>, ps, flash) = (rc, a1, ps', flash')" "a' = a1\<lparr>g_op_lock := False\<rparr>"
    using public_ops(4) [OF r] by blast
  from l(1) have "same_cache a a' \<and> (rc \<noteq> 0 \<and> g_storage a' = g_storage a \<and> stored flash' = stored flash \<or>
      (\<exists>d. w_agreed (lock_says L B P E a ps) d \<and> nuki_storage_get_pairing (g_storage a') = Some d \<and>
         (rc = 0 \<longrightarrow> stored flash' ''nuki/pairing'' = Some d) \<and> stored flash' ''nuki/pairing'' \<in> {stored flash ''nuki/pairing'', Some d, None}))"
  proof (cases rule: pair_locked_cases)
    case refused
    then show ?thesis using connect_frame [OF refused(2)] l(2) by (simp add: same_cache_def)
  next
    case (unsupported a2)
    then show ?thesis using connect_frame [OF unsupported(1)] l(2) by (simp add: same_cache_def)
  next
    case (failed a2 s)
    then have "rc \<noteq> 0" using pairing_error_nonzero [of B P "session_io E (g_gdio a2)" ps s ps'] by auto
    then show ?thesis using failed connect_frame [OF failed(1)] l(2) by (simp add: same_cache_def)
  next
    case (paired a2 s d d' st)
    note sv = save_pairing_effect [OF S paired(5)]
    have h: "handshake L B P E a ps d'" unfolding handshake_def using paired(1-4) by blast
    have "rc = 0 \<longrightarrow> stored flash' ''nuki/pairing'' = Some d'" using sv(2) by simp
    moreover have "stored flash' ''nuki/pairing'' \<in> {stored flash ''nuki/pairing'', Some d', None}" using sv(3) by force
    moreover have "nuki_storage_get_pairing (g_storage a') = Some d'" "same_cache a a'"
      using connect_frame [OF paired(1)] paired(6) l(2) sv(1) by (simp_all add: same_cache_def nuki_storage_get_pairing_def)
    ultimately show ?thesis using h by (auto simp: lock_says_def)
  qed
  then show "same_cache a a'" "rc \<noteq> 0 \<and> g_storage a' = g_storage a \<and> stored flash' = stored flash \<or>
      (\<exists>d. w_agreed (lock_says L B P E a ps) d \<and> nuki_storage_get_pairing (g_storage a') = Some d \<and>
         (rc = 0 \<longrightarrow> stored flash' ''nuki/pairing'' = Some d) \<and> stored flash' ''nuki/pairing'' \<in> {stored flash ''nuki/pairing'', Some d, None})" by blast+
qed

lemma op_orders:
  "b_paired b = Some p \<Longrightarrow> xs \<subseteq> set_option (request_order req) \<Longrightarrow> bridge_op W req xs b b"
  by (cases "request_order req") (auto simp: subset_singleton_iff intro: no_effect ordered)

lemma poll_bridge:
  assumes B: "byteorder_ok B" and ok: "app_ok a" and r: "state_poll_round L B E a = (n, a')"
  shows "bridge_op (lock_says L B P E a ps) Polling (ordered_by a a') (view stored a flash b) (view stored a' flash b)"
proof (cases "nuki_storage_get_pairing (g_storage a)")
  case None
  then have "a' = a" using r by (simp add: state_poll_round_def nuki_app_is_paired_def)
  then show ?thesis by (simp add: no_effect)
next
  case (Some p)
  obtain q a1 where g: "nuki_app_get_state L B E a = (q, a1)" by fastforce
  note G = get_state_view [OF B ok g Some, of P ps]
  have o: "ordered_by a a' = {}" using poll_orders [OF B ok r Some] Some by (simp add: ordered_by_def)
  show ?thesis
  proof (cases q)
    case (Inl e)
    then have "g_storage a' = g_storage a" "same_cache a a'"
      using r g G Some by (auto simp: state_poll_round_def nuki_app_is_paired_def same_cache_def split: if_splits)
    then have "view stored a' flash b = view stored a flash b" by (rule view_same)
    then show ?thesis by (simp add: o no_effect)
  next
    case (Inr st)
    then have "g_storage a' = g_storage a" "cached st (uptime E) a'" "w_state (lock_says L B P E a ps) (shared_key p) (st, uptime E)"
      using r g G Some by (auto simp: state_poll_round_def nuki_app_is_paired_def cached_def)
    then show ?thesis using polled [of "view stored a flash b" p] Some by (simp add: o view_known)
  qed
qed

lemma action_bridge:
  assumes B: "byteorder_ok B" and ok: "app_ok a" and r: "nuki_app_lock_action L B action E a = (rc, a')"
  shows "bridge_op (lock_says L B P E a ps) (Action action) (ordered_by a a') (view stored a flash b) (view stored a' flash b)"
    and "rc = 0 \<Longrightarrow> ordered_by a a' = {Lock_action action}"
proof -
  have "bridge_op (lock_says L B P E a ps) (Action action) (ordered_by a a') (view stored a flash b) (view stored a' flash b) \<and>
      (rc = 0 \<longrightarrow> ordered_by a a' = {Lock_action action})"
  proof (cases "nuki_storage_get_pairing (g_storage a)")
    case None
    then have "a' = a\<lparr>g_op_lock := False\<rparr>" "rc \<noteq> 0" using r unpaired_ops(2) [OF None] by auto
    then show ?thesis using view_same [of a' a stored flash b] by (simp add: no_effect same_cache_def)
  next
    case (Some p)
    note O = lock_action_orders [OF B ok r Some] and G = lock_action_view [OF B ok r Some, of P ps]
    have o: "ordered_by a a' = orders (shared_key p) a a'" using Some by (simp add: ordered_by_def)
    have "bridge_op (lock_says L B P E a ps) (Action action) (ordered_by a a') (view stored a flash b) (view stored a' flash b)"
      using G
    proof (elim conjE disjE exE)
      assume "g_storage a' = g_storage a" "same_cache a a'"
      then have "view stored a' flash b = view stored a flash b" by (rule view_same)
      then show ?thesis using op_orders [of "view stored a flash b" p _ "Action action"] Some O(1) by (simp add: o)
    next
      fix st assume "g_storage a' = g_storage a" "cached st (uptime E) a'" "rc = 0"
        "w_state (lock_says L B P E a ps) (shared_key p) (st, uptime E)"
      then show ?thesis using acted [of "view stored a flash b" p] Some O(2) by (simp add: o view_known)
    qed
    then show ?thesis using O(2) o by simp
  qed
  then show "bridge_op (lock_says L B P E a ps) (Action action) (ordered_by a a') (view stored a flash b) (view stored a' flash b)"
    "rc = 0 \<Longrightarrow> ordered_by a a' = {Lock_action action}" by simp_all
qed

lemma calibrate_bridge:
  assumes B: "byteorder_ok B" and ok: "app_ok a" and r: "nuki_app_calibrate L B pin E a = (rc, a')"
  shows "bridge_op W (Calibration pin) (ordered_by a a') (view stored a flash b) (view stored a' flash b)"
    and "rc = 0 \<Longrightarrow> ordered_by a a' = {Calibrate pin}"
proof -
  have "bridge_op W (Calibration pin) (ordered_by a a') (view stored a flash b) (view stored a' flash b) \<and>
      (rc = 0 \<longrightarrow> ordered_by a a' = {Calibrate pin})"
  proof (cases "nuki_storage_get_pairing (g_storage a)")
    case None
    then have "a' = a\<lparr>g_op_lock := False\<rparr>" "rc \<noteq> 0" using r unpaired_ops(3) [OF None] by auto
    then show ?thesis using view_same [of a' a stored flash b] by (simp add: no_effect same_cache_def)
  next
    case (Some p)
    then show ?thesis
      using calibrate_orders [OF B ok r Some] calibrate_view [OF r Some] op_orders [of "view stored a flash b" p _ "Calibration pin" W]
      by (simp add: ordered_by_def view_same)
  qed
  then show "bridge_op W (Calibration pin) (ordered_by a a') (view stored a flash b) (view stored a' flash b)"
    "rc = 0 \<Longrightarrow> ordered_by a a' = {Calibrate pin}" by simp_all
qed

lemma pair_bridge:
  assumes B: "byteorder_ok B" and P: "psa_spec P kv X" and S: "settings_ok S stored" and ok: "app_ok a"
    and r: "nuki_app_pair L B P S E (a, ps, flash) = (rc, a', ps', flash')"
  shows "bridge_op (lock_says L B P E a ps) Pairing (ordered_by a a') (view stored a flash b) (view stored a' flash' b)"
    and "rc = 0 \<Longrightarrow> carried_out Pairing xs (view stored a' flash' b)"
proof -
  note V = pair_view [OF S r]
  have o: "ordered_by a a' = {}"
    using pair_orders [OF B P _ r] app_ok_key [OF ok] by (simp add: ordered_by_def split: option.split)
  have k: "known a' = known a" using V(1) by (simp add: known_def same_cache_def)
  show "bridge_op (lock_says L B P E a ps) Pairing (ordered_by a a') (view stored a flash b) (view stored a' flash' b)"
    unfolding o using V(2)
  proof (elim disjE exE conjE)
    assume "g_storage a' = g_storage a" "stored flash' = stored flash"
    then have "view stored a' flash' b = view stored a flash b" by (simp add: view_def k)
    then show "bridge_op (lock_says L B P E a ps) Pairing {} (view stored a flash b) (view stored a' flash' b)" by (simp add: no_effect)
  next
    fix d assume d: "w_agreed (lock_says L B P E a ps) d" "nuki_storage_get_pairing (g_storage a') = Some d"
      "stored flash' ''nuki/pairing'' \<in> {stored flash ''nuki/pairing'', Some d, None}"
    have "view stored a' flash' b = (view stored a flash b)\<lparr>b_paired := Some d, b_saved := stored flash' ''nuki/pairing''\<rparr>"
      using d(2) by (simp add: view_def k)
    then show "bridge_op (lock_says L B P E a ps) Pairing {} (view stored a flash b) (view stored a' flash' b)"
      using paired [OF d(1), of "stored flash' ''nuki/pairing''" "view stored a flash b"] d(3) by (simp add: view_def)
  qed
  show "carried_out Pairing xs (view stored a' flash' b)" if "rc = 0"
    using V(2) that by (auto simp: carried_out_def view_def)
qed

lemma performs_bridge:
  assumes B: "byteorder_ok B" and P: "psa_spec P kv X" and S: "settings_ok S stored" and ok: "app_ok a"
    and r: "performs L B P S E req (a, ps, flash) = (a', ps', flash')"
  shows "bridge_op (lock_says L B P E a ps) req (ordered_by a a') (view stored a flash b) (view stored a' flash' b)"
proof (cases req)
  case Nothing
  then show ?thesis using r by (simp add: no_effect)
next
  case Pairing
  then obtain rc where "nuki_app_pair L B P S E (a, ps, flash) = (rc, a', ps', flash')" using r by (metis performs.simps(2) prod.collapse)
  from pair_bridge(1) [OF B P S ok this] show ?thesis unfolding Pairing .
next
  case Query
  then have g: "nuki_app_get_state L B E a = (fst (nuki_app_get_state L B E a), a')" and f: "flash' = flash" using r by auto
  show ?thesis
  proof (cases "nuki_storage_get_pairing (g_storage a)")
    case None
    then have "a' = a\<lparr>g_op_lock := False\<rparr>" using g unpaired_ops(1) [OF None] by simp
    then show ?thesis using f view_same [of a' a stored flash b] by (simp add: no_effect same_cache_def)
  next
    case (Some p)
    have "view stored a' flash b = view stored a flash b" by (rule view_same) (use get_state_view [OF B ok g Some, of P ps] in simp_all)
    then show ?thesis
      using f Some get_state_orders [OF B ok g Some] by (simp add: ordered_by_def no_effect)
  qed
next
  case Polling
  then show ?thesis using poll_bridge [OF B ok, of L E "fst (state_poll_round L B E a)" a'] r by (auto simp: prod_eq_iff)
next
  case (Action action)
  then show ?thesis using action_bridge(1) [OF B ok, of L action E "fst (nuki_app_lock_action L B action E a)" a'] r by (auto simp: prod_eq_iff)
next
  case (Calibration pin)
  then show ?thesis using calibrate_bridge(1) [OF B ok, of L pin E "fst (nuki_app_calibrate L B pin E a)" a'] r by (auto simp: prod_eq_iff)
qed

section \<open>The answers\<close>

lemma frame_wire_request: "length (f_payload f) = 32 \<Longrightarrow> frame_request f = wire_request (frame_of f)"
proof -
  assume l: "length (f_payload f) = 32"
  have "length (take (unat (f_len f)) (f_payload f)) = 2 \<longleftrightarrow> f_len f = 2"
    using l by (simp add: min_def word_unat_eq_iff)
  then show ?thesis by (auto simp: frame_request_def wire_request_def frame_of_def calibrate_overlay_def)
qed

lemma report_view:
  "state_report 0 now (view stored a flash b) =
     (if g_cache_valid a then fill_state_fields resp_state_zero (g_cached_state a) (word_of_int ((now - g_cache_uptime_ms a) sdiv 1000))
      else resp_state_zero)"
  "rc \<noteq> 0 \<Longrightarrow> state_report rc now (view stored a flash b) = resp_state_zero\<lparr>resp_rc := word_of_int rc\<rparr>"
  "b_known (view stored a flash b) = known a"
  by (simp_all add: state_report_def view_def known_def)

lemma lock_image:
  assumes r: "nuki_app_lock_action L B action E a = (rc, a')"
  shows "handle_lock_action L B action cmd E now a =
     ([NUKI_UART_FRAME_SOF_RESP, cmd, 21] @ state_image (state_report rc now (view stored a' flash b)), a')"
  by (simp add: handle_lock_action_def r send_frame_image report_view nuki_app_get_cached_state_def Let_def fill_state_fields_def resp_state_zero_def)

lemma simple_response: "send_simple_response cmd rc = [NUKI_UART_FRAME_SOF_RESP, cmd, 4] @ le32 (word_of_int rc)"
  using send_frame_image(2) [of cmd] by (simp add: send_simple_response_def simple_image_def)

lemma dispatch_action_answers:
  assumes B: "byteorder_ok B" and ok: "app_ok a" and l: "length (f_payload f) = 32"
    and d: "dispatch_frame L B P S E now f (a, ps, flash) = (out, a', ps', flash')"
    and c: "f_cmd f \<in> {NUKI_UART_CMD_LOCK, NUKI_UART_CMD_UNLOCK, NUKI_UART_CMD_UNLATCH}"
  shows "answers now (frame_of f) (ordered_by a a') (view stored a' flash' b) out"
proof -
  obtain action where w: "wire_request (frame_of f) = Action action"
    and h: "dispatch_frame L B P S E now f (a, ps, flash) =
      (case handle_lock_action L B action (f_cmd f) E now a of (out, a) \<Rightarrow> (out, a, ps, flash))"
    using c by (auto simp: dispatch_frame_def wire_request_def frame_of_def)
  obtain rc a1 where r: "nuki_app_lock_action L B action E a = (rc, a1)" by fastforce
  have o: "out = [NUKI_UART_FRAME_SOF_RESP, f_cmd f, 21] @ state_image (state_report rc now (view stored a' flash' b))" "a1 = a'"
    using d unfolding h lock_image [OF r, of "f_cmd f" now stored flash b] by (auto simp: lock_image [OF r, of "f_cmd f" now stored flash b])
  then show ?thesis
    using c w action_bridge(2) [OF B ok r] by (auto simp: answers_def frame_of_def carried_out_def intro!: exI [of _ rc])
qed

lemma dispatch_answers:
  assumes B: "byteorder_ok B" and P: "psa_spec P kv X" and S: "settings_ok S stored" and ok: "app_ok a"
    and l: "length (f_payload f) = 32"
    and d: "dispatch_frame L B P S E now f (a, ps, flash) = (out, a', ps', flash')"
  shows "answers now (frame_of f) (ordered_by a a') (view stored a' flash' b) out"
proof -
  have f1: "fst (frame_of f) = f_cmd f" by (simp add: frame_of_def)
  consider "f_cmd f \<in> {NUKI_UART_CMD_LOCK, NUKI_UART_CMD_UNLOCK, NUKI_UART_CMD_UNLATCH}" | "f_cmd f = NUKI_UART_CMD_STATUS"
    | "f_cmd f = NUKI_UART_CMD_STATE" | "f_cmd f = NUKI_UART_CMD_PAIR" | "f_cmd f = NUKI_UART_CMD_CALIBRATE"
    | "f_cmd f \<notin> {NUKI_UART_CMD_LOCK, NUKI_UART_CMD_UNLOCK, NUKI_UART_CMD_UNLATCH, NUKI_UART_CMD_STATUS, NUKI_UART_CMD_STATE,
                    NUKI_UART_CMD_PAIR, NUKI_UART_CMD_CALIBRATE}" by blast
  then show ?thesis
  proof cases
    case 1
    then show ?thesis by (rule dispatch_action_answers [OF B ok l d])
  next
    case 2
    then have "out = handle_status a" "a' = a" using d by (auto simp: dispatch_frame_def)
    then show ?thesis
      using 2 by (cases "nuki_storage_get_pairing (g_storage a)")
        (simp_all add: answers_def f1 handle_status_def send_frame_image nuki_app_is_paired_def Let_def, blast+)
  next
    case 3
    then show ?thesis
      using d by (auto simp: answers_def f1 dispatch_frame_def handle_state_def send_frame_image report_view known_def
          nuki_app_get_cached_state_def fill_state_fields_def resp_state_zero_def Let_def)
  next
    case 4
    then obtain rc where r: "nuki_app_pair L B P S E (a, ps, flash) = (rc, a', ps', flash')" and o: "out = send_simple_response (f_cmd f) rc"
      using d by (auto simp: dispatch_frame_def handle_pair_def split: prod.splits)
    then show ?thesis
      using 4 pair_bridge(2) [OF B P S ok r] by (auto simp: answers_def f1 wire_request_def simple_response intro!: exI [of _ rc])
  next
    case 5
    show ?thesis
    proof (cases "f_len f = 2")
      case True
      define pin where "pin = req_pin (calibrate_overlay (f_payload f))"
      obtain rc where r: "nuki_app_calibrate L B pin E a = (rc, a')" and o: "out = send_simple_response (f_cmd f) rc"
        using d 5 True by (auto simp: dispatch_frame_def handle_calibrate_def pin_def Let_def split: prod.splits)
      have "wire_request (frame_of f) = Calibration pin"
        using 5 True frame_wire_request [OF l] by (simp add: frame_request_def pin_def)
      then show ?thesis
        using 5 o calibrate_bridge(2) [OF B ok r] by (auto simp: answers_def f1 carried_out_def simple_response intro!: exI [of _ rc])
    next
      case False
      then have "wire_request (frame_of f) = Nothing" using 5 frame_wire_request [OF l] by (simp add: frame_request_def)
      moreover have "out = send_simple_response (f_cmd f) (- EINVAL)"
        using d 5 False by (auto simp: dispatch_frame_def handle_calibrate_def)
      ultimately show ?thesis using 5 by (auto simp: answers_def f1 simple_response)
    qed
  next
    case 6
    then have "wire_request (frame_of f) = Nothing" by (simp add: wire_request_def f1)
    moreover have "out = send_simple_response (f_cmd f) (- EINVAL)" using d 6 by (auto simp: dispatch_frame_def)
    ultimately show ?thesis using 6 by (auto simp: answers_def f1 simple_response)
  qed
qed

section \<open>The steps\<close>

text \<open>The label of a step: without an operation the lock says nothing.\<close>

fun act_trigger :: "sys_act \<Rightarrow> trigger" where
  "act_trigger (Interrupt irq_update rx_ready fifo) = Bytes (if irq_update \<and> rx_ready then fifo else [])"
| "act_trigger (Serve E now) = Serving now"
| "act_trigger (Poll E) = Polls"
| "act_trigger (Typed argv E) = Command argv"
| "act_trigger (Host e) = Callback"

definition act_label ::
    "bt_lib \<Rightarrow> byteorder \<Rightarrow> 's psa \<Rightarrow> sys_act \<Rightarrow> ('s, 'f, 'q) sys \<Rightarrow> ('s, 'f, 'q) sys \<Rightarrow> bridge_label" where
  "act_label L B P act s s' =
     Step (act_trigger act)
          (case act_env act of Some E \<Rightarrow> lock_says L B P E (s_app s) (s_psa s) | None \<Rightarrow> \<lparr>w_state = (\<lambda>_ _. False), w_agreed = (\<lambda>_. False)\<rparr>)
          (ordered_by (s_app s) (s_app s'))"

lemma bridge_view [simp]: "view stored (s_app s) (s_flash s) (bridge_of stored items s) = bridge_of stored items s"
  by (simp add: view_def bridge_of_def)

lemma bridge_view_step:
  "s_uart s' = s_uart s \<Longrightarrow> s_bytes s' = s_bytes s \<Longrightarrow> s_queue s' = s_queue s \<Longrightarrow> s_out s' = s_out s \<Longrightarrow>
   bridge_of stored items s' = view stored (s_app s') (s_flash s') (bridge_of stored items s)"
  by (simp add: view_def bridge_of_def)

lemma op_bridge:
  assumes "byteorder_ok B" "psa_spec P kv X" "settings_ok S stored" "world_ok stored (sys_world s)" "act_env act = Some E"
  shows "bridge_op (lock_says L B P E (s_app s) (s_psa s)) (act_request K act s) (ordered_by (s_app s) (s_app (sys_step L B P S K act s)))
     (bridge_of stored items s) (view stored (s_app (sys_step L B P S K act s)) (s_flash (sys_step L B P S K act s)) (bridge_of stored items s))"
  using performs_bridge [OF assms(1-3) _ step_performs [OF assms(5), where L = L and B = B and P = P and S = S and K = K and s = s, symmetric], where b = "bridge_of stored items s"] assms(4)
  by (simp add: world_ok_def)

lemma interrupt_bridge:
  assumes "msgq_ok K items" "serial_ok items s" and s': "s' = sys_step L B P S K (Interrupt u v bs) s"
  shows "bridge_step (act_label L B P (Interrupt u v bs) s s') (bridge_of stored items s) (bridge_of stored items s')"
proof -
  have len: "length (items (s_queue s)) \<le> NUKI_UART_MSGQ_LEN" using assms(2) by (simp add: serial_ok_def)
  consider (heard) "s_uart s" "u" "v" | (no_byte) "s_uart s" "\<not> (u \<and> v)" | (deaf) "\<not> s_uart s" by blast
  then show ?thesis
  proof cases
  case heard
  obtain r new where new: "receive bs (s_rx s) = (r, new)" by fastforce
  note q = interrupt_queue [OF assms(1) len _ new, of L B P S]
  have "bridge_of stored items s' =
      (bridge_of stored items s)\<lparr>b_bytes := s_bytes s @ bs, b_waiting := take 4 (map frame_of (items (s_queue s)) @ map frame_of new)\<rparr>"
    using heard q(1,2) by (simp add: s' bridge_of_def take_map [symmetric] NUKI_UART_MSGQ_LEN_def del: sys_step.simps)
  moreover have "ordered_by (s_app s) (s_app s') = {}" using heard q(1) s' by (simp del: sys_step.simps)
  ultimately show ?thesis
    using receive [where b = "bridge_of stored items s" and bs = bs] new_requests [OF assms(2) new] heard
    by (simp add: act_label_def bridge_of_def del: sys_step.simps)
next
  case no_byte
  then have "s' = s" using s' by (auto simp: serial_cb_def)
  then show ?thesis
    using receive [where b = "bridge_of stored items s" and bs = "[]" and fs = "[]"] no_byte len
    by (auto simp: act_label_def bridge_of_def NUKI_UART_MSGQ_LEN_def)
next
  case deaf
  then have "s' = s" using s' by simp
  then show ?thesis using deaf bridge_step.deaf [where b = "bridge_of stored items s"] by (simp add: act_label_def bridge_of_def)
qed
qed

lemma serve_bridge:
  assumes "byteorder_ok B" "psa_spec P kv X" "settings_ok S stored" "world_ok stored (sys_world s)" "msgq_ok K items" "serial_ok items s"
    and s': "s' = sys_step L B P S K (Serve E now) s"
  shows "bridge_step (act_label L B P (Serve E now) s s') (bridge_of stored items s) (bridge_of stored items s')"
proof (cases "s_uart s \<and> k_msgq_get K (s_queue s) \<noteq> None")
  case True
  then obtain f q where g: "k_msgq_get K (s_queue s) = Some (f, q)" and u: "s_uart s" by auto
  note items = msgq_get [OF assms(5) g]
  have l: "length (f_payload f) = 32" using waiting_payload_length [OF assms(6)] items by simp
  obtain out a' ps' flash' where d: "dispatch_frame L B P S E now f (sys_world s) = (out, a', ps', flash')" by (metis prod_cases4)
  have eq: "s' = s\<lparr>s_app := a', s_psa := ps', s_flash := flash', s_queue := q, s_out := s_out s @ out, s_served := s_served s @ [f]\<rparr>"
    using s' u g d by (simp add: serve_def)
  have ok: "app_ok (s_app s)" using assms(4) by (simp add: world_ok_def)
  let ?b = "bridge_of stored items s"
  have "bridge_op (lock_says L B P E (s_app s) (s_psa s)) (wire_request (frame_of f)) (ordered_by (s_app s) a') ?b (view stored a' flash' ?b)"
    using op_bridge [OF assms(1-4), of "Serve E now" E L K items] g u frame_wire_request [OF l] eq s'
    by (simp add: act_request_def)
  moreover have "answers now (frame_of f) (ordered_by (s_app s) a') (view stored a' flash' ?b) out"
    by (rule dispatch_answers [OF assms(1-3) ok l d])
  moreover have "b_waiting ?b = frame_of f # map frame_of (items q)" by (simp add: bridge_of_def items)
  moreover have "bridge_of stored items s' = (view stored a' flash' ?b)\<lparr>b_waiting := map frame_of (items q), b_out := b_out ?b @ out\<rparr>"
    unfolding eq by (simp add: bridge_of_def view_def)
  moreover have "b_line ?b" using u by (simp add: bridge_of_def)
  ultimately show ?thesis using answer by (simp add: act_label_def eq)
next
  case False
  then have "s' = s" using s' by (auto simp: serve_def split: option.split)
  moreover have "\<not> b_line (bridge_of stored items s) \<or> b_waiting (bridge_of stored items s) = []"
    using False assms(5) by (auto simp: bridge_of_def msgq_ok_def split: option.splits dest: spec [of _ "s_queue s"])
  ultimately show ?thesis using nothing_asked by (simp add: act_label_def)
qed

lemma step_bridge:
  assumes "byteorder_ok B" "psa_spec P kv X" "settings_ok S stored" "world_ok stored (sys_world s)" "msgq_ok K items" "serial_ok items s"
    and s': "s' = sys_step L B P S K act s"
  shows "bridge_step (act_label L B P act s s') (bridge_of stored items s) (bridge_of stored items s')"
proof (cases act)
  case (Interrupt u v bs)
  then show ?thesis using interrupt_bridge [OF assms(5,6)] s' by simp
next
  case (Serve E now)
  then show ?thesis using serve_bridge [OF assms(1-6)] s' by simp
next
  case (Poll E)
  have "bridge_of stored items s' = view stored (s_app s') (s_flash s') (bridge_of stored items s)"
    by (rule bridge_view_step) (simp_all add: s' Poll split: prod.split)
  then show ?thesis
    using op_bridge [OF assms(1-4), of act E L K items] poll s' Poll by (simp add: act_label_def act_request_def del: sys_step.simps)
next
  case (Typed argv E)
  have "bridge_of stored items s' = view stored (s_app s') (s_flash s') (bridge_of stored items s)"
    by (rule bridge_view_step) (simp_all add: s' Typed split: option.split)
  then show ?thesis
    using op_bridge [OF assms(1-4), of act E L K items] typed s' Typed by (simp add: act_label_def act_request_def del: sys_step.simps)
next
  case (Host e)
  have "bridge_of stored items s' = bridge_of stored items s" using s' Host by (simp add: bridge_of_def known_def)
  then show ?thesis using callback s' Host by (simp add: act_label_def)
qed

lemma restart_bridge:
  assumes "settings_ok S stored" "items q0 = []" "main bt_rc P settings_rc S stored (s_flash s) ready cb ps = (rc, Some (a, uart), ps')"
  shows "bridge_of stored items (sys_boot q0 a ps' (s_flash s) uart) = bridge_restart uart (bridge_of stored items s)"
  using assms(2) main_starts [OF assms(3)] settings_load_get [OF assms(1)]
  by (simp add: bridge_of_def bridge_restart_def sys_boot_def known_def app_boot_def)

section \<open>Runs\<close>

text \<open>Runs of a labelled transition system, and what a step-wise simulation gives for them.\<close>

inductive runs :: "('l \<Rightarrow> 'c \<Rightarrow> 'c \<Rightarrow> bool) \<Rightarrow> 'c \<Rightarrow> 'l list \<Rightarrow> 'c \<Rightarrow> bool" for R where
  here: "runs R s [] s"
| further: "runs R s ls s1 \<Longrightarrow> R l s1 s2 \<Longrightarrow> runs R s (ls @ [l]) s2"

locale lts_refinement =
  fixes cstep :: "'l \<Rightarrow> 'c \<Rightarrow> 'c \<Rightarrow> bool" and astep :: "'l \<Rightarrow> 'a \<Rightarrow> 'a \<Rightarrow> bool" and abst :: "'c \<Rightarrow> 'a" and invar :: "'c \<Rightarrow> bool"
  assumes keeps: "invar c \<Longrightarrow> cstep l c c' \<Longrightarrow> invar c'"
    and simulates: "invar c \<Longrightarrow> cstep l c c' \<Longrightarrow> astep l (abst c) (abst c')"
begin

lemma runs_simulate: "runs cstep c ls c' \<Longrightarrow> invar c \<Longrightarrow> invar c' \<and> runs astep (abst c) ls (abst c')"
  by (induction rule: runs.induct) (auto intro: runs.intros keeps simulates)

text \<open>
  Where an observation comes from: if a step of the specification makes an observation only from a source, and some labels clear all
  observations, then what is observed after a run was there at the start or came from a source, and was not cleared since.
\<close>

lemma origin:
  assumes "runs cstep c ls c'" "invar c" "k \<in> obs (abst c')"
    and step: "\<And>l a a' k. astep l a a' \<Longrightarrow> k \<in> obs a' \<Longrightarrow> \<not> clears l \<and> (k \<in> obs a \<or> source l a k)"
  shows "k \<in> obs (abst c) \<or> (\<exists>ls1 l ls2 c1 c2. ls = ls1 @ l # ls2 \<and> runs cstep c ls1 c1 \<and> cstep l c1 c2 \<and> runs cstep c2 ls2 c' \<and>
     source l (abst c1) k \<and> (\<forall>m\<in>set ls2. \<not> clears m))"
  using assms(1-3)
proof (induction rule: runs.induct)
  case (further s ls s1 l s2)
  have "astep l (abst s1) (abst s2)" using simulates further runs_simulate by blast
  from step [OF this further.prems(2)] show ?case
  proof (elim conjE disjE)
    assume "k \<in> obs (abst s1)" "\<not> clears l"
    from further.IH [OF further.prems(1) this(1)] show ?thesis
    proof (elim disjE exE conjE)
      fix ls1 m ls2 c1 c2 assume "ls = ls1 @ m # ls2" "runs cstep s ls1 c1" "cstep m c1 c2" "runs cstep c2 ls2 s1" "source m (abst c1) k"
        "\<forall>m\<in>set ls2. \<not> clears m"
      then show ?thesis
        using further.hyps(2) \<open>\<not> clears l\<close> runs.further
        by (intro disjI2 exI [of _ ls1] exI [of _ m] exI [of _ "ls2 @ [l]"] exI [of _ c1] exI [of _ c2]) auto
    qed simp
  next
    assume "source l (abst s1) k"
    then show ?thesis
      using further.hyps runs.here
      by (intro disjI2 exI [of _ ls] exI [of _ l] exI [of _ "[]"] exI [of _ s1] exI [of _ s2]) auto
  qed
qed simp

end

text \<open>The firmware as such a system: the steps of the machine, and restarts.\<close>

inductive fw_step ::
    "bt_lib \<Rightarrow> byteorder \<Rightarrow> 's psa \<Rightarrow> 'f settings \<Rightarrow> ('f \<Rightarrow> string \<Rightarrow> nuki_pairing_data option) \<Rightarrow> 'q msgq \<Rightarrow> 'q
     \<Rightarrow> bridge_label \<Rightarrow> ('s, 'f, 'q) sys \<Rightarrow> ('s, 'f, 'q) sys \<Rightarrow> bool" for L B P S stored K q0 where
  act: "s' = sys_step L B P S K act s \<Longrightarrow> fw_step L B P S stored K q0 (act_label L B P act s s') s s'"
| reboot: "main bt_rc P settings_rc S stored (s_flash s) ready cb ps = (rc, Some (a, uart), ps') \<Longrightarrow>
    fw_step L B P S stored K q0 (Restart uart) s (sys_boot q0 a ps' (s_flash s) uart)"

definition fw_ok ::
    "bt_lib \<Rightarrow> byteorder \<Rightarrow> 's psa \<Rightarrow> 'f settings \<Rightarrow> ('f \<Rightarrow> string \<Rightarrow> nuki_pairing_data option) \<Rightarrow> 'q msgq \<Rightarrow> 'q
     \<Rightarrow> ('q \<Rightarrow> rx_frame list) \<Rightarrow> ('s, 'f, 'q) sys \<Rightarrow> bool" where
  "fw_ok L B P S stored K q0 items s \<longleftrightarrow>
     byteorder_ok B \<and> (\<exists>kv X. psa_spec P kv X) \<and> settings_ok S stored \<and> msgq_ok K items \<and> items q0 = [] \<and> reach L B P S stored K q0 s"

interpretation fw: lts_refinement "fw_step L B P S stored K q0" bridge_step "bridge_of stored items" "fw_ok L B P S stored K q0 items"
  for L B P S stored K q0 items
proof
  fix c l c' assume ok: "fw_ok L B P S stored K q0 items c" and st: "fw_step L B P S stored K q0 l c c'"
  have r: "world_ok stored (sys_world c) \<and> serial_ok items c" using ok reach_ok [of S stored K items q0 L B P c] by (auto simp: fw_ok_def)
  from st show "fw_ok L B P S stored K q0 items c'"
    by cases (use ok in \<open>auto simp: fw_ok_def simp del: sys_step.simps intro: reach.step reach.restart\<close>)
  from st show "bridge_step l (bridge_of stored items c) (bridge_of stored items c')"
  proof cases
    case (act act)
    then show ?thesis using ok r step_bridge by (fastforce simp: fw_ok_def simp del: sys_step.simps)
  next
    case (reboot bt_rc settings_rc ready cb ps rc a uart ps')
    then show ?thesis using ok restart_bridge [of S stored items q0] bridge_step.restart by (fastforce simp: fw_ok_def)
  qed
qed

section \<open>Orders and origins\<close>

inductive_cases bridge_op_elims: "bridge_op W req xs b b'"
inductive_cases bridge_step_elims: "bridge_step l b b'"

text \<open>The specification orders nothing but what its trigger asks for: the first waiting request, or the command that is typed.\<close>

definition asked :: "trigger \<Rightarrow> bridge \<Rightarrow> order set" where
  "asked t b =
     (case t of
        Serving now \<Rightarrow> (if b_line b then (case b_waiting b of [] \<Rightarrow> {} | f # fs \<Rightarrow> set_option (request_order (wire_request f))) else {})
      | Command argv \<Rightarrow> set_option (request_order (typed_request argv))
      | _ \<Rightarrow> {})"

lemma op_asked: "bridge_op W req xs b b' \<Longrightarrow> xs \<subseteq> set_option (request_order req)"
  by (erule bridge_op_elims) auto

lemma step_asked: "bridge_step (Step t W xs) b b' \<Longrightarrow> xs \<subseteq> asked t b"
  by (erule bridge_step_elims) (auto simp: asked_def dest: op_asked)

text \<open>The known state of the lock comes from its word under the key of the pairing, and is forgotten at a restart.\<close>

definition told :: "bridge_label \<Rightarrow> bridge \<Rightarrow> nuki_keyturner_state \<times> int \<Rightarrow> bool" where
  "told l b k \<longleftrightarrow> (\<exists>tr W xs p. l = Step tr W xs \<and> b_paired b = Some p \<and> w_state W (shared_key p) k)"

lemma op_known: "bridge_op W req xs b b' \<Longrightarrow> b_known b' = Some k \<Longrightarrow> b_known b = Some k \<or> (\<exists>p. b_paired b = Some p \<and> w_state W (shared_key p) k)"
  by (erule bridge_op_elims) auto

lemma step_known:
  "bridge_step l b b' \<Longrightarrow> k \<in> set_option (b_known b') \<Longrightarrow> \<not> (\<exists>line. l = Restart line) \<and> (k \<in> set_option (b_known b) \<or> told l b k)"
  by (erule bridge_step_elims) (auto simp: told_def bridge_restart_def dest: op_known)

text \<open>A pairing comes from an agreement.\<close>

definition pairings :: "bridge \<Rightarrow> nuki_pairing_data set" where
  "pairings b = set_option (b_paired b) \<union> set_option (b_saved b)"

definition agreed :: "bridge_label \<Rightarrow> bridge \<Rightarrow> nuki_pairing_data \<Rightarrow> bool" where
  "agreed l b d \<longleftrightarrow> (\<exists>tr W xs. l = Step tr W xs \<and> w_agreed W d)"

lemma op_pairings: "bridge_op W req xs b b' \<Longrightarrow> d \<in> pairings b' \<Longrightarrow> d \<in> pairings b \<or> w_agreed W d"
  by (erule bridge_op_elims) (auto simp: pairings_def)

lemma step_pairings: "bridge_step l b b' \<Longrightarrow> d \<in> pairings b' \<Longrightarrow> d \<in> pairings b \<or> agreed l b d"
  by (erule bridge_step_elims) (auto simp: agreed_def bridge_restart_def pairings_def dest: op_pairings [unfolded pairings_def])

section \<open>An example\<close>

text \<open>The paired bridge polls, and the lock answers with its state.\<close>

definition demo_state :: bytes where
  "demo_state = [2, 3, 0, 0xE8, 7, 1, 2, 3, 4, 5, 60, 0, 100]"

abbreviation demo_fw ::
    "bridge_label \<Rightarrow> (bytes option list, (string \<times> nuki_pairing_data) list, rx_frame list) sys
     \<Rightarrow> (bytes option list, (string \<times> nuki_pairing_data) list, rx_frame list) sys \<Rightarrow> bool" where
  "demo_fw \<equiv> fw_step demo_lib le_byteorder demo_psa demo_settings map_of demo_msgq []"

abbreviation demo_step :: "sys_act \<Rightarrow> (bytes option list, (string \<times> nuki_pairing_data) list, rx_frame list) sys
     \<Rightarrow> (bytes option list, (string \<times> nuki_pairing_data) list, rx_frame list) sys" where
  "demo_step \<equiv> sys_step demo_lib le_byteorder demo_psa demo_settings demo_msgq"

lemma demo_state_wires: "\<exists>ws. wires (shared_key (pairing demo_storage)) [(NUKI_CMD_KEYTURNER_STATES, demo_state)] ws"
  by (rule wires_exist) (simp_all add: demo_storage_def demo_state_def)

lemma demo_sys_app: "s_app demo_sys = app_boot demo_storage" "s_flash demo_sys = demo_flash"
  by (simp_all add: demo_sys_def sys_boot_def)

lemma singleton_append: "[x] = xs @ y # ys \<Longrightarrow> xs = []"
  by (cases xs) simp_all

lemma demo_run:
  "runs demo_fw demo_sys [act_label demo_lib le_byteorder demo_psa act demo_sys (demo_step act demo_sys)] (demo_step act demo_sys)"
proof -
  have "runs demo_fw demo_sys ([] @ [act_label demo_lib le_byteorder demo_psa act demo_sys (demo_step act demo_sys)]) (demo_step act demo_sys)"
    by (rule runs.further [OF runs.here]) (rule fw_step.act [OF refl])
  then show ?thesis by (simp only: append_Nil)
qed

lemma demo_poll: "\<exists>ws. g_cache_valid (s_app (demo_step (Poll (demo_env ws)) demo_sys))"
proof -
  obtain ws where ws: "wires (shared_key (pairing demo_storage)) [(NUKI_CMD_KEYTURNER_STATES, demo_state)] ws" using demo_state_wires by blast
  note E = demo_in_range [of ws]
  obtain st where st: "nuki_keyturner_state_parse le_byteorder demo_state = Inr st"
    by (simp add: nuki_keyturner_state_parse_def demo_state_def)
  obtain a' where "state_poll_round demo_lib le_byteorder (demo_env ws) (app_boot demo_storage) = (STATE_POLL_INTERVAL_SEC, a')"
    "cached st (uptime (demo_env ws)) a'"
    using poll_live [OF demo_lib_ok le_byteorder_ok app_ok_boot [OF demo_storage_ok] demo_down demo_paired E(1-5) demo_write_ok ws E(6) st] by blast
  then show ?thesis by (intro exI [of _ ws]) (simp add: demo_sys_app cached_def)
qed

text \<open>A complete pairing: the example lock is found, its two services are discovered and it follows the handshake.\<close>

definition demo_pair_env :: env where
  "demo_pair_env = (demo_env demo_answers)\<lparr>connect_events :=
     [Device_found (replicate 7 1) [] 0 0 7, Connected 7 0 0, Gdio_discovered 7 (\<lambda>_. Some (3, Some 4)) 0 0,
      Usdio_discovered 7 (\<lambda>_. Some (3, Some 4)) 0]\<rparr>"

lemma demo_pair_connect:
  "\<exists>a1. connect_to_lock demo_lib True demo_pair_env (app_boot demo_storage\<lparr>g_op_lock := True\<rparr>) = (0, a1) \<and> g_gdio_ready a1 \<and>
     io_idle (session_io demo_pair_env (g_gdio a1))"
  by (simp add: connect_to_lock_def demo_pair_env_def demo_env_def app_boot_def device_found_def connected_def start_discovery_def
      gdio_discovered_def usdio_discovered_def discover_keyturner_service_def finish_connect_attempt_def nuki_transport_init_def host_def
      demo_storage_def nuki_storage_get_pairing_def session_io_def io_idle_def tr_ok_def demo_lib_def Let_def)

lemma demo_pair_run:
  "host_run demo_lib Down (attempt True (app_boot demo_storage\<lparr>g_op_lock := True\<rparr>)) (connect_events demo_pair_env) (Up 7 Quiet)"
proof -
  let ?a = "attempt True (app_boot demo_storage\<lparr>g_op_lock := True\<rparr>)" and ?e = "Device_found (replicate 7 1) [] 0 0 7"
  have "host_step demo_lib Down ?a ?e (Pending 7)"
    by (rule host_step.created) (simp add: demo_asks app_boot_def)
  moreover have "host_step demo_lib (Pending 7) b (Connected 7 0 0) (Up 7 Dm_pairing)" if "g_need_gdio b" for b
    using host_step.established [of demo_lib 7 b 0] that by simp
  moreover have "host_step demo_lib (Up 7 Dm_pairing) b (Gdio_discovered 7 dm 0 0) (Up 7 Dm_keyturner)" for b dm
    using host_step.pairing [of demo_lib 7 b dm 0 0] by simp
  moreover have "host_step demo_lib (Up 7 Dm_keyturner) b (Usdio_discovered 7 dm 0) (Up 7 Quiet)" for b dm
    by (rule host_step.keyturner)
  ultimately show ?thesis
    unfolding demo_pair_env_def demo_env_def env.simps
    by (elim host_run.more) (simp only: host_run_simps, metis bt_handle_frame(4) attempt_simps(5))
qed

lemma demo_pair_quiet: "op_events demo_pair_env = []"
  by (simp add: demo_pair_env_def demo_env_def)

lemma demo_pair:
  "\<exists>a' ps' flash' d. nuki_app_pair demo_lib le_byteorder demo_psa demo_settings demo_pair_env (app_boot demo_storage, [], flash) = (0, a', ps', flash') \<and>
     nuki_storage_get_pairing (g_storage a') = Some d \<and> auth_id d = 77"
proof -
  obtain a1 where c: "connect_to_lock demo_lib True demo_pair_env (app_boot demo_storage\<lparr>g_op_lock := True\<rparr>) = (0, a1)" "g_gdio_ready a1"
    "io_idle (session_io demo_pair_env (g_gdio a1))" using demo_pair_connect by blast
  let ?s = "session_io demo_pair_env (g_gdio a1)"
  have w: "write_script ?s = [demo_write, demo_write, demo_write, demo_write, demo_write] @ [demo_write, demo_write, demo_write]"
    by (simp add: session_io_def demo_pair_env_def demo_env_def numeral_eq_Suc)
  have n: "map of_nat [4..<36] = map (rnd ?s) [rnd_pos ?s + 4..<rnd_pos ?s + 36]"
    by (simp add: session_io_def demo_pair_env_def demo_env_def del: upt_rec_numeral)
  have dl: "delivers demo_answers (inbound ?s)"
    using delivers_bursts [of demo_answers] by (simp add: session_io_def demo_pair_env_def demo_env_def)
  obtain d s' ps' where "nuki_pairing_run le_byteorder demo_psa (?s, []) = (Inr d, (s', ps'))" "auth_id d = 77"
    using pairing_with_honest_lock [OF le_byteorder_ok demo_psa_works demo_keypair c(3) w demo_writes(2) demo_writes(2)
        demo_writes(2) demo_writes(2) demo_writes(2) demo_key_def n demo_lengths dl [unfolded demo_answers_def]] by blast
  then show ?thesis
    using c by (simp add: nuki_app_pair_def pair_locked_def nuki_storage_save_pairing_def nuki_storage_get_pairing_def demo_settings_def Let_def)
qed

section \<open>Properties\<close>

text \<open>
  C3: the firmware implements the specification of the bridge: in every reachable state, whatever happens next, the step is one that the specification
  allows for its trigger, with exactly the orders that were put on the air under the key of the pairing. So the orders of a step are at most the one asked for
  by the first waiting request, when the UART thread serves it, or by the very command that is typed in this step, and none in a step of the poller, an
  interrupt or a callback; the answer reports the known state and promises nothing that was not done; the known state and the pairing change only on the
  word of the lock, the pairing with the address of the peer of the connection. A restart leaves only what was saved.
\<close>

theorem firmware_refines_bridge:
  assumes "byteorder_ok B" "psa_spec P kv X" "settings_ok S stored" "msgq_ok K items" "items q0 = []" "reach L B P S stored K q0 s"
  shows "bridge_step (act_label L B P act s (sys_step L B P S K act s)) (bridge_of stored items s) (bridge_of stored items (sys_step L B P S K act s)) \<and>
     ordered_by (s_app s) (s_app (sys_step L B P S K act s)) \<subseteq> asked (act_trigger act) (bridge_of stored items s) \<and>
     (main bt_rc P settings_rc S stored (s_flash s) ready cb ps = (rc, Some (a, uart), ps') \<longrightarrow>
      bridge_of stored items (sys_boot q0 a ps' (s_flash s) uart) = bridge_restart uart (bridge_of stored items s))"
proof -
  have "fw_ok L B P S stored K q0 items s" unfolding fw_ok_def using assms by blast
  note st = fw.simulates [OF this fw_step.act [OF refl]]
  show ?thesis
    by (intro conjI impI restart_bridge [where items = items, OF assms(3,5)] st step_asked [OF st [unfolded act_label_def]])
qed

theorem firmware_refines_bridge_witness:
  "bridge_step (act_label demo_lib le_byteorder demo_psa (Serve (demo_env []) 0) demo_asked (demo_step (Serve (demo_env []) 0) demo_asked))
     (bridge_of map_of (\<lambda>q. q) demo_asked) (bridge_of map_of (\<lambda>q. q) (demo_step (Serve (demo_env []) 0) demo_asked)) \<and>
   bridge_of map_of (\<lambda>q. q) demo_sys = bridge_restart True (bridge_of map_of (\<lambda>q. q) demo_sys)"
proof -
  have m: "main 0 demo_psa 0 demo_settings map_of (s_flash demo_sys) True 0 [] =
      (0, Some (app_boot demo_storage, True), snd (nuki_crypto_init demo_psa []))" using demo_boot(2) by (simp only: demo_sys_app)
  have "sys_boot [] (app_boot demo_storage) (snd (nuki_crypto_init demo_psa [])) (s_flash demo_sys) True = demo_sys"
    by (simp only: demo_sys_app) (simp only: demo_sys_def)
  then have "bridge_of map_of (\<lambda>q. q) demo_sys = bridge_restart True (bridge_of map_of (\<lambda>q. q) demo_sys)"
    using firmware_refines_bridge [OF le_byteorder_ok demo_psa_ok demo_settings_ok demo_msgq_ok refl demo_sys_reach, THEN conjunct2, THEN conjunct2,
        rule_format, OF m] by (simp only:)
  then show ?thesis
    by (rule conjI [OF firmware_refines_bridge [OF le_byteorder_ok demo_psa_ok demo_settings_ok demo_msgq_ok refl demo_asked_reach, THEN conjunct1]])
qed

text \<open>
  C4: what the bridge reports as the state of the lock, the lock said: in every run from a reachable state without a cached state, through any operations, interrupts and
  restarts, a valid cached state was decoded from a state message that was sealed under the key of the pairing and received in an operation of
  this run, at the time given with it, and since the last restart.
\<close>

theorem reported_state_authentic:
  assumes "byteorder_ok B" "psa_spec P kv X" "settings_ok S stored" "msgq_ok K items" "items q0 = []" "reach L B P S stored K q0 s0"
    and "\<not> g_cache_valid (s_app s0)" "runs (fw_step L B P S stored K q0) s0 ls s" "g_cache_valid (s_app s)"
  shows "\<exists>ls1 act ls2 s1 E p q. ls = ls1 @ act_label L B P act s1 (sys_step L B P S K act s1) # ls2 \<and> (\<forall>line. Restart line \<notin> set ls2) \<and>
     runs (fw_step L B P S stored K q0) s0 ls1 s1 \<and> runs (fw_step L B P S stored K q0) (sys_step L B P S K act s1) ls2 s \<and>
     act_env act = Some E \<and> nuki_storage_get_pairing (g_storage (s_app s1)) = Some p \<and>
     got_during (shared_key p) (lock_inbound E) NUKI_CMD_KEYTURNER_STATES q \<and>
     nuki_keyturner_state_parse B q = Inr (g_cached_state (s_app s)) \<and> g_cache_uptime_ms (s_app s) = uptime E"
proof -
  let ?k = "(g_cached_state (s_app s), g_cache_uptime_ms (s_app s))"
  have ok: "fw_ok L B P S stored K q0 items s0" using assms by (auto simp: fw_ok_def)
  have k: "?k \<in> set_option (b_known (bridge_of stored items s))" "?k \<notin> set_option (b_known (bridge_of stored items s0))"
    using assms(7,9) by (simp_all add: bridge_of_def known_def)
  have "?k \<in> set_option (b_known (bridge_of stored items s0)) \<or> (\<exists>ls1 l ls2 s1 s2. ls = ls1 @ l # ls2 \<and> runs (fw_step L B P S stored K q0) s0 ls1 s1 \<and>
      fw_step L B P S stored K q0 l s1 s2 \<and> runs (fw_step L B P S stored K q0) s2 ls2 s \<and> told l (bridge_of stored items s1) ?k \<and>
      (\<forall>m\<in>set ls2. \<not> (\<exists>line. m = Restart line)))"
    by (rule fw.origin [where obs = "\<lambda>b. set_option (b_known b)", OF assms(8) ok k(1)]) (erule (1) step_known)
  with k(2) obtain ls1 l ls2 s1 s2 where o: "ls = ls1 @ l # ls2" "runs (fw_step L B P S stored K q0) s0 ls1 s1" "fw_step L B P S stored K q0 l s1 s2"
    "told l (bridge_of stored items s1) ?k" "\<forall>m\<in>set ls2. \<not> (\<exists>line. m = Restart line)" "runs (fw_step L B P S stored K q0) s2 ls2 s" by blast
  from o(3) show ?thesis
  proof cases
    case (act act)
    then obtain E p where "act_env act = Some E" "nuki_storage_get_pairing (g_storage (s_app s1)) = Some p"
      "w_state (lock_says L B P E (s_app s1) (s_psa s1)) (shared_key p) ?k"
      using o(4) by (auto simp: told_def act_label_def bridge_of_def split: option.splits)
    moreover from this(3) obtain q where "nuki_keyturner_state_parse B q = Inr (g_cached_state (s_app s))" "g_cache_uptime_ms (s_app s) = uptime E"
      "got_during (shared_key p) (lock_inbound E) NUKI_CMD_KEYTURNER_STATES q" by (auto simp: lock_says_def)
    ultimately show ?thesis
      using o(1,2,5,6) act
      by (intro exI [of _ ls1] exI [of _ act] exI [of _ ls2] exI [of _ s1] exI [of _ E] exI [of _ p] exI [of _ q] conjI)
        (auto simp del: sys_step.simps)
  qed (use o(4) in \<open>simp add: told_def\<close>)
qed

theorem reported_state_authentic_witness:
  "\<exists>ws s (E :: env) q. s = demo_step (Poll (demo_env ws)) demo_sys \<and> g_cache_valid (s_app s) \<and>
     got_during (shared_key (pairing demo_storage)) (lock_inbound E) NUKI_CMD_KEYTURNER_STATES q \<and>
     nuki_keyturner_state_parse le_byteorder q = Inr (g_cached_state (s_app s))"
proof -
  obtain ws where v: "g_cache_valid (s_app (demo_step (Poll (demo_env ws)) demo_sys))" using demo_poll by blast
  have n: "\<not> g_cache_valid (s_app demo_sys)" by (simp add: demo_sys_app app_boot_def)
  from reported_state_authentic [OF le_byteorder_ok demo_psa_ok demo_settings_ok demo_msgq_ok refl demo_sys_reach n demo_run v]
  show ?thesis
  proof (elim exE conjE)
    fix ls1 act ls2 s1 p q and E :: env
    assume h: "[act_label demo_lib le_byteorder demo_psa (Poll (demo_env ws)) demo_sys (demo_step (Poll (demo_env ws)) demo_sys)] =
        ls1 @ act_label demo_lib le_byteorder demo_psa act s1 (demo_step act s1) # ls2"
      "runs demo_fw demo_sys ls1 s1" "nuki_storage_get_pairing (g_storage (s_app s1)) = Some p"
      "got_during (shared_key p) (lock_inbound E) NUKI_CMD_KEYTURNER_STATES q"
      "nuki_keyturner_state_parse le_byteorder q = Inr (g_cached_state (s_app (demo_step (Poll (demo_env ws)) demo_sys)))"
    have "ls1 = []" by (rule singleton_append [OF h(1)])
    then have "s1 = demo_sys" using h(2) by (auto elim: runs.cases)
    then have "p = pairing demo_storage" using h(3) demo_paired by (simp add: demo_sys_app)
    then show ?thesis using v h(4,5) by (intro exI [of _ ws] exI [of _ "demo_step (Poll (demo_env ws)) demo_sys"] exI [of _ E] exI [of _ q] conjI refl)
        (simp_all only:)
  qed
qed

text \<open>
  C13: nobody is paired behind the owner's back: in every run, through any operations, interrupts and restarts, a pairing in RAM or in flash that was not there
  at the start is the result of a handshake that completed in an operation of this run, with the address of the peer of the connection that the module holds when the handshake returns.
\<close>

theorem pairing_authentic:
  assumes "byteorder_ok B" "psa_spec P kv X" "settings_ok S stored" "msgq_ok K items" "items q0 = []" "reach L B P S stored K q0 s0"
    and "runs (fw_step L B P S stored K q0) s0 ls s"
    and "nuki_storage_get_pairing (g_storage (s_app s)) = Some d \<or> stored (s_flash s) ''nuki/pairing'' = Some d"
    and "nuki_storage_get_pairing (g_storage (s_app s0)) \<noteq> Some d" "stored (s_flash s0) ''nuki/pairing'' \<noteq> Some d"
  shows "\<exists>ls1 act ls2 s1 E. ls = ls1 @ act_label L B P act s1 (sys_step L B P S K act s1) # ls2 \<and>
     runs (fw_step L B P S stored K q0) s0 ls1 s1 \<and> runs (fw_step L B P S stored K q0) (sys_step L B P S K act s1) ls2 s \<and>
     act_env act = Some E \<and> handshake L B P E (s_app s1) (s_psa s1) d"
proof -
  have ok: "fw_ok L B P S stored K q0 items s0" unfolding fw_ok_def using assms by blast
  have k: "d \<in> pairings (bridge_of stored items s)" "d \<notin> pairings (bridge_of stored items s0)"
    using assms(8-10) by (auto simp: bridge_of_def pairings_def)
  have "d \<in> pairings (bridge_of stored items s0) \<or> (\<exists>ls1 l ls2 s1 s2. ls = ls1 @ l # ls2 \<and> runs (fw_step L B P S stored K q0) s0 ls1 s1 \<and>
      fw_step L B P S stored K q0 l s1 s2 \<and> runs (fw_step L B P S stored K q0) s2 ls2 s \<and> agreed l (bridge_of stored items s1) d \<and>
      (\<forall>m\<in>set ls2. \<not> False))"
    by (rule fw.origin [where obs = pairings, OF assms(7) ok k(1)]) (simp add: step_pairings)
  with k(2) obtain ls1 l ls2 s1 s2 where o: "ls = ls1 @ l # ls2" "runs (fw_step L B P S stored K q0) s0 ls1 s1" "fw_step L B P S stored K q0 l s1 s2"
    "agreed l (bridge_of stored items s1) d" "runs (fw_step L B P S stored K q0) s2 ls2 s" by blast
  from o(3) show ?thesis
  proof cases
    case (act act)
    then obtain E where "act_env act = Some E" "handshake L B P E (s_app s1) (s_psa s1) d"
      using o(4) by (auto simp: agreed_def act_label_def lock_says_def split: option.splits)
    then show ?thesis
      using o(1,2,5) act
      by (intro exI [of _ ls1] exI [of _ act] exI [of _ ls2] exI [of _ s1] exI [of _ E] conjI) (auto simp del: sys_step.simps)
  qed (use o(4) in \<open>simp add: agreed_def\<close>)
qed

theorem pairing_authentic_witness:
  "\<exists>s (E :: env) d. s = demo_step (Typed [''pair''] demo_pair_env) demo_sys \<and> handshake demo_lib le_byteorder demo_psa E (app_boot demo_storage) [] d \<and>
     nuki_storage_get_pairing (g_storage (s_app s)) = Some d"
proof -
  let ?s = "demo_step (Typed [''pair''] demo_pair_env) demo_sys"
  obtain a' ps' flash' d where p: "nuki_app_pair demo_lib le_byteorder demo_psa demo_settings demo_pair_env (app_boot demo_storage, [], demo_flash)
      = (0, a', ps', flash')" "nuki_storage_get_pairing (g_storage a') = Some d" "auth_id d = 77" using demo_pair by blast
  have w: "sys_world demo_sys = (app_boot demo_storage, [], demo_flash)" by (simp add: demo_sys_def sys_boot_def demo_keypair)
  have "sys_world ?s = performs demo_lib le_byteorder demo_psa demo_settings demo_pair_env Pairing (sys_world demo_sys)"
    using step_performs [of "Typed [''pair''] demo_pair_env" demo_pair_env demo_lib le_byteorder demo_psa demo_settings demo_msgq demo_sys]
    by (simp add: act_request_def typed_request_def del: sys_step.simps performs.simps)
  then have "s_app ?s = a'" unfolding w by (simp add: p(1) del: sys_step.simps)
  then have d: "nuki_storage_get_pairing (g_storage (s_app ?s)) = Some d \<or> map_of (s_flash ?s) ''nuki/pairing'' = Some d" using p(2) by simp
  have n: "nuki_storage_get_pairing (g_storage (s_app demo_sys)) \<noteq> Some d" "map_of (s_flash demo_sys) ''nuki/pairing'' \<noteq> Some d"
    using p(3) demo_paired by (auto simp: demo_sys_app demo_storage_def)
  from pairing_authentic [OF le_byteorder_ok demo_psa_ok demo_settings_ok demo_msgq_ok refl demo_sys_reach demo_run d n]
  show ?thesis
  proof (elim exE conjE)
    fix ls1 act ls2 s1 and E :: env
    assume h: "[act_label demo_lib le_byteorder demo_psa (Typed [''pair''] demo_pair_env) demo_sys ?s] =
        ls1 @ act_label demo_lib le_byteorder demo_psa act s1 (demo_step act s1) # ls2"
      "runs demo_fw demo_sys ls1 s1" "handshake demo_lib le_byteorder demo_psa E (s_app s1) (s_psa s1) d"
    have "ls1 = []" by (rule singleton_append [OF h(1)])
    then have "s_psa s1 = []" "s_app s1 = app_boot demo_storage" using h(2) w by (auto elim: runs.cases)
    then show ?thesis using h(3) p(2) \<open>s_app ?s = a'\<close>
      by (intro exI [of _ ?s] exI [of _ E] exI [of _ d] conjI refl) (simp_all del: sys_step.simps)
  qed
qed

text \<open>
  C12: the known state follows the lock: in every reachable state of a paired bridge in which the link is down, if the lock is in range, connects and answers
  with a state message, then one poll stores the decoded state with the time of its arrival, gives the link back and waits the full interval; and a STATE
  request is then answered with the fields of this state and its age.
\<close>

theorem poll_refreshes_state:
  assumes "settings_ok S stored" "msgq_ok K items" "items q0 = []" "reach L B P S stored K q0 s" "bt_lib_ok L" "byteorder_ok B"
    and "conn_inv Down (s_app s)" "nuki_storage_get_pairing (g_storage (s_app s)) = Some p"
    and "scan_rc E = 0" "in_range L p c (connect_events E)" "op_events E = []" "disconnect_events E = [Disconnected c]"
    and "lock_writes E = o1 # os" "write_ok o1"
    and "wires (shared_key p) [(NUKI_CMD_KEYTURNER_STATES, q)] ws" "delivers ws (lock_inbound E)" "nuki_keyturner_state_parse B q = Inr st"
  shows "let a = s_app (sys_step L B P S K (Poll E) s) in
     cached st (uptime E) a \<and> conn_inv Down a \<and> g_state_poll_retries a = 0 \<and> fst (state_poll_round L B E (s_app s)) = 900 \<and>
     decode_state (drop 3 (handle_state now a)) = fill_state_fields resp_state_zero st (word_of_int ((now - uptime E) sdiv 1000))"
proof -
  have ok: "app_ok (s_app s)" using reach_ok [OF assms(1-4)] by (simp add: world_ok_def)
  obtain a where a: "state_poll_round L B E (s_app s) = (900, a)" "cached st (uptime E) a" "conn_inv Down a" "g_state_poll_retries a = 0"
    using poll_live [OF assms(5,6) ok assms(7-17)] by auto
  have "s_app (sys_step L B P S K (Poll E) s) = a" by (simp add: a(1))
  moreover have "decode_state (drop 3 (handle_state now a)) = fill_state_fields resp_state_zero st (word_of_int ((now - uptime E) sdiv 1000))"
    using a(2) by (simp add: handle_state_def nuki_app_get_cached_state_def cached_def send_frame_image fill_state_fields_def resp_state_zero_def)
  ultimately show ?thesis using a by (simp add: Let_def)
qed

theorem poll_refreshes_state_witness:
  "\<exists>ws st. nuki_keyturner_state_parse le_byteorder demo_state = Inr st \<and> battery_percent st = 50 \<and>
     cached st (uptime (demo_env ws)) (s_app (demo_step (Poll (demo_env ws)) demo_sys))"
proof -
  obtain ws where ws: "wires (shared_key (pairing demo_storage)) [(NUKI_CMD_KEYTURNER_STATES, demo_state)] ws" using demo_state_wires by blast
  note E = demo_in_range [of ws]
  obtain st where st: "nuki_keyturner_state_parse le_byteorder demo_state = Inr st" "battery_percent st = 50"
    by (simp add: nuki_keyturner_state_parse_def demo_state_def)
  have a: "conn_inv Down (s_app demo_sys)" "nuki_storage_get_pairing (g_storage (s_app demo_sys)) = Some (pairing demo_storage)"
    using demo_down demo_paired by (simp_all add: demo_sys_app)
  from poll_refreshes_state [OF demo_settings_ok demo_msgq_ok refl demo_sys_reach demo_lib_ok le_byteorder_ok a E(1-5) demo_write_ok ws E(6) st(1)]
  show ?thesis using st by (auto simp: Let_def simp del: sys_step.simps)
qed

end
