(* ===== verification/Nuki_Vectors.thy ===== *)
theory Nuki_Vectors
  imports Nuki_Command
begin

unbundle bit_operations_syntax

text \<open>
  The known-answer tests of \<open>src/tests/nuki_crypto/src/test_nuki_crypto.c\<close>, whose vectors come from the Nuki API document, evaluated on the
  model of \<open>nuki_crypto.c\<close> by the kernel; and the documented message as what \<open>nuki_command_get_state\<close> sends.

  The rounds of Salsa20 are evaluated on natural numbers below \<open>2 ^ 32\<close> (\<open>rounds_nat\<close>, shown equal to the rounds on words), which the
  simplifier computes with quickly. \<open>test_hex2bin\<close> and the hexadecimal constants are those of the test file. The
  test of \<open>nuki_crypto_dh1\<close> evaluates X25519, a parameter here, and has no counterpart.
\<close>

section \<open>The rounds of Salsa20 on natural numbers\<close>

definition rot_nat :: "nat \<Rightarrow> nat \<Rightarrow> nat \<Rightarrow> nat" where
  "rot_nat p q s = s * p mod 4294967296 + s div q"

definition mix_nat :: "nat \<Rightarrow> nat \<Rightarrow> nat \<Rightarrow> nat \<Rightarrow> nat \<Rightarrow> nat" where
  "mix_nat p q a b y = y XOR rot_nat p q ((a + b) mod 4294967296)"

lemma rot_nat_word:
  assumes "0 < c" "c < 32" "s < 4294967296"
  shows "(of_nat (rot_nat (2 ^ c) (2 ^ (32 - c)) s) :: u32) = word_rotl c (of_nat s)"
proof -
  let ?w = "of_nat s :: u32"
  have u: "unat ?w = s" using assms(3) by (simp add: unat_of_nat take_bit_eq_mod)
  have "push_bit c ?w AND drop_bit (32 - c) ?w = 0"
    using assms by (intro bit_word_eqI) (auto simp: bit_simps dest: bit_imp_le_length)
  then have "push_bit c ?w OR drop_bit (32 - c) ?w = push_bit c ?w + drop_bit (32 - c) ?w"
    by (simp add: disjunctive_add_eq_or)
  moreover have "push_bit c ?w = of_nat (s * 2 ^ c mod 4294967296)"
  proof -
    have "push_bit c ?w = of_nat (s * 2 ^ c)" by (simp add: push_bit_eq_mult)
    also have "\<dots> = of_nat (s * 2 ^ c mod 4294967296)"
      by (rule word_eq_unatI) (simp only: unat_of_nat take_bit_eq_mod, simp)
    finally show ?thesis .
  qed
  moreover have "drop_bit (32 - c) ?w = of_nat (s div 2 ^ (32 - c))"
  proof (rule word_eq_unatI)
    have "s div 2 ^ (32 - c) < 4294967296" using assms(3) by (rule le_less_trans [OF div_le_dividend])
    then show "unat (drop_bit (32 - c) ?w) = unat (of_nat (s div 2 ^ (32 - c)) :: u32)"
      by (simp only: unat_drop_bit_eq u drop_bit_eq_div [where 'a = nat] unat_of_nat take_bit_eq_mod) (use assms(3) in simp)
  qed
  ultimately show ?thesis using assms(1,2) by (simp add: rot_nat_def rotl32_word_rotl [symmetric] rotl32_def)
qed

lemma mix_nat_word:
  "0 < c \<Longrightarrow> c < 32 \<Longrightarrow> p = 2 ^ c \<Longrightarrow> q = 2 ^ (32 - c) \<Longrightarrow>
   (of_nat (mix_nat p q a b y) :: u32) = of_nat y XOR word_rotl c (of_nat a + of_nat b)"
proof -
  assume c: "0 < c" "c < 32" and pq: "p = 2 ^ c" "q = 2 ^ (32 - c)"
  have "(of_nat ((a + b) mod 4294967296) :: u32) = of_nat a + of_nat b"
    by (rule word_eq_unatI) (simp add: unat_of_nat unat_word_ariths take_bit_eq_mod mod_simps)
  then show ?thesis using rot_nat_word [OF c, of "(a + b) mod 4294967296"] by (simp add: mix_nat_def of_nat_xor_eq pq)
qed

fun quarter4 :: "nat \<Rightarrow> nat \<Rightarrow> nat \<Rightarrow> nat \<Rightarrow> nat \<times> nat \<times> nat \<times> nat" where
  "quarter4 y0 z1 z2 z3 = (mix_nat 262144 16384 z3 z2 y0, z1, z2, z3)"

fun quarter3 :: "nat \<Rightarrow> nat \<Rightarrow> nat \<Rightarrow> nat \<Rightarrow> nat \<times> nat \<times> nat \<times> nat" where
  "quarter3 y0 z1 z2 y3 = quarter4 y0 z1 z2 (mix_nat 8192 524288 z2 z1 y3)"

fun quarter2 :: "nat \<Rightarrow> nat \<Rightarrow> nat \<Rightarrow> nat \<Rightarrow> nat \<times> nat \<times> nat \<times> nat" where
  "quarter2 y0 z1 y2 y3 = quarter3 y0 z1 (mix_nat 512 8388608 z1 y0 y2) y3"

fun quarter_nat :: "nat \<times> nat \<times> nat \<times> nat \<Rightarrow> nat \<times> nat \<times> nat \<times> nat" where
  "quarter_nat (y0, y1, y2, y3) = quarter2 y0 (mix_nat 128 33554432 y0 y3 y1) y2 y3"

lemma quarter_nat_word:
  "quarterround (of_nat a, of_nat b, of_nat c, of_nat d) =
     (case quarter_nat (a, b, c, d) of (z0, z1, z2, z3) \<Rightarrow> (of_nat z0, of_nat z1, of_nat z2, of_nat z3))"
  by (simp add: Let_def mix_nat_word [where c = 7] mix_nat_word [where c = 9] mix_nat_word [where c = 13] mix_nat_word [where c = 18])

fun row_nat :: "nat list \<Rightarrow> nat list" where
  "row_nat [y0, y1, y2, y3, y4, y5, y6, y7, y8, y9, y10, y11, y12, y13, y14, y15] =
     (case quarter_nat (y0, y1, y2, y3) of (z0, z1, z2, z3) \<Rightarrow>
      case quarter_nat (y5, y6, y7, y4) of (z5, z6, z7, z4) \<Rightarrow>
      case quarter_nat (y10, y11, y8, y9) of (z10, z11, z8, z9) \<Rightarrow>
      case quarter_nat (y15, y12, y13, y14) of (z15, z12, z13, z14) \<Rightarrow>
        [z0, z1, z2, z3, z4, z5, z6, z7, z8, z9, z10, z11, z12, z13, z14, z15])"
| "row_nat _ = []"

fun column_nat :: "nat list \<Rightarrow> nat list" where
  "column_nat [x0, x1, x2, x3, x4, x5, x6, x7, x8, x9, x10, x11, x12, x13, x14, x15] =
     (case quarter_nat (x0, x4, x8, x12) of (y0, y4, y8, y12) \<Rightarrow>
      case quarter_nat (x5, x9, x13, x1) of (y5, y9, y13, y1) \<Rightarrow>
      case quarter_nat (x10, x14, x2, x6) of (y10, y14, y2, y6) \<Rightarrow>
      case quarter_nat (x15, x3, x7, x11) of (y15, y3, y7, y11) \<Rightarrow>
        [y0, y1, y2, y3, y4, y5, y6, y7, y8, y9, y10, y11, y12, y13, y14, y15])"
| "column_nat _ = []"

lemma column_nat_word: "length x = 16 \<Longrightarrow> columnround (map of_nat x) = map of_nat (column_nat x)"
  by (erule length_16_cases) (simp add: quarter_nat_word del: quarterround.simps quarter_nat.simps split: prod.splits)

lemma row_nat_word: "length x = 16 \<Longrightarrow> rowround (map of_nat x) = map of_nat (row_nat x)"
  by (erule length_16_cases) (simp add: quarter_nat_word del: quarterround.simps quarter_nat.simps split: prod.splits)

lemma column_nat_length: "length x = 16 \<Longrightarrow> length (column_nat x) = 16"
  by (erule length_16_cases) (simp del: quarter_nat.simps split: prod.splits)

lemma row_nat_length: "length x = 16 \<Longrightarrow> length (row_nat x) = 16"
  by (erule length_16_cases) (simp del: quarter_nat.simps split: prod.splits)

lemma double_nat_word: "length x = 16 \<Longrightarrow> doubleround (map of_nat x) = map of_nat (row_nat (column_nat x))"
  by (simp add: doubleround_def column_nat_word row_nat_word column_nat_length)

fun rounds_nat :: "nat list \<Rightarrow> nat \<Rightarrow> nat list" where
  "rounds_nat x n = (if n = 0 then x else rounds_nat (row_nat (column_nat x)) (n - 1))"

declare rounds_nat.simps [simp del]

lemma rounds_nat_word: "length x = 16 \<Longrightarrow> (doubleround ^^ n) (map of_nat x) = map of_nat (rounds_nat x n)"
proof (induction n arbitrary: x)
  case (Suc n)
  then show ?case
    using Suc.IH [of "row_nat (column_nat x)"] double_nat_word [OF Suc.prems]
    by (simp add: funpow_Suc_right rounds_nat.simps [of x "Suc n"] row_nat_length column_nat_length del: funpow.simps)
qed (simp add: rounds_nat.simps)

lemma rounds_nat_eval [simp]: "rounds_nat x 0 = x"
  "rounds_nat (a # x) (numeral k) = rounds_nat (row_nat (column_nat (a # x))) (pred_numeral k)"
  "rounds_nat (a # x) (Suc j) = rounds_nat (row_nat (column_nat (a # x))) j"
  by (simp_all add: rounds_nat.simps)

lemma rounds_kdf1:
  "rounds_nat
     [1634760805, 1771666859, 4182373771, 1307213998, 3643346196, 857760878, 0, 0, 0, 0, 2036477234, 2244045233, 2099701043, 376383390, 134962235,
     1797285236] 10 =
     [1482773905, 2755434008, 1774484310, 571078304, 1302476399, 1535215229, 1020953576, 4049728646, 2334295099, 71193476, 1490919024, 3887049423,
     2100100365, 1327382789, 3771442696, 4073117721]"
  by (simp add: mix_nat_def rot_nat_def)

lemma rounds_subkey:
  "rounds_nat
     [1634760805, 264994593, 2230503960, 199933417, 2369501332, 857760878, 444567863, 2495946483, 1307772167, 1615877406, 2036477234, 3615393296,
     3688808198, 1277114578, 821541043, 1797285236] 10 =
     [3689134095, 3292638894, 428970488, 4147271928, 2434922396, 2840186577, 2504645046, 613778716, 2505429503, 1243198745, 1868994079,
     3385777380, 3956866178, 3495836523, 4278206886, 1533885755]"
  by (simp add: mix_nat_def rot_nat_def)

lemma rounds_stream:
  "rounds_nat
     [1634760805, 3689134095, 2840186577, 1868994079, 1533885755, 857760878, 2670680957, 3063338215, 0, 0, 2036477234, 2504645046, 613778716,
     2505429503, 1243198745, 1797285236] 10 =
     [4277955226, 4195926685, 4002842299, 3383912378, 3674554526, 3447836216, 3548537600, 822588706, 1504281317, 2098805068, 3017844245,
     3365684092, 2222561491, 771872181, 2972752735, 1250257918]"
  by (simp add: mix_nat_def rot_nat_def)

section \<open>The test vectors\<close>

text \<open>\<open>sscanf\<close> of two hexadecimal digits.\<close>

definition hex_digit :: "char \<Rightarrow> nat" where
  "hex_digit c = (let n = of_char c in if n \<le> 57 then n - 48 else if n \<le> 70 then n - 55 else n - 87)"

definition test_hex2bin :: "string \<Rightarrow> bytes" where
  "test_hex2bin hex =
     (let len = length hex div 2
      in map (\<lambda>i. of_nat (16 * hex_digit (hex ! (2 * i)) + hex_digit (hex ! (2 * i + 1)))) [0..<len])"

lemma test_hex2bin_Nil: "test_hex2bin [] = []"
  by (simp add: test_hex2bin_def)

lemma test_hex2bin_pair: "test_hex2bin (a # b # hex) = of_nat (16 * hex_digit a + hex_digit b) # test_hex2bin hex"
proof -
  have "[0..<Suc (length hex div 2)] = 0 # map Suc [0..<length hex div 2]" by (simp add: upt_conv_Cons map_Suc_upt del: upt_Suc)
  then show ?thesis by (simp add: test_hex2bin_def o_def)
qed

definition DH_RESULT_HEX :: string where "DH_RESULT_HEX = ''AB7D99698BF549F9AE80EA4D140D29D9B169C18533E5267D9E276F163B5C0B08''"
definition KDF1_HEX :: string where "KDF1_HEX = ''915561587D86815B709EDD5819D8C6F2E883DA3C86F461F13B84228B84533E04''"

definition WIRE_HEX :: string where
  "WIRE_HEX = ''37917F1AF31EC5940705F34D1E5550607D5B2F9FE7D496B6'' @ ''020000001A00'' @ ''670D124926004366532E8D927A33FE84E782A9594D39157D065E''"

definition PLAINTEXT_HEX :: string where "PLAINTEXT_HEX = ''0200000001000C00418D''"
definition SHARED_KEY_HEX :: string where "SHARED_KEY_HEX = ''217FCB0F18CAF284E9BDEA0B94B83B8D10867ED706BFDEDBD2381F4CB3B8F730''"

lemmas vector_defs = DH_RESULT_HEX_def KDF1_HEX_def WIRE_HEX_def PLAINTEXT_HEX_def SHARED_KEY_HEX_def

lemma vector_bytes:
  "test_hex2bin DH_RESULT_HEX =
     [171, 125, 153, 105, 139, 245, 73, 249, 174, 128, 234, 77, 20, 13, 41, 217, 177, 105, 193, 133, 51, 229, 38, 125, 158, 39, 111, 22, 59, 92,
     11, 8]"
  "test_hex2bin KDF1_HEX =
     [145, 85, 97, 88, 125, 134, 129, 91, 112, 158, 221, 88, 25, 216, 198, 242, 232, 131, 218, 60, 134, 244, 97, 241, 59, 132, 34, 139, 132, 83,
     62, 4]"
  "test_hex2bin SHARED_KEY_HEX =
     [33, 127, 203, 15, 24, 202, 242, 132, 233, 189, 234, 11, 148, 184, 59, 141, 16, 134, 126, 215, 6, 191, 222, 219, 210, 56, 31, 76, 179, 184,
     247, 48]"
  "test_hex2bin PLAINTEXT_HEX = [2, 0, 0, 0, 1, 0, 12, 0, 65, 141]"
  "test_hex2bin WIRE_HEX =
     [55, 145, 127, 26, 243, 30, 197, 148, 7, 5, 243, 77, 30, 85, 80, 96, 125, 91, 47, 159, 231, 212, 150, 182, 2, 0, 0, 0, 26, 0, 103, 13, 18,
     73, 38, 0, 67, 102, 83, 46, 141, 146, 122, 51, 254, 132, 231, 130, 169, 89, 77, 57, 21, 125, 6, 94]"
  by (simp_all add: vector_defs test_hex2bin_Nil test_hex2bin_pair hex_digit_def)

section \<open>The answers\<close>

definition block_nat :: "bytes \<Rightarrow> bytes \<Rightarrow> nat list" where
  "block_nat k n = map (\<lambda>bs. le_val (take 4 bs))
     [sigma, k, drop 4 k, drop 8 k, drop 12 k, drop 4 sigma, n, drop 4 n, drop 8 n, drop 12 n, drop 8 sigma,
      drop 16 k, drop 20 k, drop 24 k, drop 28 k, drop 12 sigma]"

lemma salsa20_block_nat: "salsa20_block k n = map of_nat (block_nat k n)"
  by (simp add: salsa20_block_def block_nat_def le_word_def)

lemma le32_of_nat: "le32 (of_nat v) = le_enc 4 v"
  using le_enc_mod [of 4 v] by (simp add: le32_def unat_of_nat take_bit_eq_mod)

lemma rounds_nat_length: "length x = 16 \<Longrightarrow> length (rounds_nat x n) = 16"
  using doublerounds_length [of "map of_nat x" n] by (simp add: rounds_nat_word)

lemma hsalsa20_spec_nat:
  assumes "block_nat k n = x" "rounds_nat x 10 = z"
  shows "hsalsa20_spec k n = concat (map (\<lambda>i. le_enc 4 (z ! i)) [0, 5, 10, 15, 6, 7, 8, 9])"
proof -
  have l: "length x = 16" using assms(1) by (auto simp: block_nat_def)
  show ?thesis
    unfolding hsalsa20_spec_def salsa20_block_nat assms(1) rounds_nat_word [OF l] assms(2)
    using rounds_nat_length [OF l, of 10] by (simp add: assms(2) le32_of_nat)
qed

lemma salsa20_spec_nat:
  assumes "block_nat k n = x" "rounds_nat x 10 = z"
  shows "salsa20_spec k n = concat (map2 (\<lambda>a b. le_enc 4 (a + b)) x z)"
proof -
  have l: "length x = 16" using assms(1) by (auto simp: block_nat_def)
  have e: "le32 (of_nat a + of_nat b) = le_enc 4 (a + b)" for a b by (metis le32_of_nat of_nat_add)
  have "map le32 (map2 (+) (map of_nat x) (map of_nat z)) = map2 (\<lambda>a b. le_enc 4 (a + b)) x z"
    by (induction x z rule: list_induct2') (simp_all add: e)
  then show ?thesis
    unfolding salsa20_spec_def salsa20_block_nat assms(1) Let_def rounds_nat_word [OF l] assms(2) by simp
qed

definition vec_subkey :: bytes where
  "vec_subkey =
     [15, 184, 227, 219, 209, 206, 73, 169, 31, 150, 102, 111, 59, 61, 109, 91, 182, 217, 73, 149, 28, 133, 149, 36, 255, 209, 85, 149, 25, 181,
     25, 74]"

definition vec_stream :: bytes where
  "vec_stream =
     [255, 226, 108, 96, 172, 122, 252, 213, 140, 85, 224, 151, 217, 253, 24, 57, 217, 125, 114, 54, 166, 50, 162, 0, 125, 190, 177, 114, 9, 138,
     158, 231, 229, 130, 169, 89, 76, 57, 25, 125, 71, 211, 66, 45, 50, 29, 230, 93, 239, 29, 15, 169, 180, 167, 87, 195, 120, 80, 74, 251, 114,
     209, 165, 181]"

lemma kdf1_block: "block_nat (test_hex2bin DH_RESULT_HEX) (replicate 16 0) =
     [1634760805, 1771666859, 4182373771, 1307213998, 3643346196, 857760878, 0, 0, 0, 0, 2036477234, 2244045233, 2099701043, 376383390, 134962235,
     1797285236]"
  by (simp add: block_nat_def vector_bytes sigma_def replicate_16)

lemma kdf1_vector: "nuki_crypto_kdf1 (test_hex2bin DH_RESULT_HEX) = test_hex2bin KDF1_HEX"
proof -
  have "length (test_hex2bin DH_RESULT_HEX) = 32" by (simp add: vector_bytes)
  then have "nuki_crypto_kdf1 (test_hex2bin DH_RESULT_HEX) = hsalsa20_spec (test_hex2bin DH_RESULT_HEX) (replicate 16 0)"
    by (simp add: nuki_crypto_kdf1_def core_hsalsa20_spec)
  also have "\<dots> = test_hex2bin KDF1_HEX"
    unfolding hsalsa20_spec_nat [OF kdf1_block rounds_kdf1] vector_bytes(2) by (simp add: le_enc_numeral)
  finally show ?thesis .
qed

text \<open>The sealed message: the subkey and the stream of the documented key and nonce.\<close>

lemma subkey_block: "block_nat (test_hex2bin SHARED_KEY_HEX) (take 16 (test_hex2bin WIRE_HEX)) =
     [1634760805, 264994593, 2230503960, 199933417, 2369501332, 857760878, 444567863, 2495946483, 1307772167, 1615877406, 2036477234, 3615393296,
     3688808198, 1277114578, 821541043, 1797285236]"
  by (simp add: block_nat_def vector_bytes sigma_def)

lemma stream_block: "block_nat vec_subkey (take 8 (drop 16 (test_hex2bin WIRE_HEX)) @ le_enc 8 0) =
     [1634760805, 3689134095, 2840186577, 1868994079, 1533885755, 857760878, 2670680957, 3063338215, 0, 0, 2036477234, 2504645046, 613778716,
     2505429503, 1243198745, 1797285236]"
  by (simp add: block_nat_def vector_bytes vec_subkey_def sigma_def le_enc_numeral)

lemma subkey_vector: "hsalsa20_spec (test_hex2bin SHARED_KEY_HEX) (take 16 (test_hex2bin WIRE_HEX)) = vec_subkey"
  unfolding hsalsa20_spec_nat [OF subkey_block rounds_subkey] vec_subkey_def by (simp add: le_enc_numeral)

lemma stream_vector: "salsa20_spec vec_subkey (take 8 (drop 16 (test_hex2bin WIRE_HEX)) @ le_enc 8 0) = vec_stream"
  unfolding salsa20_spec_nat [OF stream_block rounds_stream] vec_stream_def by (simp add: le_enc_numeral)

lemma keystream_vector:
  assumes "len \<le> 64" "0 < len"
  shows "xsalsa20_keystream (test_hex2bin SHARED_KEY_HEX) (take 24 (test_hex2bin WIRE_HEX)) len = take len vec_stream"
proof -
  have "(len + 63) div 64 = 1" using assms by simp
  moreover have "take 16 (take 24 (test_hex2bin WIRE_HEX)) = take 16 (test_hex2bin WIRE_HEX)" by simp
  moreover have "drop 16 (take 24 (test_hex2bin WIRE_HEX)) = take 8 (drop 16 (test_hex2bin WIRE_HEX))" by (simp add: drop_take)
  ultimately show ?thesis
    unfolding xsalsa20_keystream_def keystream_from_def keystream_block_def by (simp only: subkey_vector) (simp add: stream_vector)
qed

lemma poly1305_vector:
  "poly1305 [231, 130, 169, 89, 77, 57, 21, 125, 6, 94] (take 32 vec_stream) =
     [103, 13, 18, 73, 38, 0, 67, 102, 83, 46, 141, 146, 122, 51, 254, 132]"
proof -
  have "poly1305_clamp (take 32 vec_stream) = 12092815652019504109402835513361883903"
    by (simp add: poly1305_clamp_def vec_stream_def)
  then show ?thesis
    by (simp add: poly1305_eq_spec poly1305_spec_def poly1305_acc.simps P1305_def vec_stream_def le_enc_numeral)
qed

lemma e1_vector:
  "nuki_crypto_e1 (test_hex2bin PLAINTEXT_HEX) (take 24 (test_hex2bin WIRE_HEX)) (test_hex2bin SHARED_KEY_HEX) =
     Inr (drop 30 (test_hex2bin WIRE_HEX))"
proof -
  let ?k = "test_hex2bin SHARED_KEY_HEX" and ?n = "take 24 (test_hex2bin WIRE_HEX)" and ?m = "test_hex2bin PLAINTEXT_HEX"
  have l: "box_lengths ?n ?k" "length ?m = 10" by (simp_all add: box_lengths_def vector_bytes)
  have "box_mac_key ?n ?k = take 32 vec_stream" by (simp add: box_mac_key_def keystream_vector)
  moreover have "box_mask ?n ?k 10 = take 10 (drop 32 vec_stream)" by (simp add: box_mask_def keystream_vector drop_take)
  moreover have "xor_bytes ?m (take 10 (drop 32 vec_stream)) = [231, 130, 169, 89, 77, 57, 21, 125, 6, 94]"
    by (simp add: xor_bytes_def vector_bytes vec_stream_def)
  ultimately show ?thesis
    using e1_box [OF l(1), of ?m] l(2) by (simp add: Let_def poly1305_vector) (simp add: vector_bytes)
qed

lemma crc16_vector: "nuki_crc16 (take 8 (test_hex2bin PLAINTEXT_HEX)) = 0x8D41"
proof -
  have "take 8 (test_hex2bin PLAINTEXT_HEX) = [2, 0, 0, 0, 1, 0, 12, 0]" by (simp add: vector_bytes)
  moreover have "nuki_crc16 [2, 0, 0, 0, 1, 0, 12, 0] = 0x8D41" by code_simp
  ultimately show ?thesis by simp
qed

lemma wire_box_lengths: "box_lengths (take 24 (test_hex2bin WIRE_HEX)) (test_hex2bin SHARED_KEY_HEX)"
  by (simp add: box_lengths_def vector_bytes)

lemma plaintext_length: "length (test_hex2bin PLAINTEXT_HEX) = 10"
  by (simp add: vector_bytes)

lemma d1_vector:
  "nuki_crypto_d1 (drop 30 (test_hex2bin WIRE_HEX)) 10 (take 24 (test_hex2bin WIRE_HEX)) (test_hex2bin SHARED_KEY_HEX) =
     Inr (test_hex2bin PLAINTEXT_HEX)"
  using box.dec_enc [OF wire_box_lengths e1_vector] by (simp only: plaintext_length)

text \<open>The tag is a function of the ciphertext, so a box with another tag and the same ciphertext is refused.\<close>

lemma d1_other_tag:
  assumes "box_lengths n k" "nuki_crypto_e1 m n k = Inr b" "length m \<le> 256" "length b' = length b" "take 16 b' \<noteq> take 16 b" "drop 16 b' = drop 16 b"
  shows "nuki_crypto_d1 b' (length m) n k = Inl (- EBADMSG)"
  using assms box.enc_length [OF assms(1,2)] e1_box [OF assms(1,3)] d1_box [OF assms(1,3), of b'] by (auto simp: Let_def)

lemma crc_plaintext: "le16 0x8D41 = drop 8 (test_hex2bin PLAINTEXT_HEX)"
  by (simp add: vector_bytes le16_def le_enc_numeral)

lemma wire_parts:
  "test_hex2bin WIRE_HEX = take 24 (test_hex2bin WIRE_HEX) @ le32 2 @ le16 26 @ drop 30 (test_hex2bin WIRE_HEX)"
  by (simp add: vector_bytes le16_def le32_def le_enc_numeral)

lemma build_vector:
  "byteorder_ok B \<Longrightarrow> 10 \<le> n \<Longrightarrow>
   nuki_frame_build_auth B n 2 NUKI_CMD_REQUEST_DATA (le16 NUKI_CMD_KEYTURNER_STATES) = Some (test_hex2bin PLAINTEXT_HEX)"
proof -
  assume B: "byteorder_ok B" and n: "10 \<le> n"
  have f: "le32 2 @ le16 NUKI_CMD_REQUEST_DATA @ le16 NUKI_CMD_KEYTURNER_STATES = take 8 (test_hex2bin PLAINTEXT_HEX)"
    by (simp add: vector_bytes le16_def le32_def le_enc_numeral)
  have "take 8 (test_hex2bin PLAINTEXT_HEX) @ drop 8 (test_hex2bin PLAINTEXT_HEX) = test_hex2bin PLAINTEXT_HEX" by simp
  then show ?thesis using n by (simp only: build_auth_eq [OF B] f crc16_vector crc_plaintext) simp
qed

lemma wire_is_wire:
  "is_wire (test_hex2bin SHARED_KEY_HEX) 2 NUKI_CMD_REQUEST_DATA (le16 NUKI_CMD_KEYTURNER_STATES) (test_hex2bin WIRE_HEX)"
proof -
  have l: "length (drop 30 (test_hex2bin WIRE_HEX)) = 26" "length (take 24 (test_hex2bin WIRE_HEX)) = 24" "length (le32 2) = 4"
    by (simp_all add: vector_bytes)
  have "nuki_frame_build_auth le_byteorder (8 + length (le16 NUKI_CMD_KEYTURNER_STATES)) 2 NUKI_CMD_REQUEST_DATA (le16 NUKI_CMD_KEYTURNER_STATES) =
      Some (test_hex2bin PLAINTEXT_HEX)"
    by (rule build_vector [OF le_byteorder_ok]) simp
  moreover have "test_hex2bin WIRE_HEX =
      take 24 (test_hex2bin WIRE_HEX) @ le32 2 @ le16 (of_nat (length (drop 30 (test_hex2bin WIRE_HEX)))) @ drop 30 (test_hex2bin WIRE_HEX)"
    using wire_parts by (simp only: l) simp
  ultimately show ?thesis unfolding is_wire_def using e1_vector l by blast
qed

lemma send_vector:
  assumes "byteorder_ok B" "map (rnd s) [rnd_pos s..<rnd_pos s + 24] = take 24 (test_hex2bin WIRE_HEX)"
    and "send_encrypted B 2 (test_hex2bin SHARED_KEY_HEX) NUKI_CMD_REQUEST_DATA (le16 NUKI_CMD_KEYTURNER_STATES) s = (rc, s')"
  shows "sent s' = sent s @ [test_hex2bin WIRE_HEX]" "rx_buf (tr s') = rx_buf (tr s)" "rx_len (tr s') = rx_len (tr s)"
proof -
  have "nuki_transport_write (test_hex2bin WIRE_HEX) (s\<lparr>rnd_pos := rnd_pos s + 24\<rparr>) = (rc, s')"
    using assms(3) unfolding send_encrypted_def build_vector [OF assms(1), of NUKI_FRAME_MAX_LEN, simplified] option.case sys_rand_get_def assms(2) Let_def prod.case
      e1_vector sum.case plaintext_length
    using wire_parts assms(1) by (simp add: byteorder_ok_def)
  from transport_write_effect [OF this]
  show "sent s' = sent s @ [test_hex2bin WIRE_HEX]" "rx_buf (tr s') = rx_buf (tr s)" "rx_len (tr s') = rx_len (tr s)" by simp_all
qed

section \<open>Properties\<close>

text \<open>
  C33: the known-answer tests of the repository, with the byte-exact examples of the Nuki API document, hold of the model: the key derivation, the sealing
  of the example message (tag and ciphertext), its opening, the rejection with \<open>-EBADMSG\<close> of the example with the first byte of the tag altered, the
  round trip under another key, and the checksum, which the message carries low byte first.
\<close>

theorem known_answers:
  "nuki_crypto_kdf1 (test_hex2bin DH_RESULT_HEX) = test_hex2bin KDF1_HEX \<and>
   (let wire = test_hex2bin WIRE_HEX; key = test_hex2bin SHARED_KEY_HEX; plain = test_hex2bin PLAINTEXT_HEX; nonce = take 24 wire
    in length wire = 24 + 4 + 2 + NUKI_TAG_LEN + length plain \<and>
       nuki_crypto_e1 plain nonce key = Inr (drop 30 wire) \<and>
       nuki_crypto_d1 (drop 30 wire) 10 nonce key = Inr plain \<and>
       nuki_crypto_d1 ((drop 30 wire)[0 := wire ! 30 XOR 0xFF]) 10 nonce key = Inl (- EBADMSG) \<and>
       le16 (nuki_crc16 (take (length plain - 2) plain)) = drop (length plain - 2) plain) \<and>
   (let key = map (\<lambda>i. of_nat (i * 7 + 1)) [0..<32]; nonce = map (\<lambda>i. of_nat (i * 3 + 2)) [0..<24];
        msg = map of_char ''arbitrary Nuki command payload, any length'' @ [0]
    in \<exists>b. nuki_crypto_e1 msg nonce key = Inr b \<and> nuki_crypto_d1 b (length msg) nonce key = Inr msg)"
proof -
  let ?w = "test_hex2bin WIRE_HEX" and ?k = "test_hex2bin SHARED_KEY_HEX" and ?p = "test_hex2bin PLAINTEXT_HEX"
  have l: "length ?w = 24 + 4 + 2 + NUKI_TAG_LEN + 10" by (simp add: vector_bytes)
  have t: "nuki_crypto_d1 ((drop 30 ?w)[0 := ?w ! 30 XOR 0xFF]) 10 (take 24 ?w) ?k = Inl (- EBADMSG)"
    unfolding plaintext_length [symmetric]
    by (rule d1_other_tag [OF wire_box_lengths e1_vector]) (simp_all add: vector_bytes)
  have rt: "\<exists>b. nuki_crypto_e1 m n k = Inr b \<and> nuki_crypto_d1 b (length m) n k = Inr m" if "box_lengths n k" "length m \<le> 256" for n k m
    using box.enc_total [OF that] box.dec_enc [OF that(1)] by blast
  have c: "le16 (nuki_crc16 (take (10 - 2) ?p)) = drop (10 - 2) ?p" using crc16_vector crc_plaintext by simp
  show ?thesis
    unfolding Let_def plaintext_length
    by (intro conjI kdf1_vector l e1_vector d1_vector t c rt) (simp_all add: box_lengths_def)
qed

text \<open>
  C29: the bytes on the air are those of the Nuki API document: with the documented key, authorization id and nonce (the 24 bytes that
  the random generator gives next), a state query sends exactly the documented message and nothing else; and
  whoever receives that message with \<open>recv_encrypted\<close>, however it is fragmented, reads the request for the Keyturner state from it.
\<close>

theorem documented_message:
  assumes "byteorder_ok B" "tr_ok (tr s)" "map (rnd s) [rnd_pos s..<rnd_pos s + 24] = take 24 (test_hex2bin WIRE_HEX)"
    and "io_idle t" "delivers (test_hex2bin WIRE_HEX # ms) (inbound t)"
  shows "sent (snd (nuki_command_get_state B 2 (test_hex2bin SHARED_KEY_HEX) s)) = sent s @ [test_hex2bin WIRE_HEX] \<and>
         (\<exists>t'. recv_encrypted B (test_hex2bin SHARED_KEY_HEX) MAX_PLAINTEXT t =
                 (Inr (NUKI_CMD_REQUEST_DATA, le16 NUKI_CMD_KEYTURNER_STATES), t') \<and> delivers ms (inbound t'))"
proof
  let ?k = "test_hex2bin SHARED_KEY_HEX"
  obtain rc s1 where e: "send_encrypted B 2 ?k NUKI_CMD_REQUEST_DATA (le16 NUKI_CMD_KEYTURNER_STATES) s = (rc, s1)" by fastforce
  note v = send_vector [OF assms(1,3) e]
  have ok: "tr_ok (tr s1)" using assms(2) v by (simp add: tr_ok_def)
  obtain r s2 where r: "recv_encrypted B ?k MAX_PLAINTEXT s1 = (r, s2)" by fastforce
  have "sent s2 = sent s1" using recv_encrypted_frame [OF r ok] by (simp add: same_output_def)
  moreover have "sys_put_le16 B NUKI_CMD_KEYTURNER_STATES = le16 NUKI_CMD_KEYTURNER_STATES" using assms(1) by (simp add: byteorder_ok_def)
  ultimately show "sent (snd (nuki_command_get_state B 2 ?k s)) = sent s @ [test_hex2bin WIRE_HEX]"
    using v(1) by (simp add: nuki_command_get_state_def Let_def e r split: sum.split)
next
  have "length (test_hex2bin SHARED_KEY_HEX) = 32" by (simp add: vector_bytes)
  from recv_encrypted_wire [OF assms(1) this wire_is_wire, of MAX_PLAINTEXT t ms] assms(4,5)
  show "\<exists>t'. recv_encrypted B (test_hex2bin SHARED_KEY_HEX) MAX_PLAINTEXT t =
      (Inr (NUKI_CMD_REQUEST_DATA, le16 NUKI_CMD_KEYTURNER_STATES), t') \<and> delivers ms (inbound t')"
    by auto
qed

theorem documented_message_witness:
  "sent (snd (nuki_command_get_state le_byteorder 2 (test_hex2bin SHARED_KEY_HEX)
      (demo_io []\<lparr>rnd := (!) (test_hex2bin WIRE_HEX)\<rparr>))) = [test_hex2bin WIRE_HEX]"
proof -
  let ?s = "demo_io []\<lparr>rnd := (!) (test_hex2bin WIRE_HEX)\<rparr>"
  have "map ((!) (test_hex2bin WIRE_HEX)) [0..<24] = take 24 (test_hex2bin WIRE_HEX)"
    by (simp add: vector_bytes(5) upt_rec)
  then have r: "map (rnd ?s) [rnd_pos ?s..<rnd_pos ?s + 24] = take 24 (test_hex2bin WIRE_HEX)" by (simp add: demo_io_def)
  have t: "tr_ok (tr ?s)" by simp
  have "io_idle (demo_io [test_hex2bin WIRE_HEX])" "delivers (test_hex2bin WIRE_HEX # []) (inbound (demo_io [test_hex2bin WIRE_HEX]))"
    by (rule demo_io_simps)+
  from documented_message [OF le_byteorder_ok t r this] show ?thesis by simp
qed

end
