(* ===== verification/Spec2Isabelle.thy ===== *)
theory Spec2Isabelle
  imports Nuki_Live Nuki_Time Nuki_Wait Nuki_Bridge Nuki_Vectors
begin

text \<open>
  Verification of the Nuki nRF52 bridge firmware (\<open>src/src\<close>, C on Zephyr).

  \<^bold>\<open>The program.\<close> The firmware controls a Nuki door lock over Bluetooth. A request comes from the serial line of a
  Loxone module (\<open>nuki_uart_proto.c\<close>), from the shell (\<open>nuki_shell.c\<close>) or from the background poller. The application module
  (\<open>nuki_app.c\<close>) then scans for the lock, connects, discovers its services, runs one command and disconnects. A
  command (\<open>nuki_command.c\<close>) exchanges messages that are sealed with the key of the pairing; the pairing handshake
  (\<open>nuki_pairing.c\<close>) establishes this key over a plain channel, and \<open>nuki_storage.c\<close> keeps it. Messages
  travel in checksummed frames (\<open>nuki_protocol.c\<close>) over a GATT characteristic whose fragments \<open>nuki_transport.c\<close>
  reassembles. \<open>nuki_crypto.c\<close> holds the cryptography, \<open>main.c\<close> starts everything.

  \<^bold>\<open>Theories and sources.\<close>
  \<^item> \<open>Nuki_Prelude\<close>: machine integers, byte lists, error numbers, little-endian numbers, index loops; the collections
    \<open>wire_simps\<close> and \<open>len_simps\<close>. \<open>Nuki_Op\<close>: sequencing with early return (\<open>op_bind\<close>) and the rule calculi \<open>op_keeps\<close> and \<open>op_yields\<close>.
  \<^item> \<open>Nuki_Salsa20\<close>, \<open>Nuki_Poly1305\<close>, \<open>Nuki_Secretbox\<close>, \<open>Nuki_Crc16\<close>, \<open>Nuki_Psa\<close>: \<open>nuki_crypto.c\<close>, bit for bit on 8-,
    16-, 32- and 64-bit words; PSA Crypto is the record argument \<open>psa\<close>.
  \<^item> \<open>Nuki_Protocol\<close>: \<open>nuki_protocol.c\<close>. \<open>Nuki_Transport\<close>: \<open>nuki_transport.c\<close>; the record \<open>nuki_transport\<close> is the C
    structure, \<open>io\<close> adds the script of what the radio does while a thread waits. \<open>Nuki_Wait\<close>: the blocking wait of the same file
    once more, on the semaphore and the clock, with the scripted form as what it implements.
  \<^item> \<open>Nuki_Command\<close>: \<open>nuki_command.c\<close>. \<open>Nuki_Pairing\<close>: \<open>nuki_pairing.c\<close>. \<open>Nuki_Storage\<close>: \<open>nuki_storage.c\<close>.
  \<^item> \<open>Nuki_Scan\<close> (advertising filter), \<open>Nuki_App\<close> (state, callbacks, operations, cache, poller): \<open>nuki_app.c\<close>; the record \<open>app\<close>
    holds its static variables, an operation is a function on it.
  \<^item> \<open>Nuki_Link\<close>: the Bluetooth host as a step relation \<open>host_step\<close>: which callbacks it may invoke in which phase of a connection.
    \<open>Nuki_Session\<close>: one connection attempt, and the invariants of all operations. \<open>Nuki_Ops\<close>: the operations end to end, the poller.
  \<^item> \<open>Nuki_Uart_Frame\<close> (receiver and frame transmission) and \<open>Nuki_Uart_Proto\<close> (handlers and thread): \<open>nuki_uart_proto.c\<close>.
  \<^item> \<open>Nuki_Shell\<close>: \<open>nuki_shell.c\<close>. \<open>Nuki_Main\<close>: \<open>main.c\<close>.
  \<^item> \<open>Nuki_Time\<close>: bounds on the blocking times. \<open>Nuki_Traffic\<close>: what each operation puts on the air.
    \<open>Nuki_System\<close>: the running firmware as a state machine (\<open>sys_step\<close>, \<open>reach\<close>), whose steps are an interrupt, one request of the UART thread,
    one round of the poller, one shell command, one Bluetooth callback and a restart. \<open>Nuki_Live\<close>: the same machine
    together with the link, for a host that follows \<open>host_step\<close>. \<open>Nuki_Bridge\<close>: the specification of the bridge without radio, buffers, threads and
    cryptography (\<open>bridge_step\<close>), and its refinement by the firmware (\<open>bridge_of\<close>, \<open>fw_step\<close>). \<open>Nuki_Vectors\<close>: the known-answer tests
    (\<open>src/tests/nuki_crypto/src/test_nuki_crypto.c\<close>). This theory: properties from the serial line to the radio, and across a restart.

  \<^bold>\<open>How the code is translated.\<close> One definition per C function, with the source's name. A function that returns an error code returns the
  code, or a value of the sum type \<open>int + 'a\<close> if it also has a result; out-parameters become results. Static
  variables and structures are records that are passed along. Loops are recursive functions, all of them total.
  The kernel and the Bluetooth host, which are not part of the repository, appear in three ways. Functions of
  libraries without a state of ours are record arguments (\<open>byteorder\<close>, \<open>bt_lib\<close>, \<open>psa\<close>, \<open>settings\<close>, \<open>msgq\<close>, \<open>k_sem_take\<close>) with the documented behaviour as predicates
  (\<open>byteorder_ok\<close>, \<open>bt_lib_ok\<close>, \<open>psa_spec\<close>, \<open>settings_ok\<close>, \<open>msgq_ok\<close>, \<open>sem_take_ok\<close>), each shown satisfiable by an instance.
  The result of each blocking call and what happens meanwhile are inputs: \<open>wait_event\<close> and \<open>write_outcome\<close> for the
  transport, \<open>bt_event\<close> for the callbacks of the application, collected in \<open>env\<close> for one operation. Calls into the host that
  return nothing of interest are recorded (\<open>bt_log\<close>), as are the messages handed to the radio (\<open>sent\<close>, \<open>air\<close>). The mutex around
  each operation makes it one step for the other threads. The threads of the poller and of the serial line are cooperative and do not block between the end
  of an operation and the update of the cache or the answer, so that these belong to the same step. Blocking calls add their timeouts to
  \<open>blocked\<close> and \<open>waited\<close>; the reference count of a connection is an integer, so that a reference given back twice shows.

  \<^bold>\<open>Interfaces.\<close> \<open>frame_codec\<close> (both frame formats), \<open>secretbox\<close> (the authenticated encryption), \<open>rx_accumulator\<close> (the
  reassembly buffer), \<open>io_relation\<close> (what every command keeps of the transport, given that the primitives keep it),
  \<open>link_invariant\<close> (invariants under all callbacks of the host) and \<open>lts_refinement\<close> (a step-wise simulation, and where an observation made after
  a run comes from); each is interpreted on the model's definitions.

  \<^bold>\<open>What is shown.\<close>
  \<^item> Cryptography: Salsa20, HSalsa20, XSalsa20 and Poly1305 agree with reference definitions written from their specifications; the
    secretbox opens exactly what was sealed; the CRC detects every burst of at most 16 bits. The known-answer tests hold, and a
    state query sends the documented example byte for byte.
  \<^item> Frames: building and parsing are inverse, and a corrupted byte is detected. State messages are decoded field by field.
  \<^item> Transport: the buffer never overflows and holds the first 256 bytes received, whatever the fragmentation; waits and writes end, with which results; the blocking
    wait returns on time on any semaphore that behaves as documented.
  \<^item> Commands: what \<open>recv_encrypted\<close> returns was sealed under the key; a lock action or calibration is sent only in answer to a sealed
    challenge, received in this connection when the buffer is empty at the start, as it is after a connection attempt; success means a sealed Status COMPLETE after it.
  \<^item> Pairing: success means that the complete handshake ran, with a fresh key pair and the next bytes of the random generator as nonce, and the lock proved
    to know the shared key; it succeeds with a lock that follows the protocol; key slots do not leak unless PSA Crypto fails to destroy a key; the pairing,
    with the address of the connected peer, survives a restart.
  \<^item> Connections: references are balanced for every sequence of callbacks that the host may produce; an attempt returns the
    first verdict, and a callback that comes after its end does not change the result; only the paired lock is called; a connection that a failed discovery
    leaves behind makes every operation fail while it lasts (with the scan timer of the firmware running, \<open>scan_timer\<close>); a lock in range performs the action (liveness). Well-formedness of the whole state.
  \<^item> Poller: at most three quick retries in a row.
  \<^item> Serial protocol: the receiver is a stream parser, recovers from bad lengths, and never writes outside its buffer; every request gets exactly one
    response of the right kind; the reported fields are the cached ones.
  \<^item> Shell: exactly the typed PIN reaches the lock.
  \<^item> Time: the timeouts chosen by the code add up to at most 50 s for a state query, 255 s for an action or a calibration and 200 s for pairing while the
    operation holds the mutex, and to 255 s for each operation ahead of it at the mutex.
  \<^item> The whole: in every reachable state the data is well formed and the mutex free; requests on the serial line are answered one by one in the order of
    arrival, at most four wait; a lock action or a calibration goes on the air only for a received request or a typed command, and it is the one asked for.
    With a host that follows its rules the references of the connection are balanced in every reachable state, and whenever the link is down a waiting
    request is carried out if the lock is in range.
  \<^item> The specification: every step of a reachable state refines a step of the bridge for the same trigger (bytes received, a request served, a poll, a typed command, a
    callback), so it orders nothing but what that request or that command asks for. In every run, across restarts, the reported state of the lock was
    sealed by the lock, and a new pairing comes from a completed handshake. A poll with the lock in range refreshes the reported state.

  \<^bold>\<open>Bounds.\<close> The drain loop of a command runs at most 10 rounds, as in the code; no other bound and no fuel is used: the
  loops over events end with the script of events, and a wait whose script is exhausted times out. The loop of the blocking wait in \<open>Nuki_Wait\<close> is
  a partial function, proved to return.

  \<^bold>\<open>Not modelled.\<close> Log and console output except the lines of the shell commands; \<open>log_advertisement\<close>, which only logs; the MTU exchange,
  whose result is ignored; thread stacks and priorities; computation time, blocking inside calls of the Bluetooth host other than with a timeout of the code, and scheduling delays (\<open>sem_take_ok\<close>
  is an ideal semaphore); the moments at which events happen inside an operation (only their order, and the sum of the timeouts); what the
  shell's status command sees in the middle of an operation of another thread; the shell's parser and printf formatting. The known-answer test of
  \<open>nuki_crypto_dh1\<close>, whose X25519 is a parameter. Board files and build files hold no program logic.
\<close>

section \<open>Properties that span components\<close>

text \<open>The frames that a single request produces, however the interrupts cut it.\<close>

lemma single_request:
  assumes "length payload \<le> NUKI_UART_MAX_PAYLOAD" "concat chunks = request_bytes (cmd, payload)"
  obtains r f where "fold (serial_cb collect True True) chunks (uart_rx_boot, []) = (r, [f])" "frame_of f = (cmd, payload)"
proof -
  obtain r fs where r: "receive (concat chunks) uart_rx_boot = (r, fs)" by (metis surj_pair)
  have boot: "r_state uart_rx_boot = RX_WAIT_SOF" by (simp add: uart_rx_boot_def)
  have "map frame_of fs = parse_stream (concat chunks)"
    using receive_parses [OF uart_rx_boot_ok boot, of "concat chunks"] by (simp only: r snd_conv)
  also have "\<dots> = [(cmd, payload)]" using parse_stream_requests [of "[(cmd, payload)]"] assms by simp
  finally obtain f where "fs = [f]" "frame_of f = (cmd, payload)" by auto
  moreover have "fold (serial_cb collect True True) chunks (uart_rx_boot, []) = (r, fs)"
    using r by (simp only: serial_cb_chunks)
  ultimately show thesis using that by blast
qed

text \<open>
  C1: from the wire to the lock and back: a LOCK, UNLOCK or UNLATCH request that arrives on the UART of a paired bridge, cut by interrupts in any
  way, is answered with one response that echoes the command; and if this response says success, then exactly the requested action was sent
  to the lock, under the stored key and with a challenge that the lock had sealed in this connection, and the lock
  confirmed it with a sealed Status COMPLETE.
\<close>

theorem uart_request_authentic:
  assumes "byteorder_ok B" "app_ok a" "nuki_storage_get_pairing (g_storage a) = Some p"
    and "(cmd, action) \<in> {(NUKI_UART_CMD_LOCK, 2), (NUKI_UART_CMD_UNLOCK, 1), (NUKI_UART_CMD_UNLATCH, 3)}"
    and "concat chunks = request_bytes (cmd, [])"
    and "\<bar>fst (nuki_app_lock_action L B action E a)\<bar> < 2 ^ 31"
  shows "\<exists>r f out a'. fold (serial_cb collect True True) chunks (uart_rx_boot, []) = (r, [f]) \<and>
      nuki_uart_thread_fn L B P S [(f, E, now)] (a, ps, flash) = (out, a', ps, flash) \<and>
      length out = 24 \<and> take 3 out = [0x5A, cmd, 21] \<and>
      (resp_rc (decode_state (drop 3 out)) = 0 \<longrightarrow>
        (\<exists>w1 w2 nk e1 e2 e3. air a' = air a @ [w1, w2] \<and> lock_inbound E = e1 @ e2 @ e3 \<and>
           got_message (shared_key p) [] e1 NUKI_CMD_CHALLENGE nk \<and>
           is_wire (shared_key p) (auth_id p) NUKI_CMD_LOCK_ACTION ([action] @ le32 (app_id p) @ [0] @ nk) w2 \<and>
           got_during (shared_key p) e2 NUKI_CMD_STATUS [NUKI_STATUS_COMPLETE]))"
proof -
  obtain r f where rf: "fold (serial_cb collect True True) chunks (uart_rx_boot, []) = (r, [f])" "frame_of f = (cmd, [])"
    using single_request [OF _ assms(5)] by auto
  then have cmd: "f_cmd f = cmd" by (simp add: frame_of_def)
  obtain out a' ps' flash' where d: "dispatch_frame L B P S E now f (a, ps, flash) = (out, a', ps', flash')" by (metis prod_cases4)
  have f: "f_cmd f \<in> {NUKI_UART_CMD_LOCK, NUKI_UART_CMD_UNLOCK, NUKI_UART_CMD_UNLATCH}"
    and act: "action = (if f_cmd f = NUKI_UART_CMD_LOCK then 2 else if f_cmd f = NUKI_UART_CMD_UNLOCK then 1 else 3)"
    using assms(4) cmd by auto
  obtain rc where rc: "nuki_app_lock_action L B action E a = (rc, a')" "ps' = ps" "flash' = flash"
    "decode_state (drop 3 out) =
       (if rc = 0 \<and> g_cache_valid a'
        then fill_state_fields resp_state_zero (g_cached_state a') (word_of_int ((now - g_cache_uptime_ms a') sdiv 1000))
        else resp_state_zero\<lparr>resp_rc := word_of_int rc\<rparr>)"
    using lock_commands [OF f d act] by blast
  have "responds cmd 21 out" using dispatch_responds [of f L B P S E now "(a, ps, flash)"] d f cmd
    by (auto simp: response_len_def)
  then have o1: "length out = 24" "take 3 out = [0x5A, cmd, 21]" by (auto simp: responds_def)
  have "rc = 0" if "resp_rc (decode_state (drop 3 out)) = 0"
  proof (rule ccontr)
    assume "rc \<noteq> 0"
    then have "(word_of_int rc :: u32) = 0" using that rc(4) by simp
    then have "2 ^ 32 dvd rc" by (simp add: word_of_int_eq_0_iff)
    then show False using assms(6) rc(1) \<open>rc \<noteq> 0\<close> zdvd_imp_le [of "2 ^ 32" "\<bar>rc\<bar>"] by simp
  qed
  then show ?thesis
    using lock_action_end_to_end [OF assms(1-3) rc(1)] rf(1) d rc(2,3) o1
    by (intro exI [of _ r] exI [of _ f] exI [of _ out] exI [of _ a']) (auto; blast)
qed

theorem uart_request_authentic_witness:
  "\<exists>ws r f out a' nk w2. fold (serial_cb collect True True) [[0xA5], [5, 0]] (uart_rx_boot, []) = (r, [f]) \<and>
      nuki_uart_thread_fn demo_lib le_byteorder demo_psa demo_settings [(f, demo_env ws, 0)] (app_boot demo_storage, [], []) = (out, a', [], []) \<and>
      take 3 out = [0x5A, 5, 21]"
proof -
  obtain ws a1 where r: "nuki_app_lock_action demo_lib le_byteorder 1 (demo_env ws) (app_boot demo_storage) = (0, a1)"
    using demo_lock_action by blast
  have h: "(5, 1) \<in> {(NUKI_UART_CMD_LOCK, 2), (NUKI_UART_CMD_UNLOCK, 1), (NUKI_UART_CMD_UNLATCH, 3 :: u8)}"
    "concat [[0xA5], [5, 0]] = request_bytes (5, [])" "\<bar>fst (nuki_app_lock_action demo_lib le_byteorder 1 (demo_env ws) (app_boot demo_storage))\<bar> < 2 ^ 31"
    using r by (simp_all add: request_bytes_def)
  show ?thesis
    using uart_request_authentic [OF le_byteorder_ok app_ok_boot [OF demo_storage_ok] demo_paired h,
        where P = demo_psa and S = demo_settings and now = 0 and ps = "[]" and flash = "[]"] by blast
qed

text \<open>
  C21: a pairing outlives a restart: when the pairing operation returns 0, the handshake had completed over the connection that the operation made, and
  its result, with the address of the peer of the connection that the module holds when the handshake returns, is the pairing in RAM and, after a restart
  that initialises, the pairing of the bridge. If the host keeps to its rules and the connection to \<open>c\<close> is not lost during the handshake, the address is the one of
  \<open>c\<close>. When the operation fails without a completed handshake, both pairings are what they were; when only the write to the flash fails, the new pairing is in
  use, and the flash holds the old one, the new one or none. In every case a restart brings back what the flash holds.
\<close>

theorem pair_then_reboot:
  assumes "settings_ok S stored" "nuki_app_pair L B P S E (a, ps, flash) = (rc, a', ps', flash')"
    and "main 0 P 0 S stored flash' ready cb ps0 = (m, Some (b, uart), ps1)"
  shows "(if rc = 0
          then (\<exists>d. handshake L B P E a ps d \<and> nuki_storage_get_pairing (g_storage a') = Some d \<and>
                  nuki_storage_get_pairing (g_storage b) = Some d \<and> nuki_app_is_paired b \<and>
                  (\<forall>c ph. conn_inv Down a \<longrightarrow> host_run L Down (attempt True (a\<lparr>g_op_lock := True\<rparr>)) (connect_events E) (Up c ph) \<longrightarrow>
                     (\<forall>e\<in>set (op_events E). e \<noteq> Disconnected c \<and> (\<forall>c' err rc. e = Connected c' err rc \<longrightarrow> err = 0)) \<longrightarrow>
                     addr d = bt_conn_get_dst L (Some c)))
          else g_storage a' = g_storage a \<and> stored flash' = stored flash \<or>
               (\<exists>d. handshake L B P E a ps d \<and> nuki_storage_get_pairing (g_storage a') = Some d \<and>
                  stored flash' ''nuki/pairing'' \<in> {stored flash ''nuki/pairing'', Some d, None})) \<and>
         nuki_storage_get_pairing (g_storage b) = stored flash' ''nuki/pairing''"
proof -
  have b: "nuki_storage_get_pairing (g_storage b) = stored flash' ''nuki/pairing''"
    using settings_load_get [OF assms(1)] by (simp add: main_boots(1) [OF assms(3)])
  show ?thesis
  proof (cases "rc = 0")
    case True
    then obtain d where "handshake L B P E a ps d" "nuki_storage_get_pairing (g_storage a') = Some d" "stored flash' ''nuki/pairing'' = Some d"
      using pair_view(2) [OF assms(1,2)] by (auto simp: lock_says_def)
    then show ?thesis
      using b handshake_peer by (auto simp: True nuki_app_is_paired_def)
  next
    case False
    then show ?thesis using b pair_view(2) [OF assms(1,2)] by (auto simp: lock_says_def)
  qed
qed

theorem pair_then_reboot_witness:
  "\<exists>a' ps' flash' b uart ps1 d.
     nuki_app_pair demo_lib le_byteorder demo_psa demo_settings demo_pair_env (app_boot demo_storage, [], []) = (0, a', ps', flash') \<and>
     main 0 demo_psa 0 demo_settings map_of flash' True 0 [] = (0, Some (b, uart), ps1) \<and>
     handshake demo_lib le_byteorder demo_psa demo_pair_env (app_boot demo_storage) [] d \<and>
     nuki_storage_get_pairing (g_storage b) = Some d \<and> addr d = bt_conn_get_dst demo_lib (Some 7)"
proof -
  obtain a' ps' flash' where p: "nuki_app_pair demo_lib le_byteorder demo_psa demo_settings demo_pair_env (app_boot demo_storage, [], [])
      = (0, a', ps', flash')" using demo_pair by blast
  have "\<exists>b uart ps1. main 0 demo_psa 0 demo_settings map_of flash' True 0 [] = (0, Some (b, uart), ps1)"
    by (intro exI) (simp add: main_def demo_keypair nuki_app_init_def nuki_uart_proto_init_def)
  then obtain b uart ps1 where m: "main 0 demo_psa 0 demo_settings map_of flash' True 0 [] = (0, Some (b, uart), ps1)" by blast
  note h = demo_down demo_pair_run demo_pair_quiet
  from pair_then_reboot [OF demo_settings_ok p m] obtain d where
    "handshake demo_lib le_byteorder demo_psa demo_pair_env (app_boot demo_storage) [] d" "nuki_storage_get_pairing (g_storage b) = Some d"
    "addr d = bt_conn_get_dst demo_lib (Some 7)"
    using h by auto
  then show ?thesis using p m by blast
qed

end
